(* ===== verification/Prelude.thy ===== *)
theory Prelude
  imports Main "HOL-Library.Word"
begin

text \<open>
  Shared vocabulary of the development: the machine integer types of the x86\_64 build, the
  outcome of a kernel routine (it returns, it panics, or it accesses memory out of range), the
  error numbers the kernel returns, bounds-checked array access, and the generic lemmas on
  lists and words that the component theories rely on.
\<close>

unbundle bit_operations_syntax

section \<open>Machine types and outcomes\<close>

type_synonym u8 = "8 word"
type_synonym u16 = "16 word"
type_synonym u32 = "32 word"
type_synonym u64 = "64 word"

text \<open>
  A routine of the kernel returns (\<open>Done\<close>), stops the machine through an assertion or
  \<^verbatim>\<open>kernel_panic\<close> (\<open>Panic\<close>), or reads or writes outside an object (\<open>Fault\<close>).
\<close>

datatype 'a outcome = Done 'a | Panic | Fault

fun obind :: "'a outcome \<Rightarrow> ('a \<Rightarrow> 'b outcome) \<Rightarrow> 'b outcome" where
  "obind (Done x) f = f x"
| "obind Panic f = Panic"
| "obind Fault f = Fault"

text \<open>\<open>assert(b)\<close> followed by the rest of the routine.\<close>

definition oassert :: "bool \<Rightarrow> 'a outcome \<Rightarrow> 'a outcome" where
  "oassert b m = (if b then m else Panic)"

text \<open>The error numbers that the modelled routines return (as negative values).\<close>

datatype errno = EBADF | EMFILE | EINVAL | EAGAIN | EPIPE | EINTR | ENOMEM | ETIMEDOUT

text \<open>
  \<open>outcome_facts\<close> collects the unfolding rules for outcomes and checked array access;
  \<open>invariant_intros\<close> collects the preservation lemmas of the component invariants.
\<close>

named_theorems outcome_facts
named_theorems invariant_intros

lemma obind_eq_Done [simp]:
  "obind m f = Done y \<longleftrightarrow> (\<exists>x. m = Done x \<and> f x = Done y)"
  by (cases m) auto

lemma Done_eq_obind [simp]:
  "Done y = obind m f \<longleftrightarrow> (\<exists>x. m = Done x \<and> f x = Done y)"
  by (cases m) auto

lemma obind_assoc: "obind (obind m f) g = obind m (\<lambda>x. obind (f x) g)"
  by (cases m) auto

lemma obind_Done_right [simp]: "obind m Done = m"
  by (cases m) auto

lemma obind_cong [fundef_cong]:
  "m = m' \<Longrightarrow> (\<And>x. m' = Done x \<Longrightarrow> f x = g x) \<Longrightarrow> obind m f = obind m' g"
  by (cases m) auto

lemma oassert_eq_Done [simp]: "oassert b m = Done y \<longleftrightarrow> b \<and> m = Done y"
  by (simp add: oassert_def)

lemma oassert_True [simp]: "oassert True m = m"
  by (simp add: oassert_def)

lemma oassert_False [simp]: "oassert False m = Panic"
  by (simp add: oassert_def)

text \<open>A counting loop: the body for each index in turn, until one of them does not return.\<close>

fun ofold :: "('i \<Rightarrow> 's \<Rightarrow> 's outcome) \<Rightarrow> 'i list \<Rightarrow> 's \<Rightarrow> 's outcome" where
  "ofold f [] s = Done s"
| "ofold f (i # is) s = obind (f i s) (ofold f is)"

lemma ofold_append: "ofold f (xs @ ys) s = obind (ofold f xs s) (ofold f ys)"
  by (induction xs arbitrary: s) (simp_all add: obind_assoc cong: obind_cong)

lemma ofold_cong [fundef_cong]:
  "xs = ys \<Longrightarrow> s = t \<Longrightarrow> (\<And>i s. i \<in> set ys \<Longrightarrow> f i s = g i s) \<Longrightarrow> ofold f xs s = ofold g ys t"
  by (induction ys arbitrary: xs s t) (auto intro!: obind_cong)

text \<open>A loop whose body keeps an invariant \<open>P n\<close>, indexed by the number of rounds done.\<close>

lemma ofold_upt_inv:
  assumes "P 0 s" "\<And>i s. i < n \<Longrightarrow> P i s \<Longrightarrow> \<exists>s'. f i s = Done s' \<and> P (Suc i) s'"
  shows "\<exists>s'. ofold f [0..<n] s = Done s' \<and> P n s'"
  using assms(2)
proof (induction n)
  case 0
  then show ?case using assms(1) by simp
next
  case (Suc n)
  then obtain s1 where "ofold f [0..<n] s = Done s1" "P n s1" by (meson less_SucI)
  with Suc.prems [of n s1] show ?case by (auto simp: ofold_append)
qed

section \<open>Bounds-checked arrays\<close>

definition aread :: "'a list \<Rightarrow> nat \<Rightarrow> 'a outcome" where
  "aread xs i = (if i < length xs then Done (xs ! i) else Fault)"

definition awrite :: "'a list \<Rightarrow> nat \<Rightarrow> 'a \<Rightarrow> 'a list outcome" where
  "awrite xs i v = (if i < length xs then Done (xs[i := v]) else Fault)"

lemma aread_eq_Done [simp]: "aread xs i = Done v \<longleftrightarrow> i < length xs \<and> v = xs ! i"
  by (auto simp: aread_def)

lemma awrite_eq_Done [simp]:
  "awrite xs i v = Done ys \<longleftrightarrow> i < length xs \<and> ys = xs[i := v]"
  by (auto simp: awrite_def)

lemma aread_in [outcome_facts]: "i < length xs \<Longrightarrow> aread xs i = Done (xs ! i)"
  by (simp add: aread_def)

lemma aread_out [outcome_facts]: "\<not> i < length xs \<Longrightarrow> aread xs i = Fault"
  by (simp add: aread_def)

lemma awrite_in [outcome_facts]: "i < length xs \<Longrightarrow> awrite xs i v = Done (xs[i := v])"
  by (simp add: awrite_def)

lemma awrite_out [outcome_facts]: "\<not> i < length xs \<Longrightarrow> awrite xs i v = Fault"
  by (simp add: awrite_def)

text \<open>
  \<^verbatim>\<open>memcpy(dst + doff, src + soff, n)\<close> between two objects: a fault when either range leaves
  its object.
\<close>

definition memcpy :: "'a list \<Rightarrow> nat \<Rightarrow> 'a list \<Rightarrow> nat \<Rightarrow> nat \<Rightarrow> 'a list outcome" where
  "memcpy dst doff src soff n =
     (if doff + n \<le> length dst \<and> soff + n \<le> length src
      then Done (take doff dst @ take n (drop soff src) @ drop (doff + n) dst) else Fault)"

lemma memcpy_in [outcome_facts]:
  "doff + n \<le> length dst \<Longrightarrow> soff + n \<le> length src \<Longrightarrow>
   memcpy dst doff src soff n =
     Done (take doff dst @ take n (drop soff src) @ drop (doff + n) dst)"
  by (simp add: memcpy_def)

lemma length_memcpy: "memcpy dst doff src soff n = Done r \<Longrightarrow> length r = length dst"
  by (auto simp: memcpy_def split: if_splits)

lemma nth_memcpy:
  assumes r: "memcpy dst doff src soff n = Done r" and j: "j < length dst"
  shows "r ! j = (if doff \<le> j \<and> j < doff + n then src ! (soff + (j - doff)) else dst ! j)"
proof -
  from r have b: "doff + n \<le> length dst" "soff + n \<le> length src"
    and e: "r = take doff dst @ take n (drop soff src) @ drop (doff + n) dst"
    by (auto simp: memcpy_def split: if_splits)
  consider "j < doff" | "doff \<le> j" "j < doff + n" | "doff + n \<le> j" by linarith
  then show ?thesis using b j by cases (simp_all add: e nth_append less_diff_conv2)
qed

section \<open>Words and conversions\<close>

text \<open>\<^verbatim>\<open>(int)n\<close> of an unsigned 64-bit value: truncation to 32 bits, read in two's complement.\<close>

definition c_int :: "nat \<Rightarrow> int" where
  "c_int n = sint (word_of_nat n :: u32)"

lemma c_int_small: "n < 2 ^ 31 \<Longrightarrow> c_int n = int n"
proof -
  assume n: "n < 2 ^ 31"
  have "c_int n = signed_take_bit 31 (int n)"
    by (simp add: c_int_def signed_of_nat)
  also have "\<dots> = int n"
    using n by (simp add: signed_take_bit_int_eq_self)
  finally show ?thesis .
qed

text \<open>A single bit in the mask form in which the sources write it (\<^verbatim>\<open>1 << k\<close> is \<open>2 ^ k\<close>).\<close>

lemma bit_mask_test:
  fixes w :: "'a::len word"
  shows "w AND 2 ^ k \<noteq> 0 \<longleftrightarrow> bit w k"
proof
  assume "w AND 2 ^ k \<noteq> 0"
  then obtain n where "bit (w AND 2 ^ k) n"
    by (auto simp: bit_eq_iff)
  then show "bit w k" by (auto simp: bit_simps)
next
  assume k: "bit w k"
  then have "k < LENGTH('a)" by (rule bit_imp_le_length)
  with k have "bit (w AND 2 ^ k) k" by (simp add: bit_simps)
  then show "w AND 2 ^ k \<noteq> 0" by auto
qed

lemma bit_mask_clear:
  fixes w :: "'a::len word"
  shows "w AND 2 ^ k = 0 \<longleftrightarrow> \<not> bit w k"
  using bit_mask_test [of w k] by blast

text \<open>
  \<^verbatim>\<open>__builtin_ctzll\<close>, the number of zero bits below the lowest set bit. The builtin is
  undefined on 0, where the definition gives the width.
\<close>

definition ctz :: "'a::len word \<Rightarrow> nat" where
  "ctz w = length (takeWhile (\<lambda>k. \<not> bit w k) [0..<LENGTH('a)])"

lemma ctz_le: "ctz (w :: 'a::len word) \<le> LENGTH('a)"
  unfolding ctz_def by (rule order_trans [OF length_takeWhile_le]) simp

lemma ctz_below: "k < ctz w \<Longrightarrow> \<not> bit w k"
proof -
  assume k: "k < ctz w"
  let ?tw = "takeWhile (\<lambda>k. \<not> bit w k) [0..<LENGTH('a)]"
  have "k < LENGTH('a)" using k ctz_le [of w] by simp
  then have "?tw ! k = k" using k by (simp add: ctz_def takeWhile_nth)
  moreover have "?tw ! k \<in> set ?tw" using k by (simp add: ctz_def)
  ultimately show ?thesis by (auto dest: set_takeWhileD)
qed

lemma ctz_bit: "w \<noteq> 0 \<Longrightarrow> ctz w < LENGTH('a) \<and> bit (w :: 'a::len word) (ctz w)"
proof -
  assume "w \<noteq> 0"
  then obtain n where n: "bit w n" by (auto simp: bit_eq_iff)
  then have "n < LENGTH('a)" by (rule bit_imp_le_length)
  have lt: "ctz w < LENGTH('a)"
    using ctz_below [of n w] n \<open>n < LENGTH('a)\<close> by (meson leI le_less_trans)
  then have "\<not> \<not> bit w ([0..<LENGTH('a)] ! ctz w)"
    unfolding ctz_def by (intro nth_length_takeWhile) simp
  with lt show ?thesis by simp
qed

section \<open>Division and remainder\<close>

lemma dvd_add_mod: "n dvd d \<Longrightarrow> (a + d) mod n = a mod (n :: nat)"
  by (auto elim!: dvdE)

lemma index_split_64:
  fixes i j :: nat
  shows "i div 64 = j div 64 \<and> i mod 64 = j mod 64 \<longleftrightarrow> i = j"
  by (metis mult_div_mod_eq)

end
