(* ===== verification/Bitmap.thy ===== *)
theory Bitmap
  imports Prelude
begin

text \<open>
  The bitmap of \<^verbatim>\<open>src/libkstructures/bitmap/bitmap.c\<close>: an array of 64-bit words, read as one
  row of bits. The file descriptor table, the UDP port allocator and the interrupt allocator
  are its clients. The lemmas relate every operation to \<open>bits\<close>, the row of bits itself.
\<close>

section \<open>Definitions\<close>

type_synonym bitmap = "u64 list"

definition bitmap_test :: "bitmap \<Rightarrow> nat \<Rightarrow> bool outcome" where
  "bitmap_test b i = obind (aread b (i div 64)) (\<lambda>w. Done (w AND push_bit (i mod 64) 1 \<noteq> 0))"

definition bitmap_set :: "bitmap \<Rightarrow> nat \<Rightarrow> bitmap outcome" where
  "bitmap_set b i =
     obind (aread b (i div 64)) (\<lambda>w. awrite b (i div 64) (w OR push_bit (i mod 64) 1))"

definition bitmap_clear :: "bitmap \<Rightarrow> nat \<Rightarrow> bitmap outcome" where
  "bitmap_clear b i =
     obind (aread b (i div 64)) (\<lambda>w. awrite b (i div 64) (w AND NOT (push_bit (i mod 64) 1)))"

text \<open>
  \<^verbatim>\<open>memset\<close> on the words, byte by byte: the machine is little endian, so byte \<open>off\<close> of the
  array is byte \<open>off mod 8\<close>, counted from the low end, of word \<open>off div 8\<close>.
\<close>

definition set_byte :: "u64 \<Rightarrow> nat \<Rightarrow> u8 \<Rightarrow> u64" where
  "set_byte w j v = (w AND NOT (push_bit (8 * j) (mask 8))) OR push_bit (8 * j) (ucast v)"

fun memset_words :: "bitmap \<Rightarrow> nat \<Rightarrow> u8 \<Rightarrow> nat \<Rightarrow> bitmap outcome" where
  "memset_words b off v 0 = Done b"
| "memset_words b off v (Suc n) =
     obind (aread b (off div 8)) (\<lambda>w.
     obind (awrite b (off div 8) (set_byte w (off mod 8) v)) (\<lambda>b'.
     memset_words b' (Suc off) v n))"

text \<open>The two bit-by-bit loops of \<open>bitmap_clear_range\<close>: up to a word boundary, and to the end.\<close>

function clear_to_word :: "bitmap \<Rightarrow> nat \<Rightarrow> nat \<Rightarrow> (bitmap \<times> nat) outcome" where
  "clear_to_word b start en =
     (if start mod 64 \<noteq> 0 \<and> start < en
      then obind (bitmap_clear b start) (\<lambda>b'. clear_to_word b' (start + 1) en)
      else Done (b, start))"
  by pat_completeness auto
termination by (relation "measure (\<lambda>(b, start, en). en - start)") auto

function clear_to_end :: "bitmap \<Rightarrow> nat \<Rightarrow> nat \<Rightarrow> bitmap outcome" where
  "clear_to_end b start en =
     (if start < en
      then obind (bitmap_clear b start) (\<lambda>b'. clear_to_end b' (start + 1) en)
      else Done b)"
  by pat_completeness auto
termination by (relation "measure (\<lambda>(b, start, en). en - start)") auto

definition bitmap_clear_range :: "bitmap \<Rightarrow> nat \<Rightarrow> nat \<Rightarrow> bitmap outcome" where
  "bitmap_clear_range b start en =
     obind (clear_to_word b start en) (\<lambda>(b1, start1).
     if start1 \<ge> en then Done b1
     else if en - start1 > 64 then
       obind (memset_words b1 (8 * (start1 div 64)) 0 ((en - start1) div 8)) (\<lambda>b2.
       clear_to_end b2 (start1 + (en - start1) div 8 * 8) en)
     else clear_to_end b1 start1 en)"

definition bitmap_fill :: "bitmap \<Rightarrow> u8 \<Rightarrow> nat \<Rightarrow> bitmap outcome" where
  "bitmap_fill b f n =
     (let w = (n + 64 - 1) div 64 in
      obind (memset_words b 0 f (w * 8)) (\<lambda>b'.
      if n mod 64 \<noteq> 0 then awrite b' (w - 1) (push_bit (n mod 64) 1 - 1) else Done b'))"

text \<open>The word loop of \<open>bitmap_find_first_from\<close>, from word \<open>i\<close>.\<close>

function find_from_words :: "bitmap \<Rightarrow> nat \<Rightarrow> nat \<Rightarrow> nat \<Rightarrow> int outcome" where
  "find_from_words b start n i =
     (if i < (n + 64 - 1) div 64 then
        obind (aread b i) (\<lambda>v.
        let word = (if i = start div 64 then NOT v AND push_bit (start mod 64) (NOT 0) else NOT v)
        in if word \<noteq> 0 then
             (let r = i * 64 + ctz word in Done (if r < n then c_int r else -1))
           else find_from_words b start n (i + 1))
      else Done (-1))"
  by pat_completeness auto
termination by (relation "measure (\<lambda>(b, start, n, i). (n + 64 - 1) div 64 - i)") auto

definition bitmap_find_first_from :: "bitmap \<Rightarrow> nat \<Rightarrow> nat \<Rightarrow> int outcome" where
  "bitmap_find_first_from b start n =
     (if start \<ge> n then Done (-1) else find_from_words b start n (start div 64))"

function find_words :: "bitmap \<Rightarrow> nat \<Rightarrow> nat \<Rightarrow> int outcome" where
  "find_words b n i =
     (if i < (n + 64 - 1) div 64 then
        obind (aread b i) (\<lambda>v.
        if NOT v \<noteq> 0 then Done (c_int (i * 64 + ctz (NOT v))) else find_words b n (i + 1))
      else Done (-1))"
  by pat_completeness auto
termination by (relation "measure (\<lambda>(b, n, i). (n + 64 - 1) div 64 - i)") auto

definition bitmap_find_first :: "bitmap \<Rightarrow> nat \<Rightarrow> int outcome" where
  "bitmap_find_first b n = find_words b n 0"

declare clear_to_word.simps [simp del] clear_to_end.simps [simp del]
  find_from_words.simps [simp del] find_words.simps [simp del]

section \<open>The row of bits\<close>

definition bits :: "bitmap \<Rightarrow> nat \<Rightarrow> bool" where
  "bits b i = bit (b ! (i div 64)) (i mod 64)"

lemma word_index_lt: "i < 64 * length b \<Longrightarrow> i div 64 < length b"
  by (simp add: less_mult_imp_div_less mult.commute)

lemma bits_update:
  assumes "i < 64 * length b"
    and "\<And>m. m < 64 \<Longrightarrow> bit w m \<longleftrightarrow> (if m = i mod 64 then x else bit (b ! (i div 64)) m)"
  shows "bits (b[i div 64 := w]) j = (if j = i then x else bits b j)"
proof (cases "j div 64 = i div 64")
  case True
  then have "(j = i) = (j mod 64 = i mod 64)"
    using index_split_64 [of j i] by auto
  with True assms word_index_lt [OF assms(1)] show ?thesis
    by (simp add: bits_def)
next
  case False
  then show ?thesis by (auto simp: bits_def)
qed

lemma bitmap_test_bits [outcome_facts]:
  "i < 64 * length b \<Longrightarrow> bitmap_test b i = Done (bits b i)"
  using word_index_lt [of i b]
  by (simp add: bitmap_test_def bits_def aread_in bit_mask_test)

lemma bitmap_set_bits:
  assumes "i < 64 * length b"
  obtains b' where "bitmap_set b i = Done b'" "length b' = length b"
    "\<And>j. bits b' j = (if j = i then True else bits b j)"
proof
  let ?b = "b[i div 64 := (b ! (i div 64)) OR push_bit (i mod 64) 1]"
  show "bitmap_set b i = Done ?b"
    using word_index_lt [OF assms] by (simp add: bitmap_set_def aread_in awrite_in)
  show "length ?b = length b" by simp
  show "bits ?b j = (if j = i then True else bits b j)" for j
    by (rule bits_update [OF assms]) (auto simp: bit_simps)
qed

lemma bitmap_clear_bits:
  assumes "i < 64 * length b"
  obtains b' where "bitmap_clear b i = Done b'" "length b' = length b"
    "\<And>j. bits b' j = (if j = i then False else bits b j)"
proof
  let ?b = "b[i div 64 := (b ! (i div 64)) AND NOT (push_bit (i mod 64) 1)]"
  show "bitmap_clear b i = Done ?b"
    using word_index_lt [OF assms] by (simp add: bitmap_clear_def aread_in awrite_in)
  show "length ?b = length b" by simp
  show "bits ?b j = (if j = i then False else bits b j)" for j
    by (rule bits_update [OF assms]) (auto simp: bit_simps)
qed

section \<open>Filling bytes and clearing ranges\<close>

lemma bit_set_byte:
  assumes "j < 8" "m < 64"
  shows "bit (set_byte w j v) m = (if m div 8 = j then bit v (m mod 8) else bit w m)"
proof -
  have v: "bit v k \<Longrightarrow> k < 8" for k
    using bit_imp_le_length [of v k] by simp
  have split: "m div 8 = j \<longleftrightarrow> 8 * j \<le> m \<and> m < 8 * j + 8"
    by auto
  have sub: "m div 8 = j \<Longrightarrow> m - 8 * j = m mod 8"
    by (metis minus_mult_div_eq_mod)
  show ?thesis
    using assms split sub
    by (auto simp: set_byte_def bit_simps dest: v)
qed

lemma bits_set_byte:
  assumes "off < 8 * length b"
  shows "bits (b[off div 8 := set_byte (b ! (off div 8)) (off mod 8) v]) i =
         (if i div 8 = off then bit v (i mod 8) else bits b i)"
proof -
  have "i div 64 = i div 8 div 8" "i mod 64 div 8 = i div 8 mod 8"
    using div_mult2_eq [of i 8 8] mod_mult2_eq [of i 8 8] by simp_all
  then have pos: "i div 8 = off \<longleftrightarrow> i div 64 = off div 8 \<and> i mod 64 div 8 = off mod 8"
    by (metis div_mult_mod_eq)
  have "off div 8 < length b"
    using assms by (simp add: less_mult_imp_div_less mult.commute)
  moreover have "i mod 64 mod 8 = i mod 8"
    by (simp add: mod_mod_cancel)
  ultimately show ?thesis
    using pos by (cases "i div 64 = off div 8") (auto simp: bits_def bit_set_byte)
qed

lemma memset_words_bits:
  "off + n \<le> 8 * length b \<Longrightarrow>
   \<exists>b'. memset_words b off v n = Done b' \<and> length b' = length b \<and>
     (\<forall>i. bits b' i = (if off \<le> i div 8 \<and> i div 8 < off + n then bit v (i mod 8) else bits b i))"
proof (induction n arbitrary: b off)
  case 0
  then show ?case by auto
next
  case (Suc n)
  let ?b = "b[off div 8 := set_byte (b ! (off div 8)) (off mod 8) v]"
  have in_range: "off < 8 * length b" using Suc.prems by simp
  then have word: "off div 8 < length b"
    by (simp add: less_mult_imp_div_less mult.commute)
  obtain b' where b': "memset_words ?b (Suc off) v n = Done b'" "length b' = length b"
    "\<And>i. bits b' i = (if Suc off \<le> i div 8 \<and> i div 8 < Suc off + n then bit v (i mod 8)
            else bits ?b i)"
    using Suc.IH [of "Suc off" ?b] Suc.prems by auto
  have "bits b' i = (if off \<le> i div 8 \<and> i div 8 < off + Suc n then bit v (i mod 8)
          else bits b i)" for i
    using b'(3) [of i] bits_set_byte [OF in_range] by auto
  with b' word show ?case by (simp add: aread_in awrite_in)
qed

lemma clear_to_end_bits:
  "en \<le> 64 * length b \<Longrightarrow>
   \<exists>b'. clear_to_end b start en = Done b' \<and> length b' = length b \<and>
     (\<forall>i. bits b' i = (bits b i \<and> \<not> (start \<le> i \<and> i < en)))"
proof (induction b start en rule: clear_to_end.induct)
  case (1 b start en)
  show ?case
  proof (cases "start < en")
    case True
    with "1.prems" obtain b1 where b1: "bitmap_clear b start = Done b1" "length b1 = length b"
      "\<And>j. bits b1 j = (if j = start then False else bits b j)"
      using bitmap_clear_bits [of start b] by auto
    obtain b' where "clear_to_end b1 (start + 1) en = Done b'" "length b' = length b"
      "\<forall>i. bits b' i = (bits b1 i \<and> \<not> (start + 1 \<le> i \<and> i < en))"
      using "1.IH" [OF True, of b1] "1.prems" b1 by auto
    with True b1 show ?thesis
      by (auto simp: clear_to_end.simps [of b start en])
  next
    case False
    then show ?thesis by (simp add: clear_to_end.simps [of b start en])
  qed
qed

lemma clear_to_word_bits:
  "en \<le> 64 * length b \<Longrightarrow>
   \<exists>b' s'. clear_to_word b start en = Done (b', s') \<and> length b' = length b \<and> start \<le> s' \<and>
     (s' \<ge> en \<or> s' mod 64 = 0) \<and> (start \<le> en \<longrightarrow> s' \<le> en) \<and>
     (\<forall>i. bits b' i = (bits b i \<and> \<not> (start \<le> i \<and> i < s' \<and> i < en)))"
proof (induction b start en rule: clear_to_word.induct)
  case (1 b start en)
  show ?case
  proof (cases "start mod 64 \<noteq> 0 \<and> start < en")
    case True
    with "1.prems" obtain b1 where b1: "bitmap_clear b start = Done b1" "length b1 = length b"
      "\<And>j. bits b1 j = (if j = start then False else bits b j)"
      using bitmap_clear_bits [of start b] by auto
    have "en \<le> 64 * length b1" using "1.prems" b1(2) by simp
    from "1.IH" [OF True b1(1) this] obtain b' s' where
      b': "clear_to_word b1 (start + 1) en = Done (b', s')" "length b' = length b1"
      "start + 1 \<le> s'" "s' \<ge> en \<or> s' mod 64 = 0" "start + 1 \<le> en \<longrightarrow> s' \<le> en"
      "\<forall>i. bits b' i = (bits b1 i \<and> \<not> (start + 1 \<le> i \<and> i < s' \<and> i < en))"
      by meson
    then have "\<forall>i. bits b' i = (bits b i \<and> \<not> (start \<le> i \<and> i < s' \<and> i < en))"
      using b1(3) True by (auto simp: le_Suc_eq)
    moreover have "clear_to_word b start en = Done (b', s')"
      using True b1(1) b'(1) by (simp add: clear_to_word.simps [of b start en])
    moreover have "length b' = length b" "start \<le> s'" "start \<le> en \<longrightarrow> s' \<le> en"
      using b'(2,3,5) b1(2) True by simp_all
    ultimately show ?thesis
      using b'(4) by (intro exI [of _ b'] exI [of _ s'] conjI)
  next
    case False
    then show ?thesis
      by (intro exI [of _ b] exI [of _ start]) (auto simp: clear_to_word.simps [of b start en])
  qed
qed

lemma bitmap_clear_range_bits:
  assumes "en \<le> 64 * length b"
  shows "\<exists>b'. bitmap_clear_range b start en = Done b' \<and> length b' = length b \<and>
    (\<forall>i. bits b' i = (bits b i \<and> \<not> (start \<le> i \<and> i < en)))"
proof -
  obtain b1 s1 where cw: "clear_to_word b start en = Done (b1, s1)" "length b1 = length b"
    "start \<le> s1" "s1 \<ge> en \<or> s1 mod 64 = 0"
    "\<And>i. bits b1 i = (bits b i \<and> \<not> (start \<le> i \<and> i < s1 \<and> i < en))"
    using clear_to_word_bits [OF assms, of start] by auto
  consider "s1 \<ge> en" | "s1 < en" "en - s1 > 64" | "s1 < en" "\<not> en - s1 > 64" by linarith
  then show ?thesis
  proof cases
    case 1
    with cw show ?thesis
      by (auto simp: bitmap_clear_range_def)
  next
    case 2
    let ?n = "(en - s1) div 8"
    have al: "s1 mod 64 = 0" using cw(4) 2 by simp
    then obtain q where "s1 = 64 * q" by auto
    then have base: "8 * (s1 div 64) = s1 div 8" "s1 mod 8 = 0"
      by simp_all
    have "s1 div 8 * 8 + ?n * 8 \<le> en"
      using 2 div_times_less_eq_dividend [of s1 8] div_times_less_eq_dividend [of "en - s1" 8]
      by linarith
    then have "s1 div 8 + ?n \<le> 8 * length b1"
      using assms cw(2) by linarith
    then obtain b2 where b2: "memset_words b1 (s1 div 8) 0 ?n = Done b2" "length b2 = length b"
      "\<And>i. bits b2 i = (if s1 div 8 \<le> i div 8 \<and> i div 8 < s1 div 8 + ?n then False
              else bits b1 i)"
      using memset_words_bits [of "s1 div 8" ?n b1 0] cw(2) by auto
    obtain b3 where b3: "clear_to_end b2 (s1 + ?n * 8) en = Done b3" "length b3 = length b"
      "\<And>i. bits b3 i = (bits b2 i \<and> \<not> (s1 + ?n * 8 \<le> i \<and> i < en))"
      using clear_to_end_bits [of en b2 "s1 + ?n * 8"] assms b2(2) by auto
    have rng: "s1 div 8 \<le> i div 8 \<and> i div 8 < s1 div 8 + ?n \<longleftrightarrow> s1 \<le> i \<and> i < s1 + ?n * 8" for i
      using base(2) by (auto simp: less_eq_div_iff_mult_less_eq div_less_iff_less_mult algebra_simps)
    have "bits b3 i = (bits b i \<and> \<not> (start \<le> i \<and> i < en))" for i
      using b3(3) [of i] b2(3) [of i] cw(3) cw(5) [of i] 2 rng [of i] by auto
    with cw(1) 2 b2(1) b3(1,2) base(1) show ?thesis
      by (auto simp: bitmap_clear_range_def)
  next
    case 3
    obtain b3 where b3: "clear_to_end b1 s1 en = Done b3" "length b3 = length b"
      "\<And>i. bits b3 i = (bits b1 i \<and> \<not> (s1 \<le> i \<and> i < en))"
      using clear_to_end_bits [of en b1 s1] assms cw(2) by auto
    have "bits b3 i = (bits b i \<and> \<not> (start \<le> i \<and> i < en))" for i
      using b3(3) [of i] cw(3) cw(5) [of i] by auto
    with cw(1) 3 b3(1,2) show ?thesis
      by (simp add: bitmap_clear_range_def)
  qed
qed

text \<open>The hypothesis of C1 holds for a bitmap of two words and the range from bit 3 to bit 100.\<close>

text \<open>
  C13. \<open>bitmap_clear_range\<close> clears exactly the bits from \<open>start\<close> up to (not including) \<open>en\<close> and
  touches no word outside the bitmap: the byte-wise \<^verbatim>\<open>memset\<close> of the fast path and the two
  bit loops together cover the range with no gap and no overrun.
\<close>

theorem bitmap_clear_range_exact:
  assumes "en \<le> 64 * length b"
  shows "\<exists>b'. bitmap_clear_range b start en = Done b' \<and> length b' = length b \<and>
    (\<forall>i. bits b' i = (bits b i \<and> \<not> (start \<le> i \<and> i < en)))"
  by (rule bitmap_clear_range_bits [OF assms])

theorem bitmap_clear_range_exact_witness:
  "\<exists>b'. bitmap_clear_range [NOT 0, NOT 0] 3 100 = Done b' \<and> bits b' 2 \<and> \<not> bits b' 3 \<and>
     \<not> bits b' 99 \<and> bits b' 100"
proof -
  have "(100::nat) \<le> 64 * length [NOT 0, NOT 0 :: u64]" by simp
  from bitmap_clear_range_exact [OF this, of 3] obtain b' where
    "bitmap_clear_range [NOT 0, NOT 0] 3 100 = Done b'"
    "\<And>i. bits b' i = (bits [NOT 0, NOT 0] i \<and> \<not> (3 \<le> i \<and> i < 100))"
    by blast
  moreover have "bits [NOT 0, NOT 0] 2" "bits [NOT 0, NOT 0] 100"
    by (simp_all add: bits_def)
  ultimately show ?thesis by auto
qed

section \<open>Searching for a clear bit\<close>

text \<open>The result of a search from \<open>start\<close>: the least clear bit below \<open>n\<close>, or \<open>-1\<close> when there is none.\<close>

definition first_clear :: "(nat \<Rightarrow> bool) \<Rightarrow> nat \<Rightarrow> nat \<Rightarrow> int \<Rightarrow> bool" where
  "first_clear f start n r \<longleftrightarrow>
     (r = -1 \<and> (\<forall>i. start \<le> i \<longrightarrow> i < n \<longrightarrow> f i)) \<or>
     (\<exists>i. r = int i \<and> start \<le> i \<and> i < n \<and> \<not> f i \<and> (\<forall>j. start \<le> j \<longrightarrow> j < i \<longrightarrow> f j))"

lemma first_clear_hit [intro]:
  "start \<le> i \<Longrightarrow> i < n \<Longrightarrow> \<not> f i \<Longrightarrow> (\<And>j. start \<le> j \<Longrightarrow> j < i \<Longrightarrow> f j) \<Longrightarrow>
   first_clear f start n (int i)"
  by (auto simp: first_clear_def)

lemma first_clear_none [intro]:
  "(\<And>i. start \<le> i \<Longrightarrow> i < n \<Longrightarrow> f i) \<Longrightarrow> first_clear f start n (-1)"
  by (auto simp: first_clear_def)

lemma ceil64_lt: "i < (n + 64 - 1) div 64 \<longleftrightarrow> 64 * i < n" for i n :: nat
  by (auto simp: less_eq_Suc_le less_eq_div_iff_mult_less_eq)

lemma search_word_bit:
  assumes "start div 64 \<le> i" "m < 64"
  shows "bit (if i = start div 64 then NOT v AND push_bit (start mod 64) (NOT 0) else NOT v :: u64) m
         \<longleftrightarrow> \<not> bit v m \<and> start \<le> i * 64 + m"
proof (cases "i = start div 64")
  case True
  then have "start \<le> i * 64 + m \<longleftrightarrow> start mod 64 \<le> m"
    by (metis add.commute add_le_cancel_left div_mult_mod_eq)
  with True assms(2) show ?thesis by (auto simp: bit_simps)
next
  case False
  with assms(1) have "start \<le> i * 64 + m"
    by (metis Suc_leI div_less_iff_less_mult le_neq_implies_less less_imp_le not_less
        trans_le_add1 zero_less_numeral)
  with False assms(2) show ?thesis by (simp add: bit_simps)
qed

lemma find_from_words_first_clear:
  assumes "n \<le> 64 * length b" "n \<le> 2 ^ 31" "start div 64 \<le> i"
    and "\<And>j. start \<le> j \<Longrightarrow> j < 64 * i \<Longrightarrow> bits b j"
  shows "\<exists>r. find_from_words b start n i = Done r \<and> first_clear (bits b) start n r"
  using assms
proof (induction b start n i rule: find_from_words.induct)
  case (1 b start n i)
  let ?w = "if i = start div 64 then NOT (b ! i) AND push_bit (start mod 64) (NOT 0) else NOT (b ! i)"
  note step = find_from_words.simps [of b start n i, unfolded ceil64_lt]
  have here: "bits b (i * 64 + m) = bit (b ! i) m" if "m < 64" for m
    using that by (simp add: bits_def)
  note w = search_word_bit [OF "1.prems"(3), of _ "b ! i"]
  show ?case
  proof (cases "64 * i < n")
    case False
    then have "find_from_words b start n i = Done (-1)"
      by (simp add: step)
    moreover have "first_clear (bits b) start n (-1)"
      using False "1.prems"(4) by (auto simp: first_clear_def)
    ultimately show ?thesis by blast
  next
    case in_row: True
    then have i: "i < length b" using "1.prems"(1) by simp
    show ?thesis
    proof (cases "?w = 0")
      case True
      have all: "bits b j" if j: "start \<le> j" "j < 64 * (i + 1)" for j
      proof (cases "j < 64 * i")
        case False
        then obtain m where m: "j = i * 64 + m" "m < 64"
          using j(2) that [of "j - i * 64"] by auto
        with w [of m] True j(1) here show ?thesis by auto
      qed (use "1.prems"(4) j in blast)
      have "find_from_words b start n i = find_from_words b start n (i + 1)"
        using i in_row True by (simp add: step aread_in Let_def)
      moreover have "\<exists>r. find_from_words b start n (i + 1) = Done r \<and> first_clear (bits b) start n r"
        using "1.IH" [unfolded ceil64_lt, OF in_row aread_in [OF i] refl] True all "1.prems"(1-3)
        by simp
      ultimately show ?thesis by simp
    next
      case False
      let ?r = "i * 64 + ctz ?w"
      have c: "ctz ?w < 64" "bit ?w (ctz ?w)" using ctz_bit [OF False] by simp_all
      then have r: "\<not> bits b ?r" "start \<le> ?r"
        using w [of "ctz ?w"] here by simp_all
      have below: "bits b j" if j: "start \<le> j" "j < ?r" for j
      proof (cases "j < 64 * i")
        case False
        then obtain m where m: "j = i * 64 + m" "m < ctz ?w"
          using j(2) that [of "j - i * 64"] by auto
        with w [of m] ctz_below [OF m(2)] j(1) here [of m] c(1) show ?thesis by simp
      qed (use "1.prems"(4) j in blast)
      have val: "find_from_words b start n i = Done (if ?r < n then c_int ?r else -1)"
        using i in_row False by (simp add: step aread_in Let_def)
      show ?thesis
      proof (cases "?r < n")
        case True
        then have "c_int ?r = int ?r" using "1.prems"(2) by (intro c_int_small) simp
        moreover have "first_clear (bits b) start n (int ?r)"
          using True r below by (intro first_clear_hit)
        ultimately show ?thesis using val True by simp
      next
        case False
        then have "first_clear (bits b) start n (-1)"
          using below by (intro first_clear_none) simp
        with val False show ?thesis by simp
      qed
    qed
  qed
qed

lemma bitmap_find_first_from_first_clear:
  assumes "n \<le> 64 * length b" "n \<le> 2 ^ 31"
  shows "\<exists>r. bitmap_find_first_from b start n = Done r \<and> first_clear (bits b) start n r"
proof (cases "start \<ge> n")
  case True
  then show ?thesis by (auto simp: bitmap_find_first_from_def first_clear_def)
next
  case False
  moreover have "bits b j" if "start \<le> j" "j < 64 * (start div 64)" for j
    using that div_times_less_eq_dividend [of start 64] by linarith
  ultimately show ?thesis
    using find_from_words_first_clear [OF assms order_refl] by (simp add: bitmap_find_first_from_def)
qed

text \<open>
  C14. \<open>bitmap_find_first_from\<close> is a first-fit search: for a bitmap that has the \<open>n\<close> bits and
  \<open>n\<close> in the range of \<^verbatim>\<open>int\<close>, it returns the least clear bit at or above \<open>start\<close> and below
  \<open>n\<close>, and \<open>-1\<close> exactly when every such bit is set. No word outside the bitmap is read.
\<close>

theorem bitmap_find_first_from_least:
  assumes "n \<le> 64 * length b" "n \<le> 2 ^ 31"
  shows "\<exists>r. bitmap_find_first_from b start n = Done r \<and> first_clear (bits b) start n r"
  by (rule bitmap_find_first_from_first_clear [OF assms])

theorem bitmap_find_first_from_least_witness:
  "\<exists>r. bitmap_find_first_from [15] 1 10 = Done r \<and> first_clear (bits [15]) 1 10 r"
  by (rule bitmap_find_first_from_least) simp_all

lemma find_words_eq_find_from_words:
  "find_words b n i = find_from_words b 0 (64 * ((n + 64 - 1) div 64)) i"
proof (induction b n i rule: find_words.induct)
  case (1 b n i)
  let ?m = "64 * ((n + 64 - 1) div 64)"
  have guard: "i < (?m + 64 - 1) div 64 \<longleftrightarrow> i < (n + 64 - 1) div 64"
    by simp
  have fits: "i * 64 + ctz (NOT v) < ?m" if "NOT v \<noteq> 0" "i < (n + 64 - 1) div 64" for v :: u64
  proof -
    have "ctz (NOT v) < 64" using ctz_bit [OF that(1)] by simp
    moreover have "64 * (i + 1) \<le> ?m" using that(2) by (intro mult_le_mono2) simp
    ultimately show ?thesis by simp
  qed
  show ?case
  proof (cases "i < (n + 64 - 1) div 64 \<and> i < length b")
    case True
    then have "find_words b n (i + 1) = find_from_words b 0 ?m (i + 1)" if "NOT (b ! i) = 0"
      using "1.IH" [of "b ! i"] that by (simp add: aread_in)
    with True fits [of "b ! i"] guard show ?thesis
      unfolding find_words.simps [of b n i] find_from_words.simps [of b 0 ?m i]
      by (cases "NOT (b ! i) = 0") (auto simp: aread_in Let_def)
  next
    case False
    then show ?thesis
      unfolding find_words.simps [of b n i] find_from_words.simps [of b 0 ?m i] guard
      by (simp add: aread_out)
  qed
qed

text \<open>
  \<open>bitmap_find_first\<close> returns the least clear bit of the words that hold the first \<open>n\<close> bits,
  and \<open>-1\<close> exactly when all of these words are full. The bound is that of the words and not
  \<open>n\<close> itself: the second part is a call for 3 bits, all of them set, that answers 3.
\<close>

theorem bitmap_find_first_least:
  "(64 * ((n + 64 - 1) div 64) \<le> 64 * length b \<longrightarrow> 64 * ((n + 64 - 1) div 64) \<le> 2 ^ 31 \<longrightarrow>
      (\<exists>r. bitmap_find_first b n = Done r \<and>
           first_clear (bits b) 0 (64 * ((n + 64 - 1) div 64)) r)) \<and>
   bitmap_find_first [7] 3 = Done 3"
proof (intro conjI impI)
  assume "64 * ((n + 64 - 1) div 64) \<le> 64 * length b" "64 * ((n + 64 - 1) div 64) \<le> 2 ^ 31"
  then show "\<exists>r. bitmap_find_first b n = Done r \<and>
    first_clear (bits b) 0 (64 * ((n + 64 - 1) div 64)) r"
    using find_from_words_first_clear [where start = 0 and i = 0]
    by (simp add: bitmap_find_first_def find_words_eq_find_from_words del: mult_le_cancel1)
next
  have "ctz (NOT 7 :: u64) = 3" by code_simp
  then show "bitmap_find_first [7] 3 = Done 3"
    by (simp add: bitmap_find_first_def find_words.simps aread_in c_int_def)
qed

theorem bitmap_find_first_least_witness:
  "\<exists>r. bitmap_find_first [15] 10 = Done r \<and> first_clear (bits [15]) 0 64 r"
  using bitmap_find_first_least [of 10 "[15]"] by (simp del: bitmap_find_first_def)

section \<open>Filling\<close>

lemma bitmap_fill_pattern:
  assumes "n \<le> 64 * length b"
  shows "\<exists>b'. bitmap_fill b f n = Done b' \<and> length b' = length b \<and>
    (\<forall>i < 64 * (n div 64). bits b' i = bit f (i mod 8)) \<and>
    (\<forall>i < n. 64 * (n div 64) \<le> i \<longrightarrow> bits b' i)"
proof -
  let ?w = "(n + 64 - 1) div 64"
  have w: "?w \<le> length b" "n div 64 \<le> ?w" using assms by simp_all
  have "0 + ?w * 8 \<le> 8 * length b" using w(1) by linarith
  from memset_words_bits [OF this, of f] obtain b1 where
    b1: "memset_words b 0 f (?w * 8) = Done b1" "length b1 = length b"
    "\<And>i. i div 8 < ?w * 8 \<Longrightarrow> bits b1 i = bit f (i mod 8)"
    by auto
  have whole: "bits b1 i = bit f (i mod 8)" if "i < 64 * (n div 64)" for i
    using that w(2) by (intro b1(3)) (simp add: div_less_iff_less_mult)
  show ?thesis
  proof (cases "n mod 64 = 0")
    case True
    then have "64 * (n div 64) = n" by auto
    with True b1(1,2) whole show ?thesis by (auto simp: bitmap_fill_def Let_def)
  next
    case False
    then have lo: "64 * (n div 64) < n" using mult_div_mod_eq [of 64 n] by linarith
    have hi: "n < 64 * (n div 64) + 64" using mult_div_mod_eq [of 64 n] by simp
    have "?w = n div 64 + 1"
    proof (rule div_nat_eqI)
      show "64 * (n div 64 + 1) \<le> n + 64 - 1" using lo by (simp add: distrib_left)
      show "n + 64 - 1 < 64 * Suc (n div 64 + 1)" using hi by (simp add: distrib_left)
    qed
    with lo have last: "?w - 1 = n div 64" "n div 64 < length b"
      using assms by linarith+
    let ?b = "b1[n div 64 := mask (n mod 64)]"
    have "bitmap_fill b f n = Done ?b"
      using b1(1,2) False last
      unfolding bitmap_fill_def Let_def
      by (simp only: obind.simps if_True awrite_in mask_eq_decr_exp push_bit_of_1 not_False_eq_True)
    moreover have "bits ?b i = bit f (i mod 8)" if "i < 64 * (n div 64)" for i
    proof -
      have "i div 64 \<noteq> n div 64" using that by (simp add: div_less_iff_less_mult)
      then show ?thesis using whole [OF that] by (simp add: bits_def)
    qed
    moreover have "bits ?b i" if "64 * (n div 64) \<le> i" "i < n" for i
    proof -
      have q: "i div 64 = n div 64" using that by (metis div_le_mono div_mult_self1_is_m le_antisym
            less_imp_le zero_less_numeral)
      then have "i mod 64 < n mod 64" using that
        by (metis add_less_cancel_left div_mult_mod_eq)
      then show ?thesis using q last(2) b1(2) by (simp add: bits_def bit_mask_iff)
    qed
    ultimately show ?thesis using b1(2) by auto
  qed
qed

text \<open>
  \<open>bitmap_fill\<close> gives every whole word the fill byte, but when \<open>n\<close> is not a multiple of 64
  it overwrites the last, partial word with ones: the bits from the last word boundary up to
  \<open>n\<close> end up set whatever the fill byte is.
\<close>

theorem bitmap_fill_bits:
  assumes "n \<le> 64 * length b"
  shows "\<exists>b'. bitmap_fill b f n = Done b' \<and> length b' = length b \<and>
    (\<forall>i < 64 * (n div 64). bits b' i = bit f (i mod 8)) \<and>
    (\<forall>i < n. 64 * (n div 64) \<le> i \<longrightarrow> bits b' i)"
  by (rule bitmap_fill_pattern [OF assms])

theorem bitmap_fill_bits_witness:
  "\<exists>b'. bitmap_fill [0] 0 8 = Done b' \<and> bits b' 7"
  using bitmap_fill_bits [of 8 "[0]" 0] by auto

end
