(* ===== verification/Byte_Fifo.thy ===== *)
theory Byte_Fifo
  imports Prelude
begin

text \<open>
  The contract of a bounded byte queue as its clients use it: a write that accepts as much of
  the caller's bytes as there is room for, and a read that copies out as much as there is. The
  client lemma is about every sequence of reads and writes: what has been read, followed by what
  is still queued, is what was queued at first followed by what was accepted.
\<close>

section \<open>Definitions\<close>

datatype fifo_op = Put "u8 list" | Get u64

text \<open>
  Runs a sequence of operations; the result holds the bytes accepted, the bytes delivered and
  the final state. A read is made into a fresh buffer of the requested size.
\<close>

fun fifo_run ::
  "('s \<Rightarrow> u8 list \<Rightarrow> u64 \<Rightarrow> (u64 \<times> 's) outcome) \<Rightarrow>
   ('s \<Rightarrow> u8 list \<Rightarrow> u64 \<Rightarrow> (u64 \<times> u8 list \<times> 's) outcome) \<Rightarrow>
   's \<Rightarrow> fifo_op list \<Rightarrow> (u8 list \<times> u8 list \<times> 's) outcome" where
  "fifo_run wr rd s [] = Done ([], [], s)"
| "fifo_run wr rd s (Put xs # ops) =
     obind (wr s xs (word_of_nat (length xs))) (\<lambda>(w, s1).
     obind (fifo_run wr rd s1 ops) (\<lambda>(ws, rs, s2).
       Done (take (unat w) xs @ ws, rs, s2)))"
| "fifo_run wr rd s (Get c # ops) =
     obind (rd s (replicate (unat c) 0) c) (\<lambda>(r, dst, s1).
     obind (fifo_run wr rd s1 ops) (\<lambda>(ws, rs, s2).
       Done (ws, take (unat r) dst @ rs, s2)))"

section \<open>The contract\<close>

locale byte_fifo =
  fixes wr :: "'s \<Rightarrow> u8 list \<Rightarrow> u64 \<Rightarrow> (u64 \<times> 's) outcome"
    and rd :: "'s \<Rightarrow> u8 list \<Rightarrow> u64 \<Rightarrow> (u64 \<times> u8 list \<times> 's) outcome"
    and inv :: "'s \<Rightarrow> bool"
    and contents :: "'s \<Rightarrow> u8 list"
    and capacity :: "'s \<Rightarrow> nat"
  assumes wr_law:
      "inv s \<Longrightarrow> unat c \<le> length src \<Longrightarrow>
       \<exists>w s'. wr s src c = Done (w, s') \<and> inv s' \<and> capacity s' = capacity s \<and>
         unat w = min (unat c) (capacity s - length (contents s)) \<and>
         contents s' = contents s @ take (unat w) src"
    and rd_law:
      "inv s \<Longrightarrow> unat c \<le> length dst \<Longrightarrow>
       \<exists>w s'. rd s dst c = Done (w, take (unat w) (contents s) @ drop (unat w) dst, s') \<and>
         inv s' \<and> capacity s' = capacity s \<and> unat w = min (unat c) (length (contents s)) \<and>
         contents s' = drop (unat w) (contents s)"
    and bounded: "inv s \<Longrightarrow> length (contents s) \<le> capacity s"
begin

lemma stream:
  "inv s \<Longrightarrow> \<exists>ws rs s'. fifo_run wr rd s ops = Done (ws, rs, s') \<and> inv s' \<and>
     capacity s' = capacity s \<and> contents s @ ws = rs @ contents s'"
proof (induction ops arbitrary: s)
  case Nil
  then show ?case by simp
next
  case (Cons op ops)
  show ?case
  proof (cases op)
    case (Put xs)
    have "unat (word_of_nat (length xs) :: u64) \<le> length xs"
      by (simp add: unat_of_nat)
    from wr_law [OF Cons.prems this] obtain w s1 where
      w: "wr s xs (word_of_nat (length xs)) = Done (w, s1)" "inv s1" "capacity s1 = capacity s"
        "contents s1 = contents s @ take (unat w) xs" by blast
    from Cons.IH [OF w(2)] obtain ws rs s' where
      "fifo_run wr rd s1 ops = Done (ws, rs, s')" "inv s'" "capacity s' = capacity s1"
      "contents s1 @ ws = rs @ contents s'" by blast
    with w Put show ?thesis by simp
  next
    case (Get c)
    have "unat c \<le> length (replicate (unat c) (0 :: u8))" by simp
    from rd_law [OF Cons.prems this] obtain w s1 where
      w: "rd s (replicate (unat c) 0) c =
           Done (w, take (unat w) (contents s) @ drop (unat w) (replicate (unat c) 0), s1)"
        "inv s1" "capacity s1 = capacity s" "unat w = min (unat c) (length (contents s))"
        "contents s1 = drop (unat w) (contents s)" by blast
    from Cons.IH [OF w(2)] obtain ws rs s' where r:
      "fifo_run wr rd s1 ops = Done (ws, rs, s')" "inv s'" "capacity s' = capacity s1"
      "contents s1 @ ws = rs @ contents s'" by blast
    have "take (unat w) (contents s) @ contents s1 = contents s" using w by simp
    then have "contents s @ ws = take (unat w) (contents s) @ rs @ contents s'"
      using r(4) by (metis append.assoc)
    with w r Get show ?thesis by simp
  qed
qed

text \<open>Whatever was accepted can be drained: a read of the whole queue empties it.\<close>

lemma drain:
  assumes "inv s" "length (contents s) \<le> unat c" "unat c \<le> length dst"
  shows "\<exists>w s'. rd s dst c = Done (w, contents s @ drop (length (contents s)) dst, s') \<and>
    unat w = length (contents s) \<and> contents s' = []"
  using rd_law [OF assms(1,3)] assms(2) by (auto simp: min_def split: if_splits)

end

end
