(* ===== verification/Ringbuffer.thy ===== *)
theory Ringbuffer
  imports Byte_Fifo
begin

text \<open>
  The non-blocking byte ring of \<^verbatim>\<open>src/libkstructures/ringbuffer/ringbuffer.c\<close>, which carries the
  data of pipes, UDP, TCP and UNIX sockets. The two counters are C \<^verbatim>\<open>int\<close>s (32 bits, two's
  complement) that only ever grow and wrap; sizes are \<^verbatim>\<open>size_t\<close>. The theory shows that for a
  buffer size that divides \<open>2 ^ 32\<close> the ring is a bounded first-in first-out queue across every
  wrap of the counters, and that for other sizes (TCP uses 65535) it is not.
\<close>

section \<open>Definitions\<close>

record ringbuffer =
  rb_head :: u32
  rb_tail :: u32
  rb_size :: u64
  rb_buf :: "u8 list"

definition ringbuffer_create :: "u64 \<Rightarrow> u8 list \<Rightarrow> ringbuffer" where
  \<comment> \<open>\<open>mem\<close> is the block that \<^verbatim>\<open>malloc(size)\<close> returned\<close>
  "ringbuffer_create sz mem = \<lparr>rb_head = 0, rb_tail = 0, rb_size = sz, rb_buf = mem\<rparr>"

definition ringbuffer_write :: "ringbuffer \<Rightarrow> u8 list \<Rightarrow> u64 \<Rightarrow> (u64 \<times> ringbuffer) outcome" where
  "ringbuffer_write rb buffer count0 =
     (let avail = rb_size rb - scast (rb_tail rb - rb_head rb) in
      if avail = 0 then Done (0, rb)
      else if rb_size rb = 0 then Fault
      else
        let count = (if count0 > avail then avail else count0);
            offset = scast (rb_tail rb) mod rb_size rb;
            l1 = (if rb_size rb - offset > count then count else rb_size rb - offset)
        in obind (memcpy (rb_buf rb) (unat offset) buffer 0 (unat l1)) (\<lambda>buf1.
           if l1 = count
           then Done (count, rb\<lparr>rb_tail := ucast (scast (rb_tail rb) + count), rb_buf := buf1\<rparr>)
           else obind (memcpy buf1 0 buffer (unat l1) (unat (count - l1))) (\<lambda>buf2.
                Done (count, rb\<lparr>rb_tail := ucast (scast (rb_tail rb) + count), rb_buf := buf2\<rparr>))))"

text \<open>
  \<open>ringbuffer_peek\<close> and \<open>ringbuffer_read\<close> return the caller's buffer \<open>dst\<close> after the copies.
  A remainder by a zero size is a fault, as for every other operation.
\<close>

definition ringbuffer_peek :: "ringbuffer \<Rightarrow> u8 list \<Rightarrow> u64 \<Rightarrow> (u64 \<times> u8 list) outcome" where
  "ringbuffer_peek rb dst count0 =
     (let avail = scast (rb_tail rb - rb_head rb) :: u64 in
      if avail = 0 then Done (0, dst)
      else if rb_size rb = 0 then Fault
      else
        let count = (if count0 > avail then avail else count0);
            off = scast (rb_head rb) mod rb_size rb;
            l1 = (if rb_size rb - off > count then count else rb_size rb - off)
        in obind (memcpy dst 0 (rb_buf rb) (unat off) (unat l1)) (\<lambda>dst1.
           if l1 = count then Done (count, dst1)
           else obind (memcpy dst1 (unat l1) (rb_buf rb) 0 (unat (count - l1))) (\<lambda>dst2.
                Done (count, dst2))))"

definition ringbuffer_discard :: "ringbuffer \<Rightarrow> u64 \<Rightarrow> (u64 \<times> ringbuffer) outcome" where
  "ringbuffer_discard rb count0 =
     (let avail = scast (rb_tail rb - rb_head rb) :: u64 in
      if avail = 0 then Done (0, rb)
      else if rb_size rb = 0 then Fault
      else
        let count = (if count0 > avail then avail else count0);
            off = scast (rb_head rb) mod rb_size rb;
            l1 = (if rb_size rb - off > count then count else rb_size rb - off)
        in if l1 = count then Done (count, rb\<lparr>rb_head := ucast (scast (rb_head rb) + count)\<rparr>)
           else Done (count, rb\<lparr>rb_head := ucast (scast (rb_head rb) + count)\<rparr>))"

definition ringbuffer_read :: "ringbuffer \<Rightarrow> u8 list \<Rightarrow> u64 \<Rightarrow> (u64 \<times> u8 list \<times> ringbuffer) outcome" where
  "ringbuffer_read rb dst count0 =
     (let avail = scast (rb_tail rb - rb_head rb) :: u64 in
      if avail = 0 then Done (0, dst, rb)
      else if rb_size rb = 0 then Fault
      else
        let count = (if count0 > avail then avail else count0);
            off = scast (rb_head rb) mod rb_size rb;
            l1 = (if rb_size rb - off > count then count else rb_size rb - off)
        in obind (memcpy dst 0 (rb_buf rb) (unat off) (unat l1)) (\<lambda>dst1.
           if l1 = count
           then Done (count, dst1, rb\<lparr>rb_head := ucast (scast (rb_head rb) + count)\<rparr>)
           else obind (memcpy dst1 (unat l1) (rb_buf rb) 0 (unat (count - l1))) (\<lambda>dst2.
                Done (count, dst2, rb\<lparr>rb_head := ucast (scast (rb_head rb) + count)\<rparr>))))"

definition ringbuffer_remaining_read :: "ringbuffer \<Rightarrow> u64" where
  "ringbuffer_remaining_read rb = scast (rb_tail rb - rb_head rb)"

definition ringbuffer_remaining_write :: "ringbuffer \<Rightarrow> u64" where
  "ringbuffer_remaining_write rb = rb_size rb - scast (rb_tail rb - rb_head rb)"

section \<open>Invariant and contents\<close>

definition rb_used :: "ringbuffer \<Rightarrow> nat" where
  "rb_used rb = unat (rb_tail rb - rb_head rb)"

definition rb_inv :: "ringbuffer \<Rightarrow> bool" where
  "rb_inv rb \<longleftrightarrow> length (rb_buf rb) = unat (rb_size rb) \<and> unat (rb_size rb) dvd 2 ^ 32 \<and>
     unat (rb_size rb) < 2 ^ 31 \<and> rb_used rb \<le> unat (rb_size rb)"

definition rb_contents :: "ringbuffer \<Rightarrow> u8 list" where
  "rb_contents rb =
     map (\<lambda>k. rb_buf rb ! ((unat (rb_head rb) + k) mod unat (rb_size rb))) [0..<rb_used rb]"

lemma length_rb_contents [simp]: "length (rb_contents rb) = rb_used rb"
  by (simp add: rb_contents_def)

lemma nth_rb_contents:
  "i < rb_used rb \<Longrightarrow>
   rb_contents rb ! i = rb_buf rb ! ((unat (rb_head rb) + i) mod unat (rb_size rb))"
  by (simp add: rb_contents_def)

text \<open>Facts on the conversions between the 32-bit counters and the 64-bit sizes.\<close>

lemma sint_cases:
  "sint (x :: u32) = (if uint x < 2 ^ 31 then uint x else uint x - 2 ^ 32)"
proof -
  have lt: "uint x < 2 ^ 32" using uint_lt2p [of x] by simp
  have "uint x div 2 ^ 31 = 1" if "2 ^ 31 \<le> uint x"
    using lt that by (intro int_div_pos_eq [where r = "uint x - 2 ^ 31"]) auto
  then have b: "bit (uint x) 31 \<longleftrightarrow> 2 ^ 31 \<le> uint x"
    by (cases "2 ^ 31 \<le> uint x") (auto simp: bit_iff_odd div_pos_pos_trivial not_le)
  have "sint x = take_bit 32 (uint x) - 2 ^ 32 * of_bool (bit (uint x) 31)"
    by (simp add: sint_uint signed_take_bit_eq_take_bit_minus)
  also have "take_bit 32 (uint x) = uint x" using lt by (simp add: take_bit_int_eq_self)
  finally show ?thesis using b by simp
qed

lemma uint_scast:
  "uint (scast (x :: u32) :: u64) = (if uint x < 2 ^ 31 then uint x else uint x + (2 ^ 64 - 2 ^ 32))"
proof -
  have lt: "uint x < 2 ^ 32" using uint_lt2p [of x] by simp
  have w: "uint (scast x :: u64) = sint x mod 2 ^ 64"
    unfolding scast_eq uint_word_of_int by simp
  show ?thesis
  proof (cases "uint x < 2 ^ 31")
    case True
    with w show ?thesis by (simp add: sint_cases)
  next
    case False
    have "(uint x - 2 ^ 32) mod 2 ^ 64 = (uint x - 2 ^ 32 + 2 ^ 64) mod (2 ^ 64 :: int)"
      by (rule mod_add_self2 [symmetric])
    also have "\<dots> = uint x + (2 ^ 64 - 2 ^ 32)"
      using lt by (subst mod_pos_pos_trivial) auto
    finally show ?thesis using False w by (simp add: sint_cases)
  qed
qed

lemma unat_scast_small: "unat (x :: u32) < 2 ^ 31 \<Longrightarrow> unat (scast x :: u64) = unat x"
proof -
  assume x: "unat x < 2 ^ 31"
  then have "int (unat x) < 2 ^ 31" by (metis of_nat_less_iff of_nat_numeral of_nat_power)
  then have "uint x < 2 ^ 31" by simp
  then have "uint (scast x :: u64) = uint x" by (simp add: uint_scast)
  then show ?thesis by (metis nat_uint_eq)
qed

lemma unat_scast_mod:
  assumes "n dvd 2 ^ 32"
  shows "unat (scast (x :: u32) :: u64) mod n = unat x mod n"
proof -
  have "unat (scast x :: u64) = unat x \<or> unat (scast x :: u64) = unat x + (2 ^ 64 - 2 ^ 32)"
  proof (cases "uint x < 2 ^ 31")
    case True
    then have "uint (scast x :: u64) = uint x" by (simp add: uint_scast)
    then show ?thesis by (metis nat_uint_eq)
  next
    case False
    then have "nat (uint (scast x :: u64)) = nat (uint x + (2 ^ 64 - 2 ^ 32))"
      by (simp add: uint_scast)
    also have "\<dots> = nat (uint x) + (2 ^ 64 - 2 ^ 32)"
      by (subst nat_add_distrib) simp_all
    finally show ?thesis by simp
  qed
  moreover have "n dvd 2 ^ 64 - 2 ^ 32"
  proof -
    have "(2::nat) ^ 64 - 2 ^ 32 = 2 ^ 32 * (2 ^ 32 - 1)" by simp
    with assms show ?thesis by (metis dvd_mult2)
  qed
  ultimately show ?thesis
    by (auto simp only: dvd_add_mod)
qed

lemma ucast_add_64_32: "(ucast (u + c :: u64) :: u32) = ucast u + ucast c"
proof -
  have "take_bit 32 (take_bit 64 a + take_bit 64 b) = take_bit 32 (a + b)" for a b :: int
  proof -
    have "take_bit 32 (take_bit 64 a + take_bit 64 b) =
        take_bit 32 (take_bit 32 (take_bit 64 a) + take_bit 32 (take_bit 64 b))"
      by (rule take_bit_add [symmetric])
    also have "\<dots> = take_bit 32 (a + b)" by (simp add: take_bit_add)
    finally show ?thesis .
  qed
  then show ?thesis by transfer simp
qed

lemma ucast_scast_id: "(ucast (scast (x :: u32) :: u64) :: u32) = x"
  by transfer (simp add: take_bit_signed_take_bit)

lemma ucast_scast_add: "ucast (scast (x :: u32) + c :: u64) = x + ucast c"
  by (simp add: ucast_add_64_32 ucast_scast_id)

text \<open>The two block copies of a ring access at position \<open>p\<close>, in closed form.\<close>

lemma ring_put:
  fixes n p c :: nat
  assumes "length buf = n" "p < n" "c \<le> n" "c \<le> length src"
    and l1: "l1 = min (n - p) c"
  obtains b1 b2 where "memcpy buf p src 0 l1 = Done b1"
    and "memcpy b1 0 src l1 (c - l1) = Done b2"
    and "l1 = c \<Longrightarrow> b2 = b1" and "length b2 = n"
    and "\<And>k. k < n \<Longrightarrow> b2 ! ((p + k) mod n) = (if k < c then src ! k else buf ! ((p + k) mod n))"
proof -
  have pl: "p + l1 \<le> n" "l1 \<le> c" using assms by auto
  obtain b1 where m1: "memcpy buf p src 0 l1 = Done b1"
    using assms pl by (simp add: memcpy_in)
  have len: "length b1 = n" using length_memcpy [OF m1] assms by simp
  obtain b2 where m2: "memcpy b1 0 src l1 (c - l1) = Done b2"
    using assms pl len by (simp add: memcpy_in)
  have b1: "b1 ! j = (if p \<le> j \<and> j < p + l1 then src ! (j - p) else buf ! j)" if "j < n" for j
    using nth_memcpy [OF m1, of j] assms(1) that by simp
  have b2: "b2 ! j = (if j < c - l1 then src ! (l1 + j) else b1 ! j)" if "j < n" for j
    using nth_memcpy [OF m2, of j] len that by simp
  have "b2 ! ((p + k) mod n) = (if k < c then src ! k else buf ! ((p + k) mod n))"
    if k: "k < n" for k
  proof (cases "p + k < n")
    case True
    have "c - l1 \<le> p + k" using assms(2,3) l1 True by linarith
    moreover have "k < c \<longleftrightarrow> k < l1" using assms(2,3) l1 True by (simp add: less_diff_conv)
    ultimately show ?thesis using True by (simp add: b1 b2)
  next
    case False
    then have e: "(p + k) mod n = p + k - n" using assms k by (simp add: mod_if)
    have "p + k - n < n \<and> p + k - n < p" using assms(2,3) k False by linarith
    moreover have "p + k - n < c - l1 \<longleftrightarrow> k < c"
      using assms(2,3) l1 k False by (auto simp: min_def)
    moreover have "l1 + (p + k - n) = k" if "k < c"
      using assms(2,3) l1 k False that by (auto simp: min_def)
    ultimately show ?thesis using e by (simp add: b1 b2)
  qed
  moreover have "length b2 = n" using length_memcpy [OF m2] len by simp
  moreover have "b2 = b1" if "l1 = c" using m2 len that by (auto simp: memcpy_def split: if_splits)
  ultimately show ?thesis using m1 m2 by (intro that)
qed

lemma ring_get:
  fixes n p c :: nat
  assumes "length buf = n" "p < n" "c \<le> n" "c \<le> length dst"
    and l1: "l1 = min (n - p) c"
  obtains d1 d2 where "memcpy dst 0 buf p l1 = Done d1"
    and "memcpy d1 l1 buf 0 (c - l1) = Done d2"
    and "l1 = c \<Longrightarrow> d2 = d1"
    and "d2 = map (\<lambda>k. buf ! ((p + k) mod n)) [0..<c] @ drop c dst"
proof -
  define d1 where "d1 = take l1 (drop p buf) @ drop l1 dst"
  define d2 where "d2 = take l1 (drop p buf) @ take (c - l1) buf @ drop c dst"
  have pl: "p + l1 \<le> n" "l1 \<le> c" using assms by auto
  have m1: "memcpy dst 0 buf p l1 = Done d1"
    using assms pl by (simp add: memcpy_in d1_def)
  have m2: "memcpy d1 l1 buf 0 (c - l1) = Done d2"
    using assms pl by (subst memcpy_in) (auto simp: d1_def d2_def)
  have "take l1 (drop p buf) @ take (c - l1) buf = map (\<lambda>k. buf ! ((p + k) mod n)) [0..<c]"
  proof (rule nth_equalityI)
    show "length (take l1 (drop p buf) @ take (c - l1) buf) =
        length (map (\<lambda>k. buf ! ((p + k) mod n)) [0..<c])"
      using assms pl by auto
  next
    fix i assume "i < length (take l1 (drop p buf) @ take (c - l1) buf)"
    then have i: "i < c" using assms pl by auto
    have "(p + i) mod n = (if i < l1 then p + i else i - l1)"
      using assms i by (auto simp: mod_if min_def)
    then show "(take l1 (drop p buf) @ take (c - l1) buf) ! i =
        map (\<lambda>k. buf ! ((p + k) mod n)) [0..<c] ! i"
      using assms pl i by (auto simp: nth_append)
  qed
  then have "d2 = map (\<lambda>k. buf ! ((p + k) mod n)) [0..<c] @ drop c dst"
    by (simp add: d2_def flip: append_assoc)
  moreover have "d2 = d1" if "l1 = c" using that by (simp add: d1_def d2_def)
  ultimately show ?thesis using m1 m2 by (intro that)
qed

section \<open>Behaviour of the operations\<close>

lemma unat_add_mod_size:
  assumes "n dvd 2 ^ 32"
  shows "unat (x + y :: u32) mod n = (unat x + unat y) mod n"
proof -
  have "unat (x + y) = (unat x + unat y) mod 2 ^ 32" by (simp add: unat_word_ariths)
  then show ?thesis using assms by (simp add: mod_mod_cancel)
qed

lemma unat_count: "unat (if a > b then b else a :: u64) = min (unat a) (unat b)"
  by (simp add: min_def word_less_nat_alt)

lemma rb_inv_facts:
  assumes "rb_inv rb"
  shows "unat (scast (rb_tail rb - rb_head rb) :: u64) = rb_used rb"
    and "unat (rb_size rb - scast (rb_tail rb - rb_head rb)) = unat (rb_size rb) - rb_used rb"
    and "unat (rb_tail rb) mod unat (rb_size rb) = (unat (rb_head rb) + rb_used rb) mod unat (rb_size rb)"
    and "unat (scast (rb_tail rb) mod rb_size rb) = unat (rb_tail rb) mod unat (rb_size rb)"
    and "unat (scast (rb_head rb) mod rb_size rb) = unat (rb_head rb) mod unat (rb_size rb)"
proof -
  show u: "unat (scast (rb_tail rb - rb_head rb) :: u64) = rb_used rb"
    using assms unfolding rb_inv_def by (subst unat_scast_small) (auto simp: rb_used_def)
  then show "unat (rb_size rb - scast (rb_tail rb - rb_head rb)) = unat (rb_size rb) - rb_used rb"
    using assms unfolding rb_inv_def by (subst unat_sub) (auto simp: word_le_nat_alt)
  have d: "unat (rb_size rb) dvd 2 ^ 32" using assms by (simp add: rb_inv_def)
  show "unat (rb_tail rb) mod unat (rb_size rb) = (unat (rb_head rb) + rb_used rb) mod unat (rb_size rb)"
    using unat_add_mod_size [OF d, of "rb_head rb" "rb_tail rb - rb_head rb"]
    by (simp add: rb_used_def)
  show "unat (scast (rb_tail rb) mod rb_size rb) = unat (rb_tail rb) mod unat (rb_size rb)"
    "unat (scast (rb_head rb) mod rb_size rb) = unat (rb_head rb) mod unat (rb_size rb)"
    by (simp_all add: unat_mod_distrib unat_scast_mod [OF d])
qed

lemma unat_ucast_small: "unat (c :: u64) < 2 ^ 32 \<Longrightarrow> unat (ucast c :: u32) = unat c"
  by (simp add: unsigned_ucast_eq take_bit_nat_eq_self)

lemma unat_add_small:
  "unat (x :: u32) + unat y < 2 ^ 32 \<Longrightarrow> unat (x + y) = unat x + unat y"
  by (simp add: unat_word_ariths)

lemma rb_grow:
  fixes c :: u64
  assumes "rb_inv rb" "rb_used rb + unat c \<le> unat (rb_size rb)" "length b = length (rb_buf rb)"
    and rb': "rb' = rb\<lparr>rb_tail := ucast (scast (rb_tail rb) + c), rb_buf := b\<rparr>"
  shows "rb_inv rb'" and "rb_used rb' = rb_used rb + unat c"
proof -
  have lt: "rb_used rb + unat c < 2 ^ 32"
    using assms(1,2) by (simp add: rb_inv_def)
  have "rb_tail rb' - rb_head rb' = (rb_tail rb - rb_head rb) + ucast c"
    by (simp add: rb' ucast_scast_add)
  then show u: "rb_used rb' = rb_used rb + unat c"
    using lt by (simp add: rb_used_def unat_add_small unat_ucast_small)
  with assms show "rb_inv rb'" by (simp add: rb_inv_def)
qed

lemma rb_shrink:
  fixes c :: u64
  assumes "rb_inv rb" "unat c \<le> rb_used rb"
    and rb': "rb' = rb\<lparr>rb_head := ucast (scast (rb_head rb) + c)\<rparr>"
  shows "rb_inv rb'" and "rb_used rb' = rb_used rb - unat c"
    and "rb_contents rb' = drop (unat c) (rb_contents rb)"
proof -
  have d: "unat (rb_size rb) dvd 2 ^ 32" using assms(1) by (simp add: rb_inv_def)
  have lt: "unat c < 2 ^ 32" using assms(1,2) by (simp add: rb_inv_def)
  have le: "(ucast c :: u32) \<le> rb_tail rb - rb_head rb"
    using assms(2) lt by (simp add: word_le_nat_alt unat_ucast_small rb_used_def)
  have "rb_tail rb' - rb_head rb' = (rb_tail rb - rb_head rb) - ucast c"
    by (simp add: rb' ucast_scast_add)
  then show u: "rb_used rb' = rb_used rb - unat c"
    using le lt by (simp add: rb_used_def unat_sub unat_ucast_small)
  with assms show "rb_inv rb'" by (auto simp: rb_inv_def)
  have "(unat (rb_head rb') + k) mod unat (rb_size rb) = (unat (rb_head rb) + (unat c + k)) mod unat (rb_size rb)"
    for k
  proof -
    have "unat (rb_head rb') mod unat (rb_size rb) = (unat (rb_head rb) + unat c) mod unat (rb_size rb)"
      using unat_add_mod_size [OF d, of "rb_head rb" "ucast c"] lt
      by (simp add: rb' ucast_scast_add unat_ucast_small)
    then show ?thesis by (metis add.assoc mod_add_cong)
  qed
  moreover have "rb_buf rb' = rb_buf rb" "rb_size rb' = rb_size rb" by (simp_all add: rb')
  ultimately show "rb_contents rb' = drop (unat c) (rb_contents rb)"
    by (intro nth_equalityI) (simp_all add: u nth_rb_contents)
qed

lemma rb_contents_grow:
  fixes c :: u64
  assumes inv: "rb_inv rb" and c: "rb_used rb + unat c \<le> unat (rb_size rb)" "unat c \<le> length src"
    and n: "n = unat (rb_size rb)" "length b = n" and p: "p = (unat (rb_head rb) + rb_used rb) mod n"
    and nth: "\<And>k. k < n \<Longrightarrow>
      b ! ((p + k) mod n) = (if k < unat c then src ! k else rb_buf rb ! ((p + k) mod n))"
    and rb': "rb' = rb\<lparr>rb_tail := ucast (scast (rb_tail rb) + c), rb_buf := b\<rparr>"
  shows "rb_contents rb' = rb_contents rb @ take (unat c) src"
proof -
  have u: "rb_used rb' = rb_used rb + unat c"
    using rb_grow(2) [OF inv c(1) _ rb'] n inv by (simp add: rb_inv_def)
  show ?thesis
  proof (rule nth_equalityI)
    show "length (rb_contents rb') = length (rb_contents rb @ take (unat c) src)"
      using c by (simp add: u)
  next
    fix i assume "i < length (rb_contents rb')"
    then have i: "i < rb_used rb + unat c" by (simp add: u)
    have l: "rb_contents rb' ! i = b ! ((unat (rb_head rb) + i) mod n)"
      using i by (simp add: rb_contents_def u) (simp add: rb' n)
    show "rb_contents rb' ! i = (rb_contents rb @ take (unat c) src) ! i"
    proof (cases "i < rb_used rb")
      case True
      define k where "k = n - rb_used rb + i"
      have k: "k < n" "\<not> k < unat c" using True c n by (auto simp: k_def)
      have "unat (rb_head rb) + rb_used rb + k = unat (rb_head rb) + i + n"
        using c n True by (simp add: k_def)
      then have "(p + k) mod n = (unat (rb_head rb) + i + n) mod n"
        by (metis p mod_add_left_eq)
      with nth [OF k(1)] k(2) l True show ?thesis
        by (simp add: nth_append) (simp add: rb_contents_def n)
    next
      case False
      define k where "k = i - rb_used rb"
      have k: "k < n" "k < unat c" using False i c n by (auto simp: k_def)
      have "unat (rb_head rb) + rb_used rb + k = unat (rb_head rb) + i"
        using False by (simp add: k_def)
      then have "(p + k) mod n = (unat (rb_head rb) + i) mod n"
        by (metis p mod_add_left_eq)
      with nth [OF k(1)] k(2) l False c show ?thesis
        by (simp add: nth_append k_def)
    qed
  qed
qed

lemma ringbuffer_write_spec:
  assumes inv: "rb_inv rb" and len: "unat count \<le> length src"
  shows "\<exists>w rb'. ringbuffer_write rb src count = Done (w, rb') \<and> rb_inv rb' \<and>
    rb_size rb' = rb_size rb \<and>
    unat w = min (unat count) (unat (rb_size rb) - length (rb_contents rb)) \<and>
    rb_contents rb' = rb_contents rb @ take (unat w) src"
proof -
  define n where "n = unat (rb_size rb)"
  define av where "av = rb_size rb - scast (rb_tail rb - rb_head rb)"
  have av: "unat av = n - rb_used rb" using rb_inv_facts(2) [OF inv] by (simp add: av_def n_def)
  show ?thesis
  proof (cases "av = 0")
    case True
    with av inv show ?thesis by (simp add: ringbuffer_write_def av_def n_def)
  next
    case False
    define w where "w = (if count > av then av else count)"
    define off where "off = scast (rb_tail rb) mod rb_size rb"
    define l1 where "l1 = (if rb_size rb - off > w then w else rb_size rb - off)"
    have "0 < unat av" using False by (simp add: unat_gt_0)
    then have n: "rb_used rb < n" using av by simp
    then have z: "rb_size rb \<noteq> 0" by (auto simp: n_def)
    have off: "unat off = (unat (rb_head rb) + rb_used rb) mod n"
      using rb_inv_facts(3,4) [OF inv] by (simp add: off_def n_def)
    have w: "unat w = min (unat count) (n - rb_used rb)"
      using av by (simp add: w_def unat_count)
    have p: "unat off < n" using off n by simp
    have so: "unat (rb_size rb - off) = n - unat off"
      using p by (subst unat_sub) (simp_all add: word_le_nat_alt n_def)
    have l1: "unat l1 = min (n - unat off) (unat w)"
      by (simp add: l1_def unat_count so)
    have le: "l1 \<le> w" by (simp add: word_le_nat_alt l1)
    have "length (rb_buf rb) = n" "unat w \<le> n" "unat w \<le> length src"
      using inv len w by (auto simp: rb_inv_def n_def)
    from ring_put [OF this(1) p this(2,3) l1] obtain b1 b2 where
      m: "memcpy (rb_buf rb) (unat off) src 0 (unat l1) = Done b1"
        "memcpy b1 0 src (unat l1) (unat w - unat l1) = Done b2"
        "unat l1 = unat w \<Longrightarrow> b2 = b1" "length b2 = n"
      and nth: "\<And>k. k < n \<Longrightarrow> b2 ! ((unat off + k) mod n) =
          (if k < unat w then src ! k else rb_buf rb ! ((unat off + k) mod n))" by blast
    define rb' where "rb' = rb\<lparr>rb_tail := ucast (scast (rb_tail rb) + w), rb_buf := b2\<rparr>"
    have run: "ringbuffer_write rb src count = Done (w, rb')"
      using m False z le
      by (auto simp: ringbuffer_write_def Let_def rb'_def unat_sub
          simp flip: av_def w_def off_def l1_def)
    have "rb_used rb + unat w \<le> unat (rb_size rb)" using w n by (simp add: n_def)
    with rb_grow(1) [OF inv this _ rb'_def] rb_contents_grow [OF inv this _ n_def m(4) off nth rb'_def]
    have "rb_inv rb'" "rb_contents rb' = rb_contents rb @ take (unat w) src"
      using m(4) inv len w by (auto simp: rb_inv_def n_def)
    with run w show ?thesis by (intro exI [of _ w] exI [of _ rb']) (simp add: n_def, simp add: rb'_def)
  qed
qed

lemma ringbuffer_peek_spec:
  assumes inv: "rb_inv rb" and len: "unat count \<le> length dst"
  shows "\<exists>w. ringbuffer_peek rb dst count =
      Done (w, take (unat w) (rb_contents rb) @ drop (unat w) dst) \<and>
    unat w = min (unat count) (length (rb_contents rb))"
proof -
  define n where "n = unat (rb_size rb)"
  define av where "av = (scast (rb_tail rb - rb_head rb) :: u64)"
  have av: "unat av = rb_used rb" using rb_inv_facts(1) [OF inv] by (simp add: av_def)
  show ?thesis
  proof (cases "av = 0")
    case True
    with av show ?thesis by (simp add: ringbuffer_peek_def av_def rb_contents_def)
  next
    case False
    define w where "w = (if count > av then av else count)"
    define off where "off = scast (rb_head rb) mod rb_size rb"
    define l1 where "l1 = (if rb_size rb - off > w then w else rb_size rb - off)"
    have "0 < unat av" using False by (simp add: unat_gt_0)
    then have n: "0 < n" "rb_used rb \<le> n" "length (rb_buf rb) = n"
      using av inv by (auto simp: rb_inv_def n_def)
    then have z: "rb_size rb \<noteq> 0" by (auto simp: n_def)
    have off: "unat off = unat (rb_head rb) mod n"
      using rb_inv_facts(5) [OF inv] by (simp add: off_def n_def)
    have w: "unat w = min (unat count) (rb_used rb)"
      using av by (simp add: w_def unat_count)
    have p: "unat off < n" using off n by simp
    have so: "unat (rb_size rb - off) = n - unat off"
      using p by (subst unat_sub) (simp_all add: word_le_nat_alt n_def)
    have l1: "unat l1 = min (n - unat off) (unat w)"
      by (simp add: l1_def unat_count so)
    have le: "l1 \<le> w" by (simp add: word_le_nat_alt l1)
    have "unat w \<le> n" "unat w \<le> length dst" using n len w by auto
    from ring_get [OF n(3) p this l1] obtain d1 d2 where
      m: "memcpy dst 0 (rb_buf rb) (unat off) (unat l1) = Done d1"
        "memcpy d1 (unat l1) (rb_buf rb) 0 (unat w - unat l1) = Done d2"
        "unat l1 = unat w \<Longrightarrow> d2 = d1"
      and d2: "d2 = map (\<lambda>k. rb_buf rb ! ((unat off + k) mod n)) [0..<unat w] @ drop (unat w) dst"
      by blast
    have "ringbuffer_peek rb dst count = Done (w, d2)"
      using m False z le
      by (auto simp: ringbuffer_peek_def Let_def unat_sub
          simp flip: av_def w_def off_def l1_def)
    moreover have "d2 = take (unat w) (rb_contents rb) @ drop (unat w) dst"
      using w by (simp add: d2 rb_contents_def take_map off mod_add_left_eq n_def min_def)
    ultimately show ?thesis using w by simp
  qed
qed

lemma ringbuffer_discard_spec:
  assumes inv: "rb_inv rb"
  shows "\<exists>w rb'. ringbuffer_discard rb count = Done (w, rb') \<and> rb_inv rb' \<and>
    rb_size rb' = rb_size rb \<and> unat w = min (unat count) (length (rb_contents rb)) \<and>
    rb_contents rb' = drop (unat w) (rb_contents rb)"
proof -
  define av where "av = (scast (rb_tail rb - rb_head rb) :: u64)"
  have av: "unat av = rb_used rb" using rb_inv_facts(1) [OF inv] by (simp add: av_def)
  show ?thesis
  proof (cases "av = 0")
    case True
    with av inv show ?thesis by (simp add: ringbuffer_discard_def av_def rb_contents_def)
  next
    case False
    define w where "w = (if count > av then av else count)"
    define rb' where "rb' = rb\<lparr>rb_head := ucast (scast (rb_head rb) + w)\<rparr>"
    have "0 < unat av" using False by (simp add: unat_gt_0)
    then have z: "rb_size rb \<noteq> 0" using av inv by (auto simp: rb_inv_def)
    have w: "unat w = min (unat count) (rb_used rb)"
      using av by (simp add: w_def unat_count)
    have "ringbuffer_discard rb count = Done (w, rb')"
      using False z by (auto simp: ringbuffer_discard_def Let_def rb'_def simp flip: av_def w_def)
    with rb_shrink [OF inv _ rb'_def] w show ?thesis
      by (intro exI [of _ w] exI [of _ rb']) (simp, simp add: rb'_def)
  qed
qed

text \<open>A read is a peek followed by discarding what was copied.\<close>

lemma ringbuffer_read_peek_discard:
  "ringbuffer_read rb dst count =
     obind (ringbuffer_peek rb dst count) (\<lambda>(w, dst').
     obind (ringbuffer_discard rb count) (\<lambda>(_, rb'). Done (w, dst', rb')))"
  by (auto simp: ringbuffer_read_def ringbuffer_peek_def ringbuffer_discard_def Let_def obind_assoc
      intro!: obind_cong)

lemma ringbuffer_read_spec:
  assumes inv: "rb_inv rb" and len: "unat count \<le> length dst"
  shows "\<exists>w rb'. ringbuffer_read rb dst count =
      Done (w, take (unat w) (rb_contents rb) @ drop (unat w) dst, rb') \<and> rb_inv rb' \<and>
    rb_size rb' = rb_size rb \<and> unat w = min (unat count) (length (rb_contents rb)) \<and>
    rb_contents rb' = drop (unat w) (rb_contents rb)"
proof -
  from ringbuffer_peek_spec [OF assms] obtain w where
    p: "ringbuffer_peek rb dst count = Done (w, take (unat w) (rb_contents rb) @ drop (unat w) dst)"
      "unat w = min (unat count) (length (rb_contents rb))" by blast
  from ringbuffer_discard_spec [OF inv, of count] obtain w' rb' where
    d: "ringbuffer_discard rb count = Done (w', rb')" "rb_inv rb'" "rb_size rb' = rb_size rb"
      "unat w' = min (unat count) (length (rb_contents rb))"
      "rb_contents rb' = drop (unat w') (rb_contents rb)" by blast
  from p d show ?thesis by (simp add: ringbuffer_read_peek_discard)
qed

interpretation ring: byte_fifo ringbuffer_write ringbuffer_read rb_inv rb_contents
    "\<lambda>rb. unat (rb_size rb)"
proof
  fix s and c :: u64 and src :: "u8 list"
  assume "rb_inv s" "unat c \<le> length src"
  from ringbuffer_write_spec [OF this]
  show "\<exists>w s'. ringbuffer_write s src c = Done (w, s') \<and> rb_inv s' \<and>
      unat (rb_size s') = unat (rb_size s) \<and>
      unat w = min (unat c) (unat (rb_size s) - length (rb_contents s)) \<and>
      rb_contents s' = rb_contents s @ take (unat w) src" by fastforce
next
  fix s and c :: u64 and dst :: "u8 list"
  assume "rb_inv s" "unat c \<le> length dst"
  from ringbuffer_read_spec [OF this]
  show "\<exists>w s'. ringbuffer_read s dst c =
        Done (w, take (unat w) (rb_contents s) @ drop (unat w) dst, s') \<and>
      rb_inv s' \<and> unat (rb_size s') = unat (rb_size s) \<and>
      unat w = min (unat c) (length (rb_contents s)) \<and>
      rb_contents s' = drop (unat w) (rb_contents s)" by fastforce
next
  fix s assume "rb_inv s"
  then show "length (rb_contents s) \<le> unat (rb_size s)" by (simp add: rb_inv_def)
qed

section \<open>Properties\<close>

text \<open>
  C12. Whatever sequence of reads and writes of any sizes is made on a ring whose size divides
  \<open>2 ^ 32\<close>, from any values of the two counters, no operation leaves the buffer, and the bytes
  delivered followed by the bytes still held are the bytes held at first followed by the bytes
  accepted: nothing is lost, repeated or reordered, also when the counters wrap.
\<close>

theorem ringbuffer_stream:
  assumes "rb_inv rb"
  shows "\<exists>ws rs rb'. fifo_run ringbuffer_write ringbuffer_read rb ops = Done (ws, rs, rb') \<and>
    rb_inv rb' \<and> rb_size rb' = rb_size rb \<and> rb_contents rb @ ws = rs @ rb_contents rb'"
  using ring.stream [OF assms, of ops] by (simp add: word_unat_eq_iff)

theorem ringbuffer_stream_witness:
  "\<exists>ws rs rb'. fifo_run ringbuffer_write ringbuffer_read
      \<lparr>rb_head = 0xFFFFFFFE, rb_tail = 1, rb_size = 4, rb_buf = [7, 8, 9, 10]\<rparr>
      [Put [1, 2, 3], Get 3, Put [4, 5, 6], Get 4] = Done (ws, rs, rb') \<and>
    rb_inv rb' \<and> rb_size rb' = 4 \<and> [9, 10, 7] @ ws = rs @ rb_contents rb'"
  using ringbuffer_stream
    [of "\<lparr>rb_head = 0xFFFFFFFE, rb_tail = 1, rb_size = 4, rb_buf = [7, 8, 9, 10]\<rparr>"
        "[Put [1, 2, 3], Get 3, Put [4, 5, 6], Get 4]"]
  by (simp add: rb_inv_def rb_contents_def rb_used_def upt_rec)

text \<open>
  A write accepts as many bytes as \<open>ringbuffer_remaining_write\<close> reports room for, returns
  that number, and appends exactly those bytes; it returns 0 exactly when nothing was asked for
  or the ring is full.
\<close>

theorem ringbuffer_write_appends:
  assumes "rb_inv rb" "unat count \<le> length src"
  shows "\<exists>rb'. ringbuffer_write rb src count =
      Done (min count (ringbuffer_remaining_write rb), rb') \<and> rb_inv rb' \<and>
    rb_contents rb' = rb_contents rb @ take (unat (min count (ringbuffer_remaining_write rb))) src \<and>
    unat (ringbuffer_remaining_write rb) = unat (rb_size rb) - length (rb_contents rb)"
proof -
  have r: "unat (ringbuffer_remaining_write rb) = unat (rb_size rb) - length (rb_contents rb)"
    using rb_inv_facts(2) [OF assms(1)] by (simp add: ringbuffer_remaining_write_def)
  from ringbuffer_write_spec [OF assms] obtain w rb' where
    w: "ringbuffer_write rb src count = Done (w, rb')" "rb_inv rb'"
      "unat w = min (unat count) (unat (ringbuffer_remaining_write rb))"
      "rb_contents rb' = rb_contents rb @ take (unat w) src" using r by auto
  have "w = min count (ringbuffer_remaining_write rb)"
    using w(3) by (simp add: word_unat_eq_iff min_def word_le_nat_alt)
  with w r show ?thesis by auto
qed

theorem ringbuffer_write_appends_witness:
  "\<exists>rb'. ringbuffer_write \<lparr>rb_head = 1, rb_tail = 3, rb_size = 4, rb_buf = [7, 8, 9, 10]\<rparr>
      [1, 2, 3] 3 = Done (2, rb') \<and> rb_inv rb' \<and> rb_contents rb' = [8, 9, 1, 2]"
  using ringbuffer_write_appends
    [of "\<lparr>rb_head = 1, rb_tail = 3, rb_size = 4, rb_buf = [7, 8, 9, 10]\<rparr>" 3 "[1, 2, 3]"]
  by (simp add: rb_inv_def rb_contents_def rb_used_def upt_rec ringbuffer_remaining_write_def)

text \<open>
  A read copies out the oldest bytes, as many as were asked for or are there, leaves the
  rest of the caller's buffer as it was and removes exactly those bytes; a peek with the same
  arguments returns the same count and buffer; \<open>ringbuffer_remaining_read\<close> is the number of
  bytes held.
\<close>

theorem ringbuffer_read_takes:
  assumes "rb_inv rb" "unat count \<le> length dst"
  shows "\<exists>rb' dst'. ringbuffer_read rb dst count =
      Done (min count (ringbuffer_remaining_read rb), dst', rb') \<and>
    ringbuffer_peek rb dst count = Done (min count (ringbuffer_remaining_read rb), dst') \<and>
    (let k = unat (min count (ringbuffer_remaining_read rb)) in
      dst' = take k (rb_contents rb) @ drop k dst \<and> rb_contents rb' = drop k (rb_contents rb)) \<and>
    rb_inv rb' \<and> unat (ringbuffer_remaining_read rb) = length (rb_contents rb)"
proof -
  have r: "unat (ringbuffer_remaining_read rb) = length (rb_contents rb)"
    using rb_inv_facts(1) [OF assms(1)] by (simp add: ringbuffer_remaining_read_def)
  have e: "w = min count (ringbuffer_remaining_read rb)"
    if "unat w = min (unat count) (length (rb_contents rb))" for w
    using that r by (simp add: word_unat_eq_iff min_def word_le_nat_alt)
  from ringbuffer_read_spec [OF assms] obtain w rb' where
    w: "ringbuffer_read rb dst count =
        Done (w, take (unat w) (rb_contents rb) @ drop (unat w) dst, rb')" "rb_inv rb'"
      "unat w = min (unat count) (length (rb_contents rb))"
      "rb_contents rb' = drop (unat w) (rb_contents rb)" by blast
  from ringbuffer_peek_spec [OF assms] obtain v where
    v: "ringbuffer_peek rb dst count = Done (v, take (unat v) (rb_contents rb) @ drop (unat v) dst)"
      "unat v = min (unat count) (length (rb_contents rb))" by blast
  from w v r show ?thesis unfolding e [OF w(3)] e [OF v(2)] by (auto simp: Let_def)
qed

theorem ringbuffer_read_takes_witness:
  "\<exists>rb'. ringbuffer_read \<lparr>rb_head = 3, rb_tail = 6, rb_size = 4, rb_buf = [7, 8, 9, 10]\<rparr>
      [0, 0, 0] 2 = Done (2, [10, 7, 0], rb') \<and> rb_inv rb' \<and> rb_contents rb' = [8]"
proof -
  let ?R = "\<lparr>rb_head = 3, rb_tail = 6, rb_size = 4, rb_buf = [7, 8, 9, 10]\<rparr>"
  have "rb_inv ?R" "rb_contents ?R = [10, 7, 8]" "ringbuffer_remaining_read ?R = 3"
    by (simp_all add: rb_inv_def rb_contents_def rb_used_def upt_rec ringbuffer_remaining_read_def)
  then show ?thesis using ringbuffer_read_takes [of ?R 2 "[0, 0, 0]"] by (auto simp: Let_def)
qed


end
