(* ===== verification/Descriptor_Table.thy ===== *)
theory Descriptor_Table
  imports Prelude
begin

text \<open>
  The contract of a descriptor table as the system calls use it: an open takes the lowest free
  number, a close frees the number it is given. The specification is a function from numbers to
  files; the client lemma says that any sequence of opens and closes gives the results of the
  specification.
\<close>

section \<open>Definitions\<close>

datatype 'f table_op = Open 'f | Close nat

definition lowest_free :: "nat \<Rightarrow> (nat \<Rightarrow> 'f option) \<Rightarrow> nat" where
  "lowest_free limit v = length (takeWhile (\<lambda>j. v j \<noteq> None) [0..<limit])"

fun spec_run :: "nat \<Rightarrow> (nat \<Rightarrow> 'f option) \<Rightarrow> 'f table_op list \<Rightarrow> (errno + nat) list \<times> (nat \<Rightarrow> 'f option)" where
  "spec_run limit v [] = ([], v)"
| "spec_run limit v (Open f # ops) =
     (let k = lowest_free limit v in
      if k < limit then (case spec_run limit (v(k \<mapsto> f)) ops of (rs, v') \<Rightarrow> (Inr k # rs, v'))
      else (case spec_run limit v ops of (rs, v') \<Rightarrow> (Inl EMFILE # rs, v')))"
| "spec_run limit v (Close fd # ops) =
     (case v fd of
        None \<Rightarrow> (case spec_run limit v ops of (rs, v') \<Rightarrow> (Inl EBADF # rs, v'))
      | Some f \<Rightarrow> (case spec_run limit (v(fd := None)) ops of (rs, v') \<Rightarrow> (Inr 0 # rs, v')))"

text \<open>The same sequence on an implementation; a close that succeeds returns 0.\<close>

fun table_run ::
  "('f \<Rightarrow> 'w \<Rightarrow> ((errno + nat) \<times> 'w) outcome) \<Rightarrow> (int \<Rightarrow> 'w \<Rightarrow> (errno option \<times> 'w) outcome) \<Rightarrow>
   'w \<Rightarrow> 'f table_op list \<Rightarrow> ((errno + nat) list \<times> 'w) outcome" where
  "table_run add remove w [] = Done ([], w)"
| "table_run add remove w (Open f # ops) =
     obind (add f w) (\<lambda>(r, w1).
     obind (table_run add remove w1 ops) (\<lambda>(rs, w2). Done (r # rs, w2)))"
| "table_run add remove w (Close fd # ops) =
     obind (remove (int fd) w) (\<lambda>(r, w1).
     obind (table_run add remove w1 ops) (\<lambda>(rs, w2).
       Done ((case r of None \<Rightarrow> Inr 0 | Some e \<Rightarrow> Inl e) # rs, w2)))"

lemma lowest_free_eqI:
  assumes "k \<le> limit" "\<And>j. j < k \<Longrightarrow> v j \<noteq> None" "k < limit \<Longrightarrow> v k = None"
  shows "lowest_free limit v = k"
proof -
  have "[0..<limit] = [0..<k] @ [k..<limit]" using assms(1) upt_add_eq_append [of 0 k "limit - k"] by simp
  then have "takeWhile (\<lambda>j. v j \<noteq> None) [0..<limit] = [0..<k] @ takeWhile (\<lambda>j. v j \<noteq> None) [k..<limit]"
    by (simp only:) (rule takeWhile_append2, simp add: assms(2) del: not_None_eq)
  moreover have "takeWhile (\<lambda>j. v j \<noteq> None) [k..<limit] = []"
    using assms(1,3) by (cases "k < limit") (simp_all add: upt_conv_Cons)
  ultimately show ?thesis by (simp add: lowest_free_def)
qed

section \<open>The contract\<close>

locale descriptor_table =
  fixes add :: "'f \<Rightarrow> 'w \<Rightarrow> ((errno + nat) \<times> 'w) outcome"
    and remove :: "int \<Rightarrow> 'w \<Rightarrow> (errno option \<times> 'w) outcome"
    and inv :: "'w \<Rightarrow> bool"
    and view :: "'w \<Rightarrow> nat \<Rightarrow> 'f option"
    and limit :: nat
  assumes add_ok: "inv w \<Longrightarrow> lowest_free limit (view w) < limit \<Longrightarrow>
      \<exists>w'. add f w = Done (Inr (lowest_free limit (view w)), w') \<and> inv w' \<and>
        view w' = (view w)(lowest_free limit (view w) \<mapsto> f)"
    and add_full: "inv w \<Longrightarrow> \<not> lowest_free limit (view w) < limit \<Longrightarrow>
      \<exists>w'. add f w = Done (Inl EMFILE, w') \<and> inv w' \<and> view w' = view w"
    and remove_ok: "inv w \<Longrightarrow> view w fd = Some f \<Longrightarrow>
      \<exists>w'. remove (int fd) w = Done (None, w') \<and> inv w' \<and> view w' = (view w)(fd := None)"
    and remove_bad: "inv w \<Longrightarrow> view w fd = None \<Longrightarrow> remove (int fd) w = Done (Some EBADF, w)"
begin

lemma run_refines:
  "inv w \<Longrightarrow> \<exists>rs w'. table_run add remove w ops = Done (rs, w') \<and> inv w' \<and>
     spec_run limit (view w) ops = (rs, view w')"
proof (induction ops arbitrary: w)
  case Nil
  then show ?case by simp
next
  case (Cons op ops)
  show ?case
  proof (cases op)
    case (Open f)
    show ?thesis
    proof (cases "lowest_free limit (view w) < limit")
      case True
      from add_ok [OF Cons.prems this, of f] obtain w1 where
        w1: "add f w = Done (Inr (lowest_free limit (view w)), w1)" "inv w1"
          "view w1 = (view w)(lowest_free limit (view w) \<mapsto> f)" by blast
      from Cons.IH [OF w1(2)] obtain rs w' where
        "table_run add remove w1 ops = Done (rs, w')" "inv w'"
        "spec_run limit (view w1) ops = (rs, view w')" by blast
      with w1 True Open show ?thesis by simp
    next
      case False
      from add_full [OF Cons.prems this, of f] obtain w1 where
        w1: "add f w = Done (Inl EMFILE, w1)" "inv w1" "view w1 = view w" by blast
      from Cons.IH [OF w1(2)] obtain rs w' where
        "table_run add remove w1 ops = Done (rs, w')" "inv w'"
        "spec_run limit (view w1) ops = (rs, view w')" by blast
      with w1 False Open show ?thesis by simp
    qed
  next
    case (Close fd)
    show ?thesis
    proof (cases "view w fd")
      case None
      from Cons.IH [OF Cons.prems] obtain rs w' where
        "table_run add remove w ops = Done (rs, w')" "inv w'"
        "spec_run limit (view w) ops = (rs, view w')" by blast
      with remove_bad [OF Cons.prems None] None Close show ?thesis by simp
    next
      case (Some f)
      from remove_ok [OF Cons.prems this] obtain w1 where
        w1: "remove (int fd) w = Done (None, w1)" "inv w1" "view w1 = (view w)(fd := None)" by blast
      from Cons.IH [OF w1(2)] obtain rs w' where
        "table_run add remove w1 ops = Done (rs, w')" "inv w'"
        "spec_run limit (view w1) ops = (rs, view w')" by blast
      with w1 Some Close show ?thesis by simp
    qed
  qed
qed

text \<open>A number closed while every lower number is open is the next one handed out.\<close>

lemma close_open_reuses:
  assumes "inv w" "view w fd = Some g" "fd < limit" "\<And>j. j < fd \<Longrightarrow> view w j \<noteq> None"
  shows "\<exists>w'. table_run add remove w [Close fd, Open f] = Done ([Inr 0, Inr fd], w') \<and>
    view w' = (view w)(fd \<mapsto> f)"
proof -
  from remove_ok [OF assms(1,2)] obtain w1 where
    w1: "remove (int fd) w = Done (None, w1)" "inv w1" "view w1 = (view w)(fd := None)" by blast
  have k: "lowest_free limit (view w1) = fd"
    by (rule lowest_free_eqI) (use assms w1 in auto)
  from add_ok [OF w1(2), of f] k assms(3) obtain w2 where
    "add f w1 = Done (Inr fd, w2)" "view w2 = (view w1)(fd \<mapsto> f)" by auto
  with w1 show ?thesis by simp
qed

end

end
