(* ===== verification/Fd.thy ===== *)
theory Fd
  imports Bitmap Descriptor_Table
begin

text \<open>
  The file descriptor table of a process, \<^verbatim>\<open>src/hexahedron/task/fd.c\<close>, with the loop of
  \<^verbatim>\<open>src/hexahedron/task/process.c\<close> that closes the close-on-exec descriptors. Each operation runs
  under the mutex of the table and is one step. A file is named by its address; its reference
  count and its destruction at zero are part of the state. The theory shows the lowest-free-number
  rule, the effect of every operation on the table and the balance of the references, and where
  the search for a free slot leaves the array.
\<close>

section \<open>Definitions\<close>

type_synonym vfs_file = nat

record fd_table =
  table_size :: nat
  lowest_avl :: nat
  fds :: "vfs_file option list"
  cloexec :: bitmap

text \<open>
  What an operation can see and change: the table of the current process, the reference counts,
  and the files given to \<^verbatim>\<open>vfs_destroyFile\<close> so far.
\<close>

record fd_world =
  tbl :: fd_table
  refs :: "vfs_file \<Rightarrow> int"
  destroyed :: "vfs_file list"

text \<open>
  Heap memory that the code reads without having written it: the word that follows the array of
  slots, and the words of a block that \<^verbatim>\<open>kmalloc\<close> or \<^verbatim>\<open>krealloc\<close> returned.
\<close>

record heap_env =
  past_end :: "vfs_file option"
  fresh_word :: "nat \<Rightarrow> u64"

definition PROCESS_FD_BASE_AMOUNT :: nat where "PROCESS_FD_BASE_AMOUNT = 8"
definition PROCESS_MAX_FDS :: nat where "PROCESS_MAX_FDS = 256"

definition file_hold :: "vfs_file \<Rightarrow> fd_world \<Rightarrow> fd_world" where
  "file_hold f w = w\<lparr>refs := (refs w)(f := refs w f + 1)\<rparr>"

definition file_release :: "vfs_file \<Rightarrow> fd_world \<Rightarrow> fd_world" where
  "file_release f w =
     (let w1 = w\<lparr>refs := (refs w)(f := refs w f - 1)\<rparr>
      in if refs w1 f = 0 then w1\<lparr>destroyed := destroyed w1 @ [f]\<rparr> else w1)"

definition vfs_close :: "vfs_file \<Rightarrow> fd_world \<Rightarrow> fd_world" where
  "vfs_close f w = file_release f w"

text \<open>A read of slot \<open>i\<close>; one past the end is the word behind the array.\<close>

definition slot :: "heap_env \<Rightarrow> fd_table \<Rightarrow> nat \<Rightarrow> vfs_file option outcome" where
  "slot env t i = (if i = length (fds t) then Done (past_end env) else aread (fds t) i)"

definition fd_createTable :: "heap_env \<Rightarrow> nat \<Rightarrow> fd_table outcome" where
  "fd_createTable env fd_count =
     obind (bitmap_fill (map (fresh_word env) [0..<fd_count div 8]) 0 fd_count) (\<lambda>b.
     Done \<lparr>table_size = fd_count, lowest_avl = 0, fds = replicate fd_count None, cloexec = b\<rparr>)"

text \<open>The copying loop of \<open>fd_copyTable\<close>, from slot \<open>i\<close>.\<close>

function copy_slots :: "fd_table \<Rightarrow> nat \<Rightarrow> fd_table \<Rightarrow> fd_world \<Rightarrow> (fd_table \<times> fd_world) outcome" where
  "copy_slots source i target w =
     (if i < table_size source then
        obind (aread (fds source) i) (\<lambda>s.
        case s of
          None \<Rightarrow> copy_slots source (i + 1) target w
        | Some f \<Rightarrow> obind (awrite (fds target) i (Some f)) (\<lambda>fs.
            copy_slots source (i + 1) (target\<lparr>fds := fs\<rparr>) (file_hold f w)))
      else Done (target, w))"
  by pat_completeness auto
termination by (relation "measure (\<lambda>(source, i, target, w). table_size source - i)") auto

text \<open>The table of the child; \<open>parent\<close> is \<open>None\<close> when there is no parent process.\<close>

definition fd_copyTable ::
  "heap_env \<Rightarrow> fd_table option \<Rightarrow> fd_world \<Rightarrow> (fd_table \<times> fd_world) outcome" where
  "fd_copyTable env parent w =
     (case parent of
        None \<Rightarrow> obind (fd_createTable env PROCESS_FD_BASE_AMOUNT) (\<lambda>t. Done (t, w))
      | Some source \<Rightarrow>
          obind (fd_createTable env (table_size source)) (\<lambda>target.
          obind (memcpy (cloexec target) 0 (cloexec source) 0 (table_size source div 8)) (\<lambda>b.
          copy_slots source 0 (target\<lparr>cloexec := b, lowest_avl := lowest_avl source\<rparr>) w)))"

function destroy_slots :: "fd_table \<Rightarrow> nat \<Rightarrow> fd_world \<Rightarrow> fd_world outcome" where
  "destroy_slots t i w =
     (if i < table_size t then
        obind (aread (fds t) i) (\<lambda>s.
        destroy_slots t (i + 1) (case s of None \<Rightarrow> w | Some f \<Rightarrow> vfs_close f w))
      else Done w)"
  by pat_completeness auto
termination by (relation "measure (\<lambda>(t, i, w). table_size t - i)") auto

text \<open>\<open>fd_destroyTable\<close>; the blocks it frees are gone with the table.\<close>

definition fd_destroyTable :: "fd_world \<Rightarrow> fd_world outcome" where
  "fd_destroyTable w = destroy_slots (tbl w) 0 w"

text \<open>The loop of \<open>fd_recalculateFirstFree\<close>; it reads the slot before it tests the bound.\<close>

function recalculate_loop :: "heap_env \<Rightarrow> fd_table \<Rightarrow> (bool \<times> fd_table) outcome" where
  "recalculate_loop env t =
     obind (slot env t (lowest_avl t)) (\<lambda>s.
     if s \<noteq> None then
       (if lowest_avl t \<ge> table_size t then Done (True, t)
        else recalculate_loop env (t\<lparr>lowest_avl := lowest_avl t + 1\<rparr>))
     else Done (False, t))"
  by pat_completeness auto
termination by (relation "measure (\<lambda>(env, t). table_size t - lowest_avl t)") auto

definition fd_recalculateFirstFree :: "heap_env \<Rightarrow> fd_table \<Rightarrow> (bool \<times> fd_table) outcome" where
  "fd_recalculateFirstFree env t =
     (if lowest_avl t \<ge> table_size t then Done (True, t) else recalculate_loop env t)"

definition fd_growTable :: "heap_env \<Rightarrow> fd_table \<Rightarrow> nat \<Rightarrow> (errno option \<times> fd_table) outcome" where
  "fd_growTable env t new_fd_count =
     (if new_fd_count > PROCESS_MAX_FDS then Done (Some EMFILE, t)
      else
        let old_fd_count = table_size t;
            t1 = t\<lparr>fds := take new_fd_count (fds t) @ replicate (new_fd_count - old_fd_count) None,
                  table_size := new_fd_count,
                  cloexec := take (new_fd_count div 8)
                    (cloexec t @ map (fresh_word env) [length (cloexec t)..<new_fd_count div 8])\<rparr>
        in if new_fd_count > old_fd_count then
             obind (bitmap_clear_range (cloexec t1) old_fd_count new_fd_count) (\<lambda>b.
             Done (None, t1\<lparr>cloexec := b\<rparr>))
           else Done (None, t1))"

definition fd_allocateFree :: "heap_env \<Rightarrow> fd_table \<Rightarrow> ((errno + nat) \<times> fd_table) outcome" where
  "fd_allocateFree env t =
     obind (fd_recalculateFirstFree env t) (\<lambda>(full, t1).
     obind (if full then fd_growTable env t1 (table_size t1 + 8) else Done (None, t1)) (\<lambda>(r, t2).
     case r of
       Some e \<Rightarrow> Done (Inl e, t2)
     | None \<Rightarrow>
         obind (fd_recalculateFirstFree env (t2\<lparr>lowest_avl := lowest_avl t2 + 1\<rparr>)) (\<lambda>(_, t3).
         Done (Inr (lowest_avl t2), t3))))"

text \<open>
  The slot a caller's descriptor number names: \<open>None\<close> when the number is not below the size of
  the table or the slot is empty. A negative number passes that test and reads before the array.
\<close>

definition fd_lookup :: "fd_table \<Rightarrow> int \<Rightarrow> vfs_file option outcome" where
  "fd_lookup t fd =
     (if fd \<ge> int (table_size t) then Done None
      else if fd < 0 then Fault
      else aread (fds t) (nat fd))"

definition fd_get :: "int \<Rightarrow> fd_world \<Rightarrow> ((errno + vfs_file) \<times> fd_world) outcome" where
  "fd_get fd_number w =
     obind (fd_lookup (tbl w) fd_number) (\<lambda>s.
     case s of None \<Rightarrow> Done (Inl EBADF, w) | Some f \<Rightarrow> Done (Inr f, file_hold f w))"

definition fd_add :: "heap_env \<Rightarrow> vfs_file \<Rightarrow> fd_world \<Rightarrow> ((errno + nat) \<times> fd_world) outcome" where
  "fd_add env f w =
     obind (fd_allocateFree env (tbl w)) (\<lambda>(r, t).
     case r of
       Inl e \<Rightarrow> Done (Inl e, w\<lparr>tbl := t\<rparr>)
     | Inr fd \<Rightarrow>
         obind (awrite (fds t) fd (Some f)) (\<lambda>fs.
         obind (bitmap_clear (cloexec t) fd) (\<lambda>b.
         Done (Inr fd, w\<lparr>tbl := t\<lparr>fds := fs, cloexec := b\<rparr>\<rparr>))))"

definition fd_remove :: "int \<Rightarrow> fd_world \<Rightarrow> (errno option \<times> fd_world) outcome" where
  "fd_remove fd_number w =
     obind (fd_lookup (tbl w) fd_number) (\<lambda>s.
     case s of
       None \<Rightarrow> Done (Some EBADF, w)
     | Some f \<Rightarrow>
         obind (awrite (fds (tbl w)) (nat fd_number) None) (\<lambda>fs.
         let t = (tbl w)\<lparr>fds := fs\<rparr>;
             t1 = (if nat fd_number < lowest_avl t then t\<lparr>lowest_avl := nat fd_number\<rparr> else t)
         in Done (None, vfs_close f (w\<lparr>tbl := t1\<rparr>))))"

text \<open>The search \<^verbatim>\<open>while (table->fds[newfd] != NULL) newfd++\<close> of \<open>fd_duplicate\<close>.\<close>

function dup_search :: "heap_env \<Rightarrow> fd_table \<Rightarrow> nat \<Rightarrow> nat outcome" where
  "dup_search env t newfd =
     obind (slot env t newfd) (\<lambda>s.
     if s \<noteq> None then dup_search env t (newfd + 1) else Done newfd)"
  by pat_completeness auto
termination
  by (relation "measure (\<lambda>(env, t, newfd). length (fds t) + 1 - newfd)")
    (auto simp: slot_def split: if_splits)

text \<open>The choice of the new descriptor number in \<open>fd_duplicate\<close>.\<close>

definition dup_target ::
  "heap_env \<Rightarrow> fd_table \<Rightarrow> int \<Rightarrow> bool \<Rightarrow> ((errno + nat) \<times> fd_table) outcome" where
  "dup_target env t newfd is_exact =
     (if newfd = -1 then fd_allocateFree env t
      else
        obind (if newfd \<ge> int (table_size t) then fd_growTable env t (nat (newfd + 1))
               else Done (None, t)) (\<lambda>(r, t1).
        case r of
          Some e \<Rightarrow> Done (Inl e, t1)
        | None \<Rightarrow>
            if newfd < 0 then Fault
            else if \<not> is_exact then obind (dup_search env t1 (nat newfd)) (\<lambda>n. Done (Inr n, t1))
            else Done (Inr (nat newfd), t1)))"

definition fd_duplicate ::
  "heap_env \<Rightarrow> int \<Rightarrow> int \<Rightarrow> bool \<Rightarrow> fd_world \<Rightarrow> ((errno + nat) \<times> fd_world) outcome" where
  "fd_duplicate env oldfd newfd is_exact w =
     (if oldfd < 0 then Done (Inl EBADF, w)
      else obind (fd_lookup (tbl w) oldfd) (\<lambda>s.
      if s = None then Done (Inl EBADF, w)
      else if newfd \<noteq> -1 \<and> newfd \<ge> int PROCESS_MAX_FDS then Done (Inl EINVAL, w)
      else obind (dup_target env (tbl w) newfd is_exact) (\<lambda>(r, t).
      case r of
        Inl e \<Rightarrow> Done (Inl e, w\<lparr>tbl := t\<rparr>)
      | Inr n \<Rightarrow>
          obind (bitmap_clear (cloexec t) n) (\<lambda>b.
          obind (aread (fds t) (nat oldfd)) (\<lambda>f.
          obind (slot env t n) (\<lambda>old.
          let w1 = file_hold (the f) (w\<lparr>tbl := t\<lparr>cloexec := b\<rparr>\<rparr>);
              w2 = (case old of None \<Rightarrow> w1 | Some g \<Rightarrow> vfs_close g w1)
          in obind (awrite (fds t) n f) (\<lambda>fs.
             Done (Inr n, w2\<lparr>tbl := (tbl w2)\<lparr>fds := fs\<rparr>\<rparr>))))))))"

definition fd_isCloseExecute :: "int \<Rightarrow> fd_world \<Rightarrow> bool outcome" where
  "fd_isCloseExecute fd w =
     obind (fd_lookup (tbl w) fd) (\<lambda>s.
     if s = None then Done False else bitmap_test (cloexec (tbl w)) (nat fd))"

definition fd_setCloseExecute :: "int \<Rightarrow> bool \<Rightarrow> fd_world \<Rightarrow> (errno option \<times> fd_world) outcome" where
  "fd_setCloseExecute fd state w =
     obind (fd_lookup (tbl w) fd) (\<lambda>s.
     if s = None then Done (Some EBADF, w)
     else obind (if state then bitmap_set (cloexec (tbl w)) (nat fd)
                 else bitmap_clear (cloexec (tbl w)) (nat fd)) (\<lambda>b.
          Done (None, w\<lparr>tbl := (tbl w)\<lparr>cloexec := b\<rparr>\<rparr>)))"

text \<open>The loop over the table when a new image is executed; the table does not change its size.\<close>

function close_on_exec :: "nat \<Rightarrow> nat \<Rightarrow> fd_world \<Rightarrow> fd_world outcome" where
  "close_on_exec n fd w =
     (if fd < n then
        obind (fd_isCloseExecute (int fd) w) (\<lambda>c.
        if c then obind (fd_remove (int fd) w) (\<lambda>(_, w1). close_on_exec n (fd + 1) w1)
        else close_on_exec n (fd + 1) w)
      else Done w)"
  by pat_completeness auto
termination by (relation "measure (\<lambda>(n, fd, w). n - fd)") auto

definition process_closeOnExec :: "fd_world \<Rightarrow> fd_world outcome" where
  "process_closeOnExec w = close_on_exec (table_size (tbl w)) 0 w"

declare copy_slots.simps [simp del] destroy_slots.simps [simp del] recalculate_loop.simps [simp del]
  dup_search.simps [simp del] close_on_exec.simps [simp del]

section \<open>Invariant and view\<close>

definition fd_inv :: "fd_table \<Rightarrow> bool" where
  "fd_inv t \<longleftrightarrow> length (fds t) = table_size t \<and> length (cloexec t) = table_size t div 8 \<and>
     8 \<le> table_size t \<and> table_size t \<le> PROCESS_MAX_FDS \<and> lowest_avl t \<le> table_size t \<and>
     (\<forall>i < lowest_avl t. fds t ! i \<noteq> None)"

text \<open>The open descriptors, as a map from numbers to files.\<close>

definition fd_view :: "fd_table \<Rightarrow> nat \<Rightarrow> vfs_file option" where
  "fd_view t i = (if i < length (fds t) then fds t ! i else None)"

text \<open>The first empty slot from \<open>i\<close> on, or the size of the table.\<close>

definition free_from :: "fd_table \<Rightarrow> nat \<Rightarrow> nat" where
  "free_from t i = i + length (takeWhile (\<lambda>s. s \<noteq> None) (drop i (fds t)))"

lemma cloexec_in_range:
  "fd_inv t \<Longrightarrow> i < table_size t \<Longrightarrow> i < 64 * length (cloexec t)"
  by (auto simp: fd_inv_def)

lemma free_from_le: "i \<le> length (fds t) \<Longrightarrow> free_from t i \<le> length (fds t)"
  using length_takeWhile_le [of "\<lambda>s. s \<noteq> None" "drop i (fds t)"] by (simp add: free_from_def)

lemma free_from_ge: "i \<le> free_from t i"
  by (simp add: free_from_def)

lemma free_from_step:
  "i < length (fds t) \<Longrightarrow>
   free_from t i = (if fds t ! i = None then i else free_from t (Suc i))"
  by (simp add: free_from_def Cons_nth_drop_Suc [symmetric])

lemma free_from_end [simp]: "length (fds t) \<le> i \<Longrightarrow> free_from t i = i"
  by (simp add: free_from_def)

lemma free_from_used: "i \<le> j \<Longrightarrow> j < free_from t i \<Longrightarrow> j < length (fds t) \<Longrightarrow> fds t ! j \<noteq> None"
proof (induction "j - i" arbitrary: i)
  case 0
  then show ?case by (auto simp: free_from_step [of i] split: if_splits)
next
  case (Suc k)
  then have "i < length (fds t)" by simp
  then have "free_from t i = (if fds t ! i = None then i else free_from t (Suc i))"
    by (rule free_from_step)
  with Suc.prems have "j < free_from t (Suc i)" by (auto split: if_splits)
  then show ?case using Suc.hyps(1) [of "Suc i"] Suc.hyps(2) Suc.prems by simp
qed

lemma free_from_free: "i \<le> length (fds t) \<Longrightarrow> free_from t i < length (fds t) \<Longrightarrow> fds t ! free_from t i = None"
proof (induction "length (fds t) - i" arbitrary: i)
  case 0
  then show ?case by simp
next
  case (Suc k)
  then show ?case by (auto simp: free_from_step [of i] split: if_splits)
qed

lemma free_from_eqI:
  assumes "i \<le> j" "j \<le> length (fds t)" "\<And>k. i \<le> k \<Longrightarrow> k < j \<Longrightarrow> fds t ! k \<noteq> None"
    and "j < length (fds t) \<Longrightarrow> fds t ! j = None"
  shows "free_from t i = j"
proof (rule antisym)
  show "free_from t i \<le> j"
  proof (rule ccontr)
    assume "\<not> free_from t i \<le> j"
    then have "j < free_from t i" by simp
    moreover have "free_from t i \<le> length (fds t)" using assms(1,2) by (simp add: free_from_le)
    ultimately show False using free_from_used [OF assms(1), of t] assms(4) by simp
  qed
  show "j \<le> free_from t i"
  proof (rule ccontr)
    assume l: "\<not> j \<le> free_from t i"
    then have "fds t ! free_from t i \<noteq> None" using assms(3) free_from_ge by simp
    moreover have "fds t ! free_from t i = None"
      using l assms(1,2) by (intro free_from_free) auto
    ultimately show False by simp
  qed
qed

lemma free_from_lowest_avl [simp]: "free_from (t\<lparr>lowest_avl := l\<rparr>) i = free_from t i"
  by (simp add: free_from_def)

lemma free_from_hint:
  assumes "fd_inv t"
  shows "free_from t (lowest_avl t) = free_from t 0"
proof (rule sym, rule free_from_eqI)
  have l: "lowest_avl t \<le> length (fds t)" using assms by (simp add: fd_inv_def)
  then show le: "free_from t (lowest_avl t) \<le> length (fds t)" by (rule free_from_le)
  show "fds t ! k \<noteq> None" if "k < free_from t (lowest_avl t)" for k
    using that assms le free_from_used [of "lowest_avl t" k t]
    by (cases "k < lowest_avl t") (auto simp: fd_inv_def)
  show "fds t ! free_from t (lowest_avl t) = None"
    if "free_from t (lowest_avl t) < length (fds t)"
    using l that by (rule free_from_free)
qed simp

section \<open>Finding a free slot\<close>

lemma recalculate_loop_eq:
  assumes "length (fds t) = table_size t" "lowest_avl t \<le> table_size t"
  shows "recalculate_loop env t =
    Done (free_from t (lowest_avl t) = table_size t \<and> past_end env \<noteq> None,
          t\<lparr>lowest_avl := free_from t (lowest_avl t)\<rparr>)"
  using assms
proof (induction env t rule: recalculate_loop.induct)
  case (1 env t)
  show ?case
  proof (cases "lowest_avl t < table_size t")
    case True
    show ?thesis
    proof (cases "fds t ! lowest_avl t")
      case None
      with True "1.prems" show ?thesis
        by (subst recalculate_loop.simps) (simp add: slot_def aread_in free_from_step)
    next
      case (Some f)
      let ?t = "t\<lparr>lowest_avl := lowest_avl t + 1\<rparr>"
      have "slot env t (lowest_avl t) = Done (Some f)"
        using True Some "1.prems" by (simp add: slot_def aread_in)
      then have "recalculate_loop env t = recalculate_loop env ?t"
        using True by (subst recalculate_loop.simps) simp
      also have "\<dots> = Done (free_from ?t (lowest_avl ?t) = table_size ?t \<and> past_end env \<noteq> None,
          ?t\<lparr>lowest_avl := free_from ?t (lowest_avl ?t)\<rparr>)"
        using "1.IH" [of "Some f"] True Some "1.prems" by (simp add: slot_def aread_in)
      also have "free_from ?t (lowest_avl ?t) = free_from t (lowest_avl t)"
        using True Some "1.prems" by (simp add: free_from_step [of "lowest_avl t"])
      finally show ?thesis by simp
    qed
  next
    case False
    with "1.prems" have "lowest_avl t = table_size t" by simp
    with "1.prems" show ?thesis
      by (subst recalculate_loop.simps) (auto simp: slot_def)
  qed
qed

lemma fd_recalculateFirstFree_eq:
  assumes "length (fds t) = table_size t"
  shows "fd_recalculateFirstFree env t =
    Done (free_from t (lowest_avl t) \<ge> table_size t \<and>
           (lowest_avl t \<ge> table_size t \<or> past_end env \<noteq> None),
          t\<lparr>lowest_avl := free_from t (lowest_avl t)\<rparr>)"
proof (cases "lowest_avl t \<ge> table_size t")
  case True
  then show ?thesis using assms by (simp add: fd_recalculateFirstFree_def)
next
  case False
  then have "free_from t (lowest_avl t) \<le> table_size t"
    using free_from_le [of "lowest_avl t" t] assms by simp
  then show ?thesis
    using False assms by (auto simp: fd_recalculateFirstFree_def recalculate_loop_eq)
qed

lemma fd_growTable_ok:
  assumes inv: "fd_inv t" and n: "table_size t < n" "n \<le> PROCESS_MAX_FDS"
  obtains b where "fd_growTable env t n =
      Done (None, t\<lparr>fds := fds t @ replicate (n - table_size t) None, table_size := n, cloexec := b\<rparr>)"
    and "length b = n div 8" and "\<And>i. i < table_size t \<Longrightarrow> bits b i = bits (cloexec t) i"
    and "\<And>i. table_size t \<le> i \<Longrightarrow> i < n \<Longrightarrow> \<not> bits b i"
proof -
  let ?c = "take (n div 8) (cloexec t @ map (fresh_word env) [length (cloexec t)..<n div 8])"
  have le: "length (cloexec t) \<le> n div 8"
    using inv n by (simp add: fd_inv_def div_le_mono)
  then have len: "length ?c = n div 8" by simp
  have "n \<le> 64 * length ?c" using inv n unfolding len by (auto simp: fd_inv_def)
  from bitmap_clear_range_bits [OF this, of "table_size t"] obtain b where
    b: "bitmap_clear_range ?c (table_size t) n = Done b" "length b = length ?c"
    and bits: "\<forall>i. bits b i = (bits ?c i \<and> \<not> (table_size t \<le> i \<and> i < n))" by blast
  have "bits b i = bits (cloexec t) i" if "i < table_size t" for i
  proof -
    have "i div 64 < length (cloexec t)"
      using cloexec_in_range [OF inv that] by (rule word_index_lt)
    with bits that le show ?thesis by (simp add: bits_def nth_append)
  qed
  moreover have "\<not> bits b i" if "table_size t \<le> i" "i < n" for i
    using bits that by simp
  ultimately show ?thesis using b len inv n
    by (intro that [of b]) (simp_all add: fd_growTable_def Let_def fd_inv_def)
qed

text \<open>The hint of the table is exact when it is the first empty slot.\<close>

definition hint_exact :: "fd_table \<Rightarrow> bool" where
  "hint_exact t \<longleftrightarrow> lowest_avl t = free_from t 0"

lemma free_from_installed:
  assumes "free_from t 0 = k" "k < length (fds t)"
  shows "free_from (t\<lparr>fds := (fds t)[k := Some f], cloexec := b\<rparr>) 0 = free_from t (Suc k)"
proof (rule free_from_eqI)
  let ?j = "free_from t (Suc k)"
  show le: "?j \<le> length (fds (t\<lparr>fds := (fds t)[k := Some f], cloexec := b\<rparr>))"
    using assms by (simp add: free_from_le)
  show "fds (t\<lparr>fds := (fds t)[k := Some f], cloexec := b\<rparr>) ! i \<noteq> None" if "i < ?j" for i
    using that le assms free_from_used [of 0 i t] free_from_used [of "Suc k" i t]
    by (cases "i < k") (auto simp: nth_list_update)
  show "fds (t\<lparr>fds := (fds t)[k := Some f], cloexec := b\<rparr>) ! ?j = None"
    if "?j < length (fds (t\<lparr>fds := (fds t)[k := Some f], cloexec := b\<rparr>))"
    using that assms free_from_free [of "Suc k" t] free_from_ge [of "Suc k" t] by simp
qed simp

lemma fd_install:
  assumes t: "length (fds t) = table_size t" "length (cloexec t) = table_size t div 8"
      "8 \<le> table_size t" "table_size t \<le> PROCESS_MAX_FDS"
    and k: "free_from t 0 = k" "k < table_size t" and l: "lowest_avl t = free_from t (Suc k)"
  obtains b where "bitmap_clear (cloexec t) k = Done b"
    and "\<And>i. bits b i = (i \<noteq> k \<and> bits (cloexec t) i)"
    and "fd_inv (t\<lparr>fds := (fds t)[k := Some f], cloexec := b\<rparr>)"
    and "hint_exact (t\<lparr>fds := (fds t)[k := Some f], cloexec := b\<rparr>)"
    and "fd_view (t\<lparr>fds := (fds t)[k := Some f], cloexec := b\<rparr>) = (fd_view t)(k \<mapsto> f)"
proof -
  have "k < 64 * length (cloexec t)" using t k by auto
  then obtain b where b: "bitmap_clear (cloexec t) k = Done b" "length b = length (cloexec t)"
    and bits: "\<And>i. bits b i = (if i = k then False else bits (cloexec t) i)"
    by (rule bitmap_clear_bits) (rule that)
  let ?t = "t\<lparr>fds := (fds t)[k := Some f], cloexec := b\<rparr>"
  have e: "free_from ?t 0 = free_from t (Suc k)"
    using k t by (intro free_from_installed) simp_all
  have "fds ?t ! i \<noteq> None" if "i < free_from ?t 0" for i
    using that free_from_used [of 0 i ?t] free_from_le [of 0 ?t] by simp
  then have "fd_inv ?t"
    using t b k l e free_from_le [of "Suc k" t] unfolding fd_inv_def by simp
  moreover have "hint_exact ?t" using l e by (simp add: hint_exact_def)
  moreover have "fd_view ?t = (fd_view t)(k \<mapsto> f)"
    using k t by (auto simp: fd_view_def fun_eq_iff nth_list_update)
  ultimately show ?thesis using b bits by (intro that [of b]) auto
qed

lemma fd_allocateFree_free:
  assumes "fd_inv t" "free_from t 0 < table_size t"
  shows "fd_allocateFree env t =
    Done (Inr (free_from t 0), t\<lparr>lowest_avl := free_from t (Suc (free_from t 0))\<rparr>)"
  using assms
  by (simp add: fd_allocateFree_def fd_recalculateFirstFree_eq free_from_hint fd_inv_def [THEN iffD1])

lemma fd_allocateFree_grow:
  assumes inv: "fd_inv t" and ff: "free_from t 0 = table_size t"
    and full: "lowest_avl t = table_size t \<or> past_end env \<noteq> None"
    and room: "table_size t + 8 \<le> PROCESS_MAX_FDS"
  obtains b where "fd_allocateFree env t =
      Done (Inr (table_size t), t\<lparr>fds := fds t @ replicate 8 None, table_size := table_size t + 8,
        cloexec := b, lowest_avl := Suc (table_size t)\<rparr>)"
    and "length b = (table_size t + 8) div 8"
    and "\<And>i. i < table_size t \<Longrightarrow> bits b i = bits (cloexec t) i"
proof -
  let ?t = "t\<lparr>lowest_avl := table_size t\<rparr>"
  have len: "length (fds t) = table_size t" using inv by (simp add: fd_inv_def)
  have used: "fds t ! i \<noteq> None" if "i < table_size t" for i
    using free_from_used [of 0 i t] that ff len by simp
  then have inv': "fd_inv ?t" using inv by (simp add: fd_inv_def)
  obtain b where b: "fd_growTable env ?t (table_size t + 8) =
      Done (None, ?t\<lparr>fds := fds ?t @ replicate (table_size t + 8 - table_size ?t) None,
        table_size := table_size t + 8, cloexec := b\<rparr>)" "length b = (table_size t + 8) div 8"
    "\<And>i. i < table_size ?t \<Longrightarrow> bits b i = bits (cloexec ?t) i"
    by (rule fd_growTable_ok [OF inv', of "table_size t + 8" env]) (use room in auto)
  define t2 where "t2 = t\<lparr>fds := fds t @ replicate 8 None, table_size := table_size t + 8,
      cloexec := b, lowest_avl := Suc (table_size t)\<rparr>"
  have "free_from t2 (Suc (table_size t)) = Suc (table_size t)"
    by (rule free_from_eqI) (auto simp: t2_def len nth_append)
  then have r2: "fd_recalculateFirstFree env t2 = Done (False, t2)"
    by (subst fd_recalculateFirstFree_eq) (simp_all add: t2_def len)
  have r1: "fd_recalculateFirstFree env t = Done (True, ?t)"
    using full ff by (auto simp: fd_recalculateFirstFree_eq len free_from_hint [OF inv])
  have "fd_allocateFree env t = Done (Inr (table_size t), t2)"
    using b(1) r1 r2 by (simp add: fd_allocateFree_def t2_def)
  then show ?thesis using b by (intro that [of b]) (simp_all add: t2_def)
qed

section \<open>Adding and removing descriptors\<close>

lemma fd_add_free:
  assumes inv: "fd_inv (tbl w)" and k: "free_from (tbl w) 0 < table_size (tbl w)"
  obtains w' where "fd_add env f w = Done (Inr (free_from (tbl w) 0), w')"
    and "fd_inv (tbl w')" "hint_exact (tbl w')" "table_size (tbl w') = table_size (tbl w)"
    and "fd_view (tbl w') = (fd_view (tbl w))(free_from (tbl w) 0 \<mapsto> f)"
    and "refs w' = refs w" "destroyed w' = destroyed w"
    and "\<And>i. bits (cloexec (tbl w')) i = (i \<noteq> free_from (tbl w) 0 \<and> bits (cloexec (tbl w)) i)"
proof -
  let ?k = "free_from (tbl w) 0"
  let ?t = "(tbl w)\<lparr>lowest_avl := free_from (tbl w) (Suc ?k)\<rparr>"
  have view: "fd_view ?t = fd_view (tbl w)" by (simp add: fd_view_def fun_eq_iff)
  obtain b where b: "bitmap_clear (cloexec ?t) ?k = Done b"
    "\<And>i. bits b i = (i \<noteq> ?k \<and> bits (cloexec ?t) i)"
    "fd_inv (?t\<lparr>fds := (fds ?t)[?k := Some f], cloexec := b\<rparr>)"
    "hint_exact (?t\<lparr>fds := (fds ?t)[?k := Some f], cloexec := b\<rparr>)"
    "fd_view (?t\<lparr>fds := (fds ?t)[?k := Some f], cloexec := b\<rparr>) = (fd_view ?t)(?k \<mapsto> f)"
    by (rule fd_install [of ?t ?k f]) (use inv k in \<open>simp_all add: fd_inv_def\<close>)
  have "fd_add env f w =
      Done (Inr ?k, w\<lparr>tbl := ?t\<lparr>fds := (fds ?t)[?k := Some f], cloexec := b\<rparr>\<rparr>)"
    using b(1) k inv
    by (simp add: fd_add_def fd_allocateFree_free awrite_in fd_inv_def [THEN iffD1])
  then show ?thesis using b view
    by (intro that [of "w\<lparr>tbl := ?t\<lparr>fds := (fds ?t)[?k := Some f], cloexec := b\<rparr>\<rparr>"]) simp_all
qed

lemma fd_add_grow:
  assumes inv: "fd_inv (tbl w)" and ff: "free_from (tbl w) 0 = table_size (tbl w)"
    and full: "lowest_avl (tbl w) = table_size (tbl w) \<or> past_end env \<noteq> None"
    and room: "table_size (tbl w) + 8 \<le> PROCESS_MAX_FDS"
  obtains w' where "fd_add env f w = Done (Inr (table_size (tbl w)), w')"
    and "fd_inv (tbl w')" "hint_exact (tbl w')" "table_size (tbl w') = table_size (tbl w) + 8"
    and "fd_view (tbl w') = (fd_view (tbl w))(table_size (tbl w) \<mapsto> f)"
    and "refs w' = refs w" "destroyed w' = destroyed w"
    and "\<And>i. i < table_size (tbl w) \<Longrightarrow> bits (cloexec (tbl w')) i = bits (cloexec (tbl w)) i"
    and "\<not> bits (cloexec (tbl w')) (table_size (tbl w))"
proof -
  let ?n = "table_size (tbl w)"
  have len: "length (fds (tbl w)) = ?n" using inv by (simp add: fd_inv_def)
  obtain c where c: "fd_allocateFree env (tbl w) =
      Done (Inr ?n, (tbl w)\<lparr>fds := fds (tbl w) @ replicate 8 None, table_size := ?n + 8,
        cloexec := c, lowest_avl := Suc ?n\<rparr>)" "length c = (?n + 8) div 8"
    "\<And>i. i < ?n \<Longrightarrow> bits c i = bits (cloexec (tbl w)) i"
    by (rule fd_allocateFree_grow [OF inv ff full room]) (rule that)
  define t where "t = (tbl w)\<lparr>fds := fds (tbl w) @ replicate 8 None, table_size := ?n + 8,
        cloexec := c, lowest_avl := Suc ?n\<rparr>"
  have used: "fds (tbl w) ! i \<noteq> None" if "i < ?n" for i
    using free_from_used [of 0 i "tbl w"] that ff len by simp
  have f0: "free_from t 0 = ?n"
    by (rule free_from_eqI) (use used in \<open>auto simp: t_def len nth_append\<close>)
  have f1: "free_from t (Suc ?n) = Suc ?n"
    by (rule free_from_eqI) (auto simp: t_def len nth_append)
  have view: "fd_view t = fd_view (tbl w)"
    by (auto simp: t_def fd_view_def fun_eq_iff nth_append)
  obtain b where b: "bitmap_clear (cloexec t) ?n = Done b"
    "\<And>i. bits b i = (i \<noteq> ?n \<and> bits (cloexec t) i)"
    "fd_inv (t\<lparr>fds := (fds t)[?n := Some f], cloexec := b\<rparr>)"
    "hint_exact (t\<lparr>fds := (fds t)[?n := Some f], cloexec := b\<rparr>)"
    "fd_view (t\<lparr>fds := (fds t)[?n := Some f], cloexec := b\<rparr>) = (fd_view t)(?n \<mapsto> f)"
    by (rule fd_install [of t ?n f]) (use inv room f0 f1 c in \<open>simp_all add: t_def fd_inv_def\<close>)
  have "fd_add env f w =
      Done (Inr ?n, w\<lparr>tbl := t\<lparr>fds := (fds t)[?n := Some f], cloexec := b\<rparr>\<rparr>)"
    using b(1) c(1) unfolding t_def [symmetric] by (simp add: fd_add_def awrite_in t_def len)
  then show ?thesis using b c view
    by (intro that [of "w\<lparr>tbl := t\<lparr>fds := (fds t)[?n := Some f], cloexec := b\<rparr>\<rparr>"])
      (simp_all add: t_def)
qed

lemma fd_add_full:
  assumes inv: "fd_inv (tbl w)" and ff: "free_from (tbl w) 0 = table_size (tbl w)"
    and full: "lowest_avl (tbl w) = table_size (tbl w) \<or> past_end env \<noteq> None"
    and room: "PROCESS_MAX_FDS < table_size (tbl w) + 8"
  shows "fd_add env f w = Done (Inl EMFILE, w\<lparr>tbl := (tbl w)\<lparr>lowest_avl := table_size (tbl w)\<rparr>\<rparr>)"
proof -
  have len: "length (fds (tbl w)) = table_size (tbl w)" using inv by (simp add: fd_inv_def)
  show ?thesis using full room ff
    by (auto simp: fd_add_def fd_allocateFree_def fd_recalculateFirstFree_eq len
        free_from_hint [OF inv] fd_growTable_def)
qed

lemma fd_lookup_view:
  "fd_inv t \<Longrightarrow> fd_lookup t (int fd) = Done (fd_view t fd)"
  by (simp add: fd_lookup_def fd_view_def fd_inv_def aread_def)

lemma tbl_vfs_close [simp]: "tbl (vfs_close f w) = tbl w"
  by (simp add: vfs_close_def file_release_def Let_def)

lemma tbl_file_hold [simp]: "tbl (file_hold f w) = tbl w"
  by (simp add: file_hold_def)

lemma refs_vfs_close: "refs (vfs_close f w) = (refs w)(f := refs w f - 1)"
  by (simp add: vfs_close_def file_release_def Let_def)

lemma refs_file_hold: "refs (file_hold f w) = (refs w)(f := refs w f + 1)"
  by (simp add: file_hold_def)

text \<open>The table after \<open>fd_remove\<close> of an open descriptor.\<close>

definition removed :: "nat \<Rightarrow> fd_table \<Rightarrow> fd_table" where
  "removed fd t = t\<lparr>fds := (fds t)[fd := None], lowest_avl := min fd (lowest_avl t)\<rparr>"

lemma fd_remove_eq:
  assumes "fd_inv (tbl w)" "fd_view (tbl w) fd = Some f"
  shows "fd_remove (int fd) w = Done (None, vfs_close f (w\<lparr>tbl := removed fd (tbl w)\<rparr>))"
proof -
  have "fd < length (fds (tbl w))" using assms(2) by (simp add: fd_view_def split: if_splits)
  then show ?thesis using assms
    by (simp add: fd_remove_def fd_lookup_view awrite_in removed_def min_def Let_def)
qed

lemma fd_remove_bad:
  assumes "fd_inv (tbl w)" "fd_view (tbl w) fd = None"
  shows "fd_remove (int fd) w = Done (Some EBADF, w)"
  using assms by (simp add: fd_remove_def fd_lookup_view)

lemma removed_inv:
  assumes "fd_inv t" shows "fd_inv (removed fd t)"
  using assms by (auto simp: fd_inv_def removed_def)

lemma removed_view: "fd_view (removed fd t) = (fd_view t)(fd := None)"
  by (auto simp: removed_def fd_view_def fun_eq_iff nth_list_update)

lemma table_size_removed [simp]: "table_size (removed fd t) = table_size t"
  by (simp add: removed_def)

lemma removed_hint_exact:
  assumes "fd_inv t" "hint_exact t" "fd < table_size t"
  shows "hint_exact (removed fd t)"
proof -
  have "free_from (removed fd t) 0 = min fd (lowest_avl t)"
  proof (rule free_from_eqI)
    show "min fd (lowest_avl t) \<le> length (fds (removed fd t))"
      using assms by (simp add: removed_def fd_inv_def)
    show "fds (removed fd t) ! k \<noteq> None" if "k < min fd (lowest_avl t)" for k
      using that assms by (auto simp: removed_def fd_inv_def)
    show "fds (removed fd t) ! min fd (lowest_avl t) = None"
      if "min fd (lowest_avl t) < length (fds (removed fd t))"
      using that assms free_from_free [of 0 t]
      by (auto simp: removed_def hint_exact_def min_def nth_list_update)
  qed simp
  then show ?thesis by (simp add: hint_exact_def removed_def)
qed

section \<open>The table implements the contract of a descriptor table\<close>

text \<open>
  The tables that opens and closes alone produce: the hint is exact and the size is a multiple
  of 8, so that the table is full only when all \<open>PROCESS_MAX_FDS\<close> numbers are in use.
\<close>

definition fd_regular :: "fd_world \<Rightarrow> bool" where
  "fd_regular w \<longleftrightarrow> fd_inv (tbl w) \<and> hint_exact (tbl w) \<and> 8 dvd table_size (tbl w)"

lemma lowest_free_view:
  assumes "fd_inv t"
  shows "lowest_free PROCESS_MAX_FDS (fd_view t) = free_from t 0"
proof (rule lowest_free_eqI)
  have le: "free_from t 0 \<le> table_size t" using free_from_le [of 0 t] assms by (simp add: fd_inv_def)
  then show "free_from t 0 \<le> PROCESS_MAX_FDS" using assms by (simp add: fd_inv_def)
  show "fd_view t j \<noteq> None" if "j < free_from t 0" for j
    using that le assms free_from_used [of 0 j t] by (simp add: fd_view_def fd_inv_def)
  show "fd_view t (free_from t 0) = None"
    using free_from_free [of 0 t] by (simp add: fd_view_def)
qed

interpretation fdt: descriptor_table "fd_add env" fd_remove fd_regular "\<lambda>w. fd_view (tbl w)" PROCESS_MAX_FDS
  for env
proof
  fix w f assume r: "fd_regular w" and lt: "lowest_free PROCESS_MAX_FDS (fd_view (tbl w)) < PROCESS_MAX_FDS"
  let ?k = "free_from (tbl w) 0"
  have inv: "fd_inv (tbl w)" using r by (simp add: fd_regular_def)
  have k: "lowest_free PROCESS_MAX_FDS (fd_view (tbl w)) = ?k" by (rule lowest_free_view [OF inv])
  have ex: "\<exists>w'. fd_add env f w = Done (Inr ?k, w') \<and> fd_regular w' \<and>
      fd_view (tbl w') = (fd_view (tbl w))(?k \<mapsto> f)"
  proof (cases "?k < table_size (tbl w)")
    case True
    show ?thesis
      by (rule fd_add_free [OF inv True, of env f])
        (use r in \<open>auto simp: fd_regular_def\<close>)
  next
    case False
    then have ff: "?k = table_size (tbl w)"
      using free_from_le [of 0 "tbl w"] inv by (simp add: fd_inv_def)
    have "8 dvd table_size (tbl w)" "table_size (tbl w) < 256"
      using r lt ff k by (auto simp: fd_regular_def PROCESS_MAX_FDS_def)
    then have room: "table_size (tbl w) + 8 \<le> PROCESS_MAX_FDS"
      by (auto simp: PROCESS_MAX_FDS_def elim!: dvdE)
    have hint: "lowest_avl (tbl w) = table_size (tbl w) \<or> past_end env \<noteq> None"
      using r ff by (simp add: fd_regular_def hint_exact_def)
    show ?thesis unfolding ff
      by (rule fd_add_grow [OF inv ff hint room, of f])
        (use r in \<open>auto simp: fd_regular_def\<close>)
  qed
  then show "\<exists>w'. fd_add env f w = Done (Inr (lowest_free PROCESS_MAX_FDS (fd_view (tbl w))), w') \<and>
      fd_regular w' \<and>
      fd_view (tbl w') = (fd_view (tbl w))(lowest_free PROCESS_MAX_FDS (fd_view (tbl w)) \<mapsto> f)"
    by (simp only: k)
next
  fix w f assume r: "fd_regular w" and lt: "\<not> lowest_free PROCESS_MAX_FDS (fd_view (tbl w)) < PROCESS_MAX_FDS"
  have inv: "fd_inv (tbl w)" using r by (simp add: fd_regular_def)
  have ff: "free_from (tbl w) 0 = table_size (tbl w)" "table_size (tbl w) = PROCESS_MAX_FDS"
    using lt free_from_le [of 0 "tbl w"] inv by (auto simp: lowest_free_view [OF inv] fd_inv_def)
  have hint: "lowest_avl (tbl w) = table_size (tbl w)"
    using r ff by (simp add: fd_regular_def hint_exact_def)
  then have e: "w\<lparr>tbl := (tbl w)\<lparr>lowest_avl := table_size (tbl w)\<rparr>\<rparr> = w" by simp
  show "\<exists>w'. fd_add env f w = Done (Inl EMFILE, w') \<and> fd_regular w' \<and> fd_view (tbl w') = fd_view (tbl w)"
    using fd_add_full [OF inv ff(1), of env f, unfolded e] hint ff(2) r by simp
next
  fix w fd f assume r: "fd_regular w" and v: "fd_view (tbl w) fd = Some f"
  then have "fd < table_size (tbl w)" by (auto simp: fd_view_def fd_regular_def fd_inv_def split: if_splits)
  with r v show "\<exists>w'. fd_remove (int fd) w = Done (None, w') \<and> fd_regular w' \<and>
      fd_view (tbl w') = (fd_view (tbl w))(fd := None)"
    by (auto simp: fd_regular_def fd_remove_eq removed_view intro!: removed_inv removed_hint_exact)
next
  fix w fd assume "fd_regular w" "fd_view (tbl w) fd = None"
  then show "fd_remove (int fd) w = Done (Some EBADF, w)"
    by (simp add: fd_regular_def fd_remove_bad)
qed

lemma fd_createTable_regular:
  assumes "8 \<le> n" "n \<le> PROCESS_MAX_FDS" "8 dvd n"
  obtains t where "fd_createTable env n = Done t" "fd_inv t" "hint_exact t" "table_size t = n"
    "fd_view t = (\<lambda>_. None)"
proof -
  have "n \<le> 64 * length (map (fresh_word env) [0..<n div 8])" using assms by auto
  from bitmap_fill_pattern [OF this, of 0] obtain b where
    b: "bitmap_fill (map (fresh_word env) [0..<n div 8]) 0 n = Done b" "length b = n div 8" by auto
  let ?t = "\<lparr>table_size = n, lowest_avl = 0, fds = replicate n None, cloexec = b\<rparr>"
  have "free_from ?t 0 = 0" by (rule free_from_eqI) auto
  with b assms show ?thesis
    by (intro that [of ?t]) (auto simp: fd_createTable_def fd_inv_def hint_exact_def fd_view_def)
qed

section \<open>Duplication\<close>

text \<open>The number of slots that hold a file.\<close>

definition held :: "fd_table \<Rightarrow> vfs_file \<Rightarrow> int" where
  "held t f = int (count_list (fds t) (Some f))"

lemma count_list_update:
  "i < length xs \<Longrightarrow> int (count_list (xs[i := y]) z) =
     int (count_list xs z) - of_bool (xs ! i = z) + of_bool (y = z)"
proof (induction xs arbitrary: i)
  case Nil
  then show ?case by simp
next
  case (Cons x xs)
  then show ?case by (cases i) auto
qed

lemma count_list_replicate_if [simp]: "count_list (replicate n x) y = (if x = y then n else 0)"
  by (induction n) auto

lemma dup_target_exact:
  assumes inv: "fd_inv t" and n: "n < PROCESS_MAX_FDS"
  obtains t' where "dup_target env t (int n) True = Done (Inr n, t')" "fd_inv t'"
    "n < table_size t'" "fd_view t' = fd_view t" "held t' = held t"
    "\<And>i. i < table_size t \<Longrightarrow> bits (cloexec t') i = bits (cloexec t) i"
    "lowest_avl t' = lowest_avl t" "n < table_size t \<Longrightarrow> table_size t' = table_size t"
proof (cases "n < table_size t")
  case True
  with inv show ?thesis by (intro that [of t]) (simp_all add: dup_target_def)
next
  case False
  then have "table_size t < n + 1" "n + 1 \<le> PROCESS_MAX_FDS" using n by simp_all
  then obtain b where b: "fd_growTable env t (n + 1) =
      Done (None, t\<lparr>fds := fds t @ replicate (n + 1 - table_size t) None,
        table_size := n + 1, cloexec := b\<rparr>)" "length b = (n + 1) div 8"
      "\<And>i. i < table_size t \<Longrightarrow> bits b i = bits (cloexec t) i"
    by (rule fd_growTable_ok [OF inv]) (rule that)
  let ?t = "t\<lparr>fds := fds t @ replicate (n + 1 - table_size t) None, table_size := n + 1, cloexec := b\<rparr>"
  have "dup_target env t (int n) True = Done (Inr n, ?t)"
    using False b(1) by (simp add: dup_target_def nat_add_distrib)
  moreover have "fd_inv ?t"
    using inv n False b(2) by (auto simp: fd_inv_def nth_append)
  moreover have "fd_view ?t = fd_view t"
    by (auto simp: fd_view_def fun_eq_iff nth_append)
  moreover have "held ?t = held t" by (simp add: held_def fun_eq_iff)
  ultimately show ?thesis using b(3) False by (intro that [of ?t]) simp_all
qed

lemma held_cloexec [simp]: "held (t\<lparr>cloexec := b\<rparr>) = held t"
  by (simp add: held_def fun_eq_iff)

lemma held_lowest_avl [simp]: "held (t\<lparr>lowest_avl := l\<rparr>) = held t"
  by (simp add: held_def fun_eq_iff)

lemma fd_duplicate_exact:
  assumes inv: "fd_inv (tbl w)" and old: "fd_view (tbl w) oldfd = Some f"
    and n: "newfd < PROCESS_MAX_FDS"
  obtains w' where "fd_duplicate env (int oldfd) (int newfd) True w = Done (Inr newfd, w')"
    and "fd_inv (tbl w')" and "fd_view (tbl w') = (fd_view (tbl w))(newfd \<mapsto> f)"
    and "\<not> bits (cloexec (tbl w')) newfd"
    and "\<And>i. i < table_size (tbl w) \<Longrightarrow> i \<noteq> newfd \<Longrightarrow>
      bits (cloexec (tbl w')) i = bits (cloexec (tbl w)) i"
    and "\<And>g. refs w' g - held (tbl w') g = refs w g - held (tbl w) g"
    and "lowest_avl (tbl w') = lowest_avl (tbl w)"
    and "newfd < table_size (tbl w) \<Longrightarrow> table_size (tbl w') = table_size (tbl w)"
proof -
  obtain t where t: "dup_target env (tbl w) (int newfd) True = Done (Inr newfd, t)" "fd_inv t"
    "newfd < table_size t" "fd_view t = fd_view (tbl w)" "held t = held (tbl w)"
    "\<And>i. i < table_size (tbl w) \<Longrightarrow> bits (cloexec t) i = bits (cloexec (tbl w)) i"
    "lowest_avl t = lowest_avl (tbl w)"
    "newfd < table_size (tbl w) \<Longrightarrow> table_size t = table_size (tbl w)"
    by (rule dup_target_exact [OF inv n]) (rule that)
  have "newfd < 64 * length (cloexec t)" by (rule cloexec_in_range [OF t(2,3)])
  then obtain b where b: "bitmap_clear (cloexec t) newfd = Done b" "length b = length (cloexec t)"
    and bits: "\<And>i. bits b i = (if i = newfd then False else bits (cloexec t) i)"
    by (rule bitmap_clear_bits) (rule that)
  have len: "length (fds t) = table_size t" using t(2) by (simp add: fd_inv_def)
  have o: "oldfd < table_size t" "fds t ! oldfd = Some f"
    using old t(4) [THEN fun_cong, of oldfd] len by (auto simp: fd_view_def split: if_splits)
  have sl: "slot env t newfd = Done (fds t ! newfd)"
    using t(3) len by (simp add: slot_def aread_in)
  define w1 where "w1 = file_hold f (w\<lparr>tbl := t\<lparr>cloexec := b\<rparr>\<rparr>)"
  define w2 where "w2 = (case fds t ! newfd of None \<Rightarrow> w1 | Some g \<Rightarrow> vfs_close g w1)"
  define w' where "w' = w2\<lparr>tbl := t\<lparr>cloexec := b, fds := (fds t)[newfd := Some f]\<rparr>\<rparr>"
  have tw2: "tbl w2 = t\<lparr>cloexec := b\<rparr>" by (simp add: w2_def w1_def split: option.split)
  have "fd_duplicate env (int oldfd) (int newfd) True w =
      Done (Inr newfd, w2\<lparr>tbl := (tbl w2)\<lparr>fds := (fds t)[newfd := Some f]\<rparr>\<rparr>)"
    using old n t(1,3) b(1) o sl len inv
    by (cases "fds t ! newfd")
      (simp_all add: fd_duplicate_def fd_lookup_view aread_in awrite_in Let_def w2_def w1_def)
  then have run: "fd_duplicate env (int oldfd) (int newfd) True w = Done (Inr newfd, w')"
    unfolding tw2 w'_def by simp
  have inv': "fd_inv (tbl w')"
    using t(2) b(2) t(3) by (auto simp: w'_def fd_inv_def nth_list_update)
  have view: "fd_view (tbl w') = (fd_view (tbl w))(newfd \<mapsto> f)"
    using t(3) len unfolding t(4) [symmetric]
    by (auto simp: w'_def fd_view_def fun_eq_iff nth_list_update)
  have "refs w' g - held (tbl w') g = refs w g - held (tbl w) g" for g
    using t(3) len unfolding t(5) [symmetric]
    by (auto simp: w'_def w2_def w1_def held_def count_list_update refs_vfs_close refs_file_hold split: option.split)
  with run inv' view bits t(6-8) show ?thesis
    by (intro that [of w']) (simp_all add: w'_def)
qed

section \<open>Copying, destroying and closing on exec\<close>

lemma copy_slots_eq:
  assumes "length (fds source) = table_size source" "i \<le> table_size source"
    and "fds target = take i (fds source) @ replicate (table_size source - i) None"
  shows "\<exists>w'. copy_slots source i target w = Done (target\<lparr>fds := fds source\<rparr>, w') \<and>
    tbl w' = tbl w \<and> destroyed w' = destroyed w \<and>
    (\<forall>f. refs w' f = refs w f + int (count_list (drop i (fds source)) (Some f)))"
  using assms
proof (induction source i target w rule: copy_slots.induct)
  case (1 source i target w)
  show ?case
  proof (cases "i < table_size source")
    case False
    with "1.prems" have "target\<lparr>fds := fds source\<rparr> = target" by simp
    with False "1.prems" show ?thesis by (subst copy_slots.simps) simp
  next
    case True
    have d: "drop i (fds source) = fds source ! i # drop (Suc i) (fds source)"
      using True "1.prems" by (simp add: Cons_nth_drop_Suc)
    have r: "replicate (table_size source - i) (None :: vfs_file option) = None # replicate (table_size source - Suc i) None"
      using True by (metis Suc_diff_Suc replicate_Suc)
    show ?thesis
    proof (cases "fds source ! i")
      case None
      have "fds target = take (i + 1) (fds source) @ replicate (table_size source - (i + 1)) None"
        using "1.prems" True None r by (simp add: take_Suc_conv_app_nth)
      with "1.IH"(1) [OF True] True None "1.prems" d show ?thesis
        by (subst copy_slots.simps) (simp add: aread_in)
    next
      case (Some f)
      let ?target = "target\<lparr>fds := (fds target)[i := Some f]\<rparr>"
      have "fds ?target = take (i + 1) (fds source) @ replicate (table_size source - (i + 1)) None"
        using "1.prems" True Some r by (simp add: take_Suc_conv_app_nth list_update_append)
      moreover have "copy_slots source i target w = copy_slots source (i + 1) ?target (file_hold f w)"
        using "1.prems" True Some by (subst copy_slots.simps) (simp add: aread_in awrite_in)
      ultimately show ?thesis
        using "1.IH"(2) [OF True _ Some, of "(fds target)[i := Some f]"] True Some "1.prems" d
        by (auto simp: aread_in awrite_in refs_file_hold file_hold_def)
    qed
  qed
qed

lemma fd_copyTable_eq:
  assumes "fd_inv source"
  shows "\<exists>w'. fd_copyTable env (Some source) w = Done (source, w') \<and> tbl w' = tbl w \<and>
    destroyed w' = destroyed w \<and> (\<forall>f. refs w' f = refs w f + held source f)"
proof -
  let ?n = "table_size source"
  have len: "length (fds source) = ?n" "length (cloexec source) = ?n div 8"
    using assms by (simp_all add: fd_inv_def)
  have "?n \<le> 64 * length (map (fresh_word env) [0..<?n div 8])"
    using assms by (auto simp: fd_inv_def)
  from bitmap_fill_pattern [OF this, of 0] obtain b where
    b: "bitmap_fill (map (fresh_word env) [0..<?n div 8]) 0 ?n = Done b" "length b = ?n div 8" by auto
  let ?t = "\<lparr>table_size = ?n, lowest_avl = lowest_avl source, fds = replicate ?n None,
    cloexec = cloexec source\<rparr>"
  have "fd_copyTable env (Some source) w = copy_slots source 0 ?t w"
    using b len by (simp add: fd_copyTable_def fd_createTable_def memcpy_in)
  moreover have e: "?t\<lparr>fds := fds source\<rparr> = source" by simp
  ultimately show ?thesis
    using copy_slots_eq [of source 0 ?t w, unfolded e] len by (simp add: held_def)
qed

lemma destroy_slots_eq:
  assumes "length (fds t) = table_size t"
  shows "\<exists>w'. destroy_slots t i w = Done w' \<and> tbl w' = tbl w \<and>
    (\<forall>f. refs w' f = refs w f - int (count_list (drop i (fds t)) (Some f)))"
  using assms
proof (induction t i w rule: destroy_slots.induct)
  case (1 t i w)
  show ?case
  proof (cases "i < table_size t")
    case False
    with "1.prems" show ?thesis by (subst destroy_slots.simps) simp
  next
    case True
    have d: "drop i (fds t) = fds t ! i # drop (Suc i) (fds t)"
      using True "1.prems" by (simp add: Cons_nth_drop_Suc)
    have "aread (fds t) i = Done (fds t ! i)" using True "1.prems" by (simp add: aread_in)
    from "1.IH" [OF True this "1.prems"] d True "1.prems" show ?thesis
      by (subst destroy_slots.simps)
        (auto simp: aread_in refs_vfs_close split: option.splits)
  qed
qed

text \<open>The view after closing the close-on-exec descriptors from \<open>fd\<close> on.\<close>

lemma close_on_exec_eq:
  assumes "fd_inv (tbl w)" "n = table_size (tbl w)"
  shows "\<exists>w'. close_on_exec n fd w = Done w' \<and> fd_inv (tbl w') \<and>
    fd_view (tbl w') = (\<lambda>i. if fd \<le> i \<and> bits (cloexec (tbl w)) i then None else fd_view (tbl w) i) \<and>
    (\<forall>f. refs w' f - held (tbl w') f = refs w f - held (tbl w) f)"
  using assms
proof (induction n fd w rule: close_on_exec.induct)
  case (1 n fd w)
  have len: "length (fds (tbl w)) = n" using "1.prems" by (simp add: fd_inv_def)
  show ?case
  proof (cases "fd < n")
    case False
    with len have "fd_view (tbl w) i = None" if "fd \<le> i" for i using that by (simp add: fd_view_def)
    with False "1.prems" show ?thesis
      by (subst close_on_exec.simps) (auto simp: fun_eq_iff)
  next
    case True
    have test: "fd_isCloseExecute (int fd) w =
        Done (fd_view (tbl w) fd \<noteq> None \<and> bits (cloexec (tbl w)) fd)"
      using True "1.prems" cloexec_in_range [OF "1.prems"(1), of fd]
      by (simp add: fd_isCloseExecute_def fd_lookup_view bitmap_test_bits)
    show ?thesis
    proof (cases "fd_view (tbl w) fd \<noteq> None \<and> bits (cloexec (tbl w)) fd")
      case False
      have step: "close_on_exec n fd w = close_on_exec n (fd + 1) w"
        using True False test by (subst close_on_exec.simps) auto
      have "\<exists>w'. close_on_exec n (fd + 1) w = Done w' \<and> fd_inv (tbl w') \<and>
          fd_view (tbl w') =
            (\<lambda>i. if fd + 1 \<le> i \<and> bits (cloexec (tbl w)) i then None else fd_view (tbl w) i) \<and>
          (\<forall>f. refs w' f - held (tbl w') f = refs w f - held (tbl w) f)"
        by (rule "1.IH"(2) [OF True test]) (use False "1.prems" in auto)
      moreover have "(\<lambda>i. if fd + 1 \<le> i \<and> bits (cloexec (tbl w)) i then None else fd_view (tbl w) i) =
          (\<lambda>i. if fd \<le> i \<and> bits (cloexec (tbl w)) i then None else fd_view (tbl w) i)"
        using False by (auto simp: fun_eq_iff le_Suc_eq dest: le_antisym not_less_eq_eq [THEN iffD1])
      ultimately show ?thesis unfolding step by simp
    next
      case c: True
      then obtain f where f: "fd_view (tbl w) fd = Some f" by auto
      define w1 where "w1 = vfs_close f (w\<lparr>tbl := removed fd (tbl w)\<rparr>)"
      have rm: "fd_remove (int fd) w = Done (None, w1)"
        using fd_remove_eq [OF "1.prems"(1) f] by (simp add: w1_def)
      have t1: "tbl w1 = removed fd (tbl w)" by (simp add: w1_def)
      have step: "close_on_exec n fd w = close_on_exec n (fd + 1) w1"
        using True c test rm by (subst close_on_exec.simps) simp
      have "\<exists>w'. close_on_exec n (fd + 1) w1 = Done w' \<and> fd_inv (tbl w') \<and>
          fd_view (tbl w') =
            (\<lambda>i. if fd + 1 \<le> i \<and> bits (cloexec (tbl w1)) i then None else fd_view (tbl w1) i) \<and>
          (\<forall>f. refs w' f - held (tbl w') f = refs w1 f - held (tbl w1) f)"
        by (rule "1.IH"(1) [OF True test _ rm])
          (use c "1.prems" in \<open>auto simp: t1 removed_inv\<close>)
      moreover have "(\<lambda>i. if fd + 1 \<le> i \<and> bits (cloexec (tbl w1)) i then None else fd_view (tbl w1) i) =
          (\<lambda>i. if fd \<le> i \<and> bits (cloexec (tbl w)) i then None else fd_view (tbl w) i)"
        using c by (auto simp: fun_eq_iff t1 removed_view) (auto simp: removed_def)
      moreover have "refs w1 g - held (tbl w1) g = refs w g - held (tbl w) g" for g
        using f len True
        by (auto simp: t1 removed_def w1_def refs_vfs_close held_def count_list_update fd_view_def)
      ultimately show ?thesis unfolding step by simp
    qed
  qed
qed

section \<open>Properties\<close>

text \<open>
  C6. From a newly created table, every sequence of opens and closes returns exactly what the
  specification of a descriptor table returns, whatever the heap holds: an open gets the lowest
  free number, also after the table has grown, and fails with \<open>EMFILE\<close> only when all 256 numbers
  are in use; a close fails with \<open>EBADF\<close> only on a number that is not open.
\<close>

theorem fd_table_refines_spec:
  "\<exists>t rs w'. fd_createTable env PROCESS_FD_BASE_AMOUNT = Done t \<and>
     table_run (fd_add env) fd_remove \<lparr>tbl = t, refs = r, destroyed = d\<rparr> ops = Done (rs, w') \<and>
     spec_run PROCESS_MAX_FDS (\<lambda>_. None) ops = (rs, fd_view (tbl w'))"
proof -
  obtain t where t: "fd_createTable env 8 = Done t" "fd_inv t" "hint_exact t" "table_size t = 8"
    "fd_view t = (\<lambda>_. None)"
    by (rule fd_createTable_regular [of 8 env]) (simp_all add: PROCESS_MAX_FDS_def)
  then have "fd_regular \<lparr>tbl = t, refs = r, destroyed = d\<rparr>" by (simp add: fd_regular_def)
  from fdt.run_refines [OF this, of env ops] t show ?thesis
    by (auto simp: PROCESS_FD_BASE_AMOUNT_def)
qed

text \<open>
  On every table whose hint skips only used slots, and with a free slot or room to grow,
  \<open>fd_add\<close> returns the lowest number that is not open, installs the file there and changes no
  other descriptor, takes no reference, clears the close-on-exec flag of that number and keeps
  the flags of all others. The hint becomes exact.
\<close>

theorem fd_add_lowest:
  assumes "fd_inv (tbl w)"
    and "(\<exists>i < table_size (tbl w). fd_view (tbl w) i = None) \<or>
      table_size (tbl w) + 8 \<le> PROCESS_MAX_FDS \<and>
      (lowest_avl (tbl w) = table_size (tbl w) \<or> past_end env \<noteq> None)"
  shows "\<exists>fd w'. fd_add env f w = Done (Inr fd, w') \<and> fd_inv (tbl w') \<and> hint_exact (tbl w') \<and>
    fd_view (tbl w) fd = None \<and> (\<forall>j < fd. fd_view (tbl w) j \<noteq> None) \<and>
    fd_view (tbl w') = (fd_view (tbl w))(fd \<mapsto> f) \<and> refs w' = refs w \<and> destroyed w' = destroyed w \<and>
    \<not> bits (cloexec (tbl w')) fd \<and>
    (\<forall>i < table_size (tbl w). i \<noteq> fd \<longrightarrow> bits (cloexec (tbl w')) i = bits (cloexec (tbl w)) i)"
proof -
  let ?k = "free_from (tbl w) 0"
  have len: "length (fds (tbl w)) = table_size (tbl w)" using assms(1) by (simp add: fd_inv_def)
  have le: "?k \<le> table_size (tbl w)" using free_from_le [of 0 "tbl w"] len by simp
  have k: "fd_view (tbl w) ?k = None" "\<forall>j < ?k. fd_view (tbl w) j \<noteq> None"
    using free_from_free [of 0 "tbl w"] free_from_used [of 0 _ "tbl w"] le len
    by (auto simp: fd_view_def)
  show ?thesis
  proof (cases "?k < table_size (tbl w)")
    case True
    show ?thesis
      by (rule fd_add_free [OF assms(1) True, of env f]) (use k in auto)
  next
    case False
    with le have ff: "?k = table_size (tbl w)" by simp
    with k(2) assms(2) have hint: "lowest_avl (tbl w) = table_size (tbl w) \<or> past_end env \<noteq> None"
      and room: "table_size (tbl w) + 8 \<le> PROCESS_MAX_FDS" by auto
    show ?thesis
      by (rule fd_add_grow [OF assms(1) ff hint room, of f]) (use k ff in auto)
  qed
qed

theorem fd_add_lowest_witness:
  "\<exists>fd w'. fd_add \<lparr>past_end = None, fresh_word = \<lambda>_. 5\<rparr> 77
      \<lparr>tbl = \<lparr>table_size = 8, lowest_avl = 8, fds = replicate 8 (Some 3), cloexec = [0]\<rparr>,
       refs = \<lambda>_. 1, destroyed = []\<rparr> = Done (Inr fd, w') \<and> hint_exact (tbl w') \<and> refs w' 77 = 1"
proof -
  let ?w = "\<lparr>tbl = \<lparr>table_size = 8, lowest_avl = 8, fds = replicate 8 (Some 3), cloexec = [0]\<rparr>,
       refs = \<lambda>_. 1, destroyed = []\<rparr>"
  have "fd_inv (tbl ?w)" by (simp add: fd_inv_def PROCESS_MAX_FDS_def)
  from fd_add_lowest [OF this, of "\<lparr>past_end = None, fresh_word = \<lambda>_. 5\<rparr>" 77]
  show ?thesis by (auto simp: PROCESS_MAX_FDS_def)
qed

text \<open>
  C16. Duplicating an open descriptor onto a given number below the limit always succeeds, also
  when the table has to grow: the number then refers to the same file, no other descriptor
  changes, its close-on-exec flag is clear, the file that was there loses its reference and the
  duplicated file gains one, so the references of every file minus the slots that hold it stay
  as they were.
\<close>

theorem fd_duplicate_exact_effect:
  assumes "fd_inv (tbl w)" "fd_view (tbl w) oldfd = Some f" "newfd < PROCESS_MAX_FDS"
  shows "\<exists>w'. fd_duplicate env (int oldfd) (int newfd) True w = Done (Inr newfd, w') \<and>
    fd_inv (tbl w') \<and> fd_view (tbl w') = (fd_view (tbl w))(newfd \<mapsto> f) \<and>
    \<not> bits (cloexec (tbl w')) newfd \<and>
    (\<forall>g. refs w' g - held (tbl w') g = refs w g - held (tbl w) g)"
  by (rule fd_duplicate_exact [OF assms, of env]) auto

theorem fd_duplicate_exact_effect_witness:
  "\<exists>w'. fd_duplicate \<lparr>past_end = None, fresh_word = \<lambda>_. 5\<rparr> 2 20 True
      \<lparr>tbl = \<lparr>table_size = 8, lowest_avl = 8, fds = replicate 8 (Some 3), cloexec = [0]\<rparr>,
       refs = \<lambda>_. 8, destroyed = []\<rparr> = Done (Inr 20, w') \<and> refs w' 3 - held (tbl w') 3 = 0"
proof -
  let ?w = "\<lparr>tbl = \<lparr>table_size = 8, lowest_avl = 8, fds = replicate 8 (Some 3), cloexec = [0]\<rparr>,
       refs = \<lambda>_. 8, destroyed = []\<rparr>"
  have "fd_inv (tbl ?w)" "fd_view (tbl ?w) 2 = Some 3" "20 < PROCESS_MAX_FDS" "held (tbl ?w) 3 = 8"
    by (simp_all add: fd_inv_def PROCESS_MAX_FDS_def fd_view_def held_def)
  with fd_duplicate_exact_effect [of ?w 2 3 20 "\<lparr>past_end = None, fresh_word = \<lambda>_. 5\<rparr>"]
  show ?thesis by (auto dest: spec [where x = 3])
qed

text \<open>
  A fork gives the child a table equal to the parent's, flags and hint included, and adds to
  every file one reference for each slot that holds it; destroying a table takes exactly these
  references away again.
\<close>

theorem fd_copy_destroy:
  assumes "fd_inv t"
  shows "\<exists>w1 w2. fd_copyTable env (Some t) w = Done (t, w1) \<and>
    (\<forall>f. refs w1 f = refs w f + held t f) \<and>
    fd_destroyTable (w1\<lparr>tbl := t\<rparr>) = Done w2 \<and> refs w2 = refs w"
proof -
  from fd_copyTable_eq [OF assms, of env w] obtain w1 where
    w1: "fd_copyTable env (Some t) w = Done (t, w1)" "\<forall>f. refs w1 f = refs w f + held t f" by blast
  have len: "length (fds t) = table_size t" using assms by (simp add: fd_inv_def)
  from destroy_slots_eq [OF len, of 0 "w1\<lparr>tbl := t\<rparr>"] obtain w2 where
    "destroy_slots t 0 (w1\<lparr>tbl := t\<rparr>) = Done w2"
    "\<forall>f. refs w2 f = refs w1 f - held t f" by (auto simp: held_def)
  with w1 show ?thesis by (auto simp: fd_destroyTable_def fun_eq_iff)
qed

theorem fd_copy_destroy_witness:
  "\<exists>w1 w2. fd_copyTable \<lparr>past_end = None, fresh_word = \<lambda>_. 5\<rparr>
      (Some \<lparr>table_size = 8, lowest_avl = 1, fds = Some 4 # replicate 7 None, cloexec = [1]\<rparr>)
      \<lparr>tbl = \<lparr>table_size = 8, lowest_avl = 1, fds = Some 4 # replicate 7 None, cloexec = [1]\<rparr>,
       refs = \<lambda>_. 1, destroyed = []\<rparr> =
      Done (\<lparr>table_size = 8, lowest_avl = 1, fds = Some 4 # replicate 7 None, cloexec = [1]\<rparr>, w1) \<and>
    refs w1 4 = 2 \<and>
    fd_destroyTable (w1\<lparr>tbl := \<lparr>table_size = 8, lowest_avl = 1, fds = Some 4 # replicate 7 None,
      cloexec = [1]\<rparr>\<rparr>) = Done w2 \<and> refs w2 4 = 1"
proof -
  let ?t = "\<lparr>table_size = 8, lowest_avl = 1, fds = Some 4 # replicate 7 None, cloexec = [1]\<rparr>"
  have "fd_inv ?t" "held ?t 4 = 1" by (simp_all add: fd_inv_def PROCESS_MAX_FDS_def held_def)
  with fd_copy_destroy [of ?t "\<lparr>past_end = None, fresh_word = \<lambda>_. 5\<rparr>"
      "\<lparr>tbl = ?t, refs = \<lambda>_. 1, destroyed = []\<rparr>"]
  show ?thesis by auto
qed

text \<open>
  C17. When a process executes a new image, exactly the descriptors marked close-on-exec are
  closed, each giving up its reference, and all others stay open.
\<close>

theorem close_on_exec_exact:
  assumes "fd_inv (tbl w)"
  shows "\<exists>w'. process_closeOnExec w = Done w' \<and> fd_inv (tbl w') \<and>
    (\<forall>fd. fd_view (tbl w') fd = (if bits (cloexec (tbl w)) fd then None else fd_view (tbl w) fd)) \<and>
    (\<forall>f. refs w' f - held (tbl w') f = refs w f - held (tbl w) f)"
  using close_on_exec_eq [OF assms, of "table_size (tbl w)" 0] by (auto simp: process_closeOnExec_def)

theorem close_on_exec_exact_witness:
  "\<exists>w'. process_closeOnExec
      \<lparr>tbl = \<lparr>table_size = 8, lowest_avl = 3, fds = replicate 3 (Some 4) @ replicate 5 None,
         cloexec = [2]\<rparr>, refs = \<lambda>_. 3, destroyed = []\<rparr> = Done w' \<and>
     fd_view (tbl w') 0 = Some 4 \<and> fd_view (tbl w') 1 = None \<and> fd_view (tbl w') 2 = Some 4"
proof -
  let ?w = "\<lparr>tbl = \<lparr>table_size = 8, lowest_avl = 3, fds = replicate 3 (Some 4) @ replicate 5 None,
         cloexec = [2]\<rparr>, refs = \<lambda>_. 3, destroyed = []\<rparr>"
  have "fd_inv (tbl ?w)" by (simp add: fd_inv_def PROCESS_MAX_FDS_def nth_append)
  moreover have "fd_view (tbl ?w) 0 = Some 4" "fd_view (tbl ?w) 2 = Some 4"
    "\<not> bits (cloexec (tbl ?w)) 0" "bits (cloexec (tbl ?w)) 1" "\<not> bits (cloexec (tbl ?w)) 2"
    by (simp_all add: fd_view_def bits_def nth_append bit_numeral_rec)
  ultimately show ?thesis using close_on_exec_exact [of ?w] by auto
qed

text \<open>
  C18. The search for a free slot does not stop at the end of the table: when a duplication has
  filled the last free slot and the word behind the array is zero, the next open does not grow
  the table but writes the file behind the array.
\<close>

theorem fd_add_after_dup_overruns:
  assumes inv: "fd_inv (tbl w)" and old: "fd_view (tbl w) oldfd = Some f"
    and last: "lowest_avl (tbl w) < table_size (tbl w)"
      "\<And>i. i < table_size (tbl w) \<Longrightarrow> i \<noteq> lowest_avl (tbl w) \<Longrightarrow> fd_view (tbl w) i \<noteq> None"
    and env: "past_end env = None"
  shows "obind (fd_duplicate env (int oldfd) (int (lowest_avl (tbl w))) True w)
    (\<lambda>(_, w'). fd_add env g w') = Fault"
proof -
  let ?l = "lowest_avl (tbl w)"
  have "?l < PROCESS_MAX_FDS" using inv last(1) by (simp add: fd_inv_def)
  from fd_duplicate_exact [OF inv old this, of env] obtain w' where
    w': "fd_duplicate env (int oldfd) (int ?l) True w = Done (Inr ?l, w')" "fd_inv (tbl w')"
      "fd_view (tbl w') = (fd_view (tbl w))(?l \<mapsto> f)" "lowest_avl (tbl w') = ?l"
      "table_size (tbl w') = table_size (tbl w)" using last(1) by metis
  have len: "length (fds (tbl w')) = table_size (tbl w')" using w'(2) by (simp add: fd_inv_def)
  have "fds (tbl w') ! i \<noteq> None" if "i < table_size (tbl w')" for i
    using last(2) [of i] that w'(5) w'(3) [THEN fun_cong, of i] len by (auto simp: fd_view_def split: if_splits)
  then have "free_from (tbl w') 0 = table_size (tbl w')"
    by (intro free_from_eqI) (auto simp: len)
  with free_from_hint [OF w'(2)] have "free_from (tbl w') ?l = table_size (tbl w')"
    by (simp add: w'(4))
  then have "fd_add env g w' = Fault"
    using w'(4,5) last(1) env
    by (simp add: fd_add_def fd_allocateFree_def fd_recalculateFirstFree_eq len awrite_def)
  with w'(1) show ?thesis by simp
qed

theorem fd_add_after_dup_overruns_witness:
  "obind (fd_duplicate \<lparr>past_end = None, fresh_word = \<lambda>_. 0\<rparr> 0 7 True
     \<lparr>tbl = \<lparr>table_size = 8, lowest_avl = 7, fds = replicate 7 (Some 4) @ [None], cloexec = [0]\<rparr>,
      refs = \<lambda>_. 7, destroyed = []\<rparr>)
     (\<lambda>(_, w). fd_add \<lparr>past_end = None, fresh_word = \<lambda>_. 0\<rparr> 9 w) = Fault"
proof -
  let ?w = "\<lparr>tbl = \<lparr>table_size = 8, lowest_avl = 7, fds = replicate 7 (Some 4) @ [None], cloexec = [0]\<rparr>,
      refs = \<lambda>_. 7, destroyed = []\<rparr>"
  have "fd_inv (tbl ?w)" "fd_view (tbl ?w) 0 = Some 4"
    by (auto simp: fd_inv_def PROCESS_MAX_FDS_def nth_append fd_view_def)
  from fd_add_after_dup_overruns [OF this, of "\<lparr>past_end = None, fresh_word = \<lambda>_. 0\<rparr>" 9]
  show ?thesis by (simp add: fd_view_def nth_append)
qed

end
