(* ===== verification/Frame_Allocator.thy ===== *)
theory Frame_Allocator
  imports Prelude "HOL-Library.Multiset"
begin

text \<open>
  The contract of an allocator of reference-counted page frames as its clients use it. The
  specification is the multiset of the references that are held: an allocation adds one to a
  frame nobody refers to, a retain adds one and a release takes one away. The client lemma says
  that for clients that retain and release only what they refer to, the counts of the allocator
  are exactly these references, and no operation panics while there are free frames.
\<close>

section \<open>Definitions\<close>

datatype frame_op = Alloc | Retain nat | Release nat

text \<open>
  Runs a sequence of operations; \<open>M\<close> is the multiset of the references held. A retain or release
  of a frame without a reference is not made.
\<close>

fun frame_run ::
  "('s \<Rightarrow> (nat \<times> 's) outcome) \<Rightarrow> ('s \<Rightarrow> nat \<Rightarrow> 's outcome) \<Rightarrow> ('s \<Rightarrow> nat \<Rightarrow> 's outcome) \<Rightarrow>
   's \<Rightarrow> nat multiset \<Rightarrow> frame_op list \<Rightarrow> (nat multiset \<times> 's) outcome" where
  "frame_run alloc retain release p M [] = Done (M, p)"
| "frame_run alloc retain release p M (Alloc # ops) =
     obind (alloc p) (\<lambda>(a, p'). frame_run alloc retain release p' (add_mset a M) ops)"
| "frame_run alloc retain release p M (Retain a # ops) =
     (if a \<in># M then obind (retain p a) (\<lambda>p'. frame_run alloc retain release p' (add_mset a M) ops)
      else frame_run alloc retain release p M ops)"
| "frame_run alloc retain release p M (Release a # ops) =
     (if a \<in># M then obind (release p a) (\<lambda>p'. frame_run alloc retain release p' (M - {#a#}) ops)
      else frame_run alloc retain release p M ops)"

section \<open>The contract\<close>

locale frame_allocator =
  fixes alloc :: "'s \<Rightarrow> (nat \<times> 's) outcome"
    and retain :: "'s \<Rightarrow> nat \<Rightarrow> 's outcome"
    and release :: "'s \<Rightarrow> nat \<Rightarrow> 's outcome"
    and inv :: "'s \<Rightarrow> bool"
    and refs :: "'s \<Rightarrow> nat \<Rightarrow> nat"
    and avail :: "'s \<Rightarrow> nat"
  assumes alloc_law: "inv p \<Longrightarrow> 0 < avail p \<Longrightarrow>
      \<exists>a p'. alloc p = Done (a, p') \<and> inv p' \<and> refs p a = 0 \<and> refs p' = (refs p)(a := 1) \<and>
        avail p' = avail p - 1"
    and retain_law: "inv p \<Longrightarrow> 0 < refs p a \<Longrightarrow>
      \<exists>p'. retain p a = Done p' \<and> inv p' \<and> refs p' = (refs p)(a := refs p a + 1) \<and> avail p' = avail p"
    and release_law: "inv p \<Longrightarrow> 0 < refs p a \<Longrightarrow>
      \<exists>p'. release p a = Done p' \<and> inv p' \<and> refs p' = (refs p)(a := refs p a - 1) \<and>
        avail p' = avail p + of_bool (refs p a = 1)"
begin

lemma run_counts:
  "inv p \<Longrightarrow> refs p = count M \<Longrightarrow> count_list ops Alloc \<le> avail p \<Longrightarrow>
   \<exists>M' p'. frame_run alloc retain release p M ops = Done (M', p') \<and> inv p' \<and> refs p' = count M'"
proof (induction ops arbitrary: p M)
  case Nil
  then show ?case by simp
next
  case (Cons op ops)
  show ?case
  proof (cases op)
    case Alloc
    then have "0 < avail p" using Cons.prems(3) by simp
    from alloc_law [OF Cons.prems(1) this] obtain a p1 where
      p1: "alloc p = Done (a, p1)" "inv p1" "refs p a = 0" "refs p1 = (refs p)(a := 1)"
        "avail p1 = avail p - 1" by blast
    have "refs p1 = count (add_mset a M)" using p1(3,4) Cons.prems(2) by (auto simp: fun_eq_iff)
    moreover have "count_list ops Alloc \<le> avail p1" using p1(5) Cons.prems(3) Alloc by simp
    ultimately show ?thesis using Cons.IH [OF p1(2)] p1(1) Alloc by simp
  next
    case (Retain a)
    show ?thesis
    proof (cases "a \<in># M")
      case True
      then have "0 < refs p a" using Cons.prems(2) by simp
      from retain_law [OF Cons.prems(1) this] obtain p1 where
        p1: "retain p a = Done p1" "inv p1" "refs p1 = (refs p)(a := refs p a + 1)" "avail p1 = avail p"
        by blast
      have "refs p1 = count (add_mset a M)" using p1(3) Cons.prems(2) by (auto simp: fun_eq_iff)
      then show ?thesis using Cons.IH [OF p1(2)] p1(1,4) Cons.prems(3) Retain True by simp
    next
      case False
      then show ?thesis using Cons.IH [OF Cons.prems(1,2)] Cons.prems(3) Retain by simp
    qed
  next
    case (Release a)
    show ?thesis
    proof (cases "a \<in># M")
      case True
      then have "0 < refs p a" using Cons.prems(2) by simp
      from release_law [OF Cons.prems(1) this] obtain p1 where
        p1: "release p a = Done p1" "inv p1" "refs p1 = (refs p)(a := refs p a - 1)"
          "avail p1 = avail p + of_bool (refs p a = 1)" by blast
      have "refs p1 = count (M - {#a#})" using p1(3) Cons.prems(2) by (auto simp: fun_eq_iff)
      then show ?thesis using Cons.IH [OF p1(2)] p1(1,4) Cons.prems(3) Release True by simp
    next
      case False
      then show ?thesis using Cons.IH [OF Cons.prems(1,2)] Cons.prems(3) Release by simp
    qed
  qed
qed

end

end
