(* ===== verification/Pmm.thy ===== *)
theory Pmm
  imports Frame_Allocator
begin

text \<open>
  The physical page allocator, \<^verbatim>\<open>src/hexahedron/mm/pmm.c\<close>: sections of page frames with a
  bitmap, a hint (\<open>ffb\<close>, the first byte of the bitmap that may have a clear bit), a count of free
  frames and an array of page descriptors. There is one zone, so the zone is the list of its
  sections. Physical addresses are natural numbers; every operation runs under the mutex of the
  section and is one step. An out-of-memory condition and every \<^verbatim>\<open>assert\<close> is a panic.
\<close>

section \<open>Definitions\<close>

definition PAGE_SIZE :: nat where "PAGE_SIZE = 4096"

definition PAGE_ALIGN_UP :: "nat \<Rightarrow> nat" where
  "PAGE_ALIGN_UP x = (x + (PAGE_SIZE - 1)) div PAGE_SIZE * PAGE_SIZE"

definition PAGE_ALIGN_DOWN :: "nat \<Rightarrow> nat" where
  "PAGE_ALIGN_DOWN x = x div PAGE_SIZE * PAGE_SIZE"

definition PAGE_FLAG_FREE :: u8 where "PAGE_FLAG_FREE = 1"

text \<open>
  The fields of a page descriptor that the allocator uses. Its section pointer is the section
  whose array holds it.
\<close>

record pmm_page =
  pg_flags :: u8
  pg_refcount :: nat

record pmm_section =
  s_start :: nat
  s_size :: nat
  s_bmap :: "u8 list"
  s_ffb :: nat
  s_nfree :: nat
  s_pages :: "pmm_page list"

record pmm =
  zone :: "pmm_section list"
  pmm_total_blocks :: u32
  pmm_used_blocks :: u32
  pmm_internal_memory :: nat

abbreviation s_total :: "pmm_section \<Rightarrow> nat" where
  "s_total s \<equiv> s_size s div PAGE_SIZE"

text \<open>One bit of the byte map.\<close>

definition bmap_test :: "u8 list \<Rightarrow> nat \<Rightarrow> bool outcome" where
  "bmap_test m idx = obind (aread m (idx div 8)) (\<lambda>b. Done (b AND push_bit (idx mod 8) 1 \<noteq> 0))"

definition bmap_set :: "u8 list \<Rightarrow> nat \<Rightarrow> u8 list outcome" where
  "bmap_set m idx = obind (aread m (idx div 8)) (\<lambda>b. awrite m (idx div 8) (b OR push_bit (idx mod 8) 1))"

definition bmap_clear :: "u8 list \<Rightarrow> nat \<Rightarrow> u8 list outcome" where
  "bmap_clear m idx =
     obind (aread m (idx div 8)) (\<lambda>b. awrite m (idx div 8) (b AND NOT (push_bit (idx mod 8) 1)))"

subsection \<open>Single pages\<close>

text \<open>The loop that recomputes the hint from the start of the map; it stops at the end by an assertion.\<close>

function recalc_from :: "u8 list \<Rightarrow> nat \<Rightarrow> nat \<Rightarrow> nat outcome" where
  "recalc_from m total_pages ffb =
     obind (aread m ffb) (\<lambda>b.
     if b = 0xFF then (if ffb * 8 \<ge> total_pages then Panic else recalc_from m total_pages (ffb + 1))
     else Done ffb)"
  by pat_completeness auto
termination by (relation "measure (\<lambda>(m, total_pages, ffb). length m - ffb)") auto

definition use_ffb :: "pmm_section \<Rightarrow> nat outcome" where
  "use_ffb s =
     obind (aread (s_bmap s) (s_ffb s)) (\<lambda>b.
     if b = 0xFF then recalc_from (s_bmap s) (s_total s) 0 else Done (s_ffb s))"

text \<open>The search for a clear bit in the byte of the hint, from bit \<open>i\<close>.\<close>

function first_bit :: "u8 \<Rightarrow> nat \<Rightarrow> nat \<Rightarrow> nat \<Rightarrow> nat outcome" where
  "first_bit byte ffb total_pages i =
     (if i < 8 then
        (if byte AND push_bit i 1 = 0 then Done i
         else if ffb * 8 + i \<ge> total_pages then Panic
         else first_bit byte ffb total_pages (i + 1))
      else Done i)"
  by pat_completeness auto
termination by (relation "measure (\<lambda>(byte, ffb, total_pages, i). 8 - i)") auto

text \<open>The hint after an allocation that left free pages.\<close>

function next_ffb :: "u8 list \<Rightarrow> nat \<Rightarrow> nat \<Rightarrow> nat outcome" where
  "next_ffb m total_pages ffb =
     obind (aread m ffb) (\<lambda>b.
     if b = 0xFF then (if (ffb + 1) * 8 \<ge> total_pages then Panic else next_ffb m total_pages (ffb + 1))
     else Done ffb)"
  by pat_completeness auto
termination by (relation "measure (\<lambda>(m, total_pages, ffb). length m - ffb)") auto

definition section_alloc :: "pmm_section \<Rightarrow> (nat \<times> pmm_section) outcome" where
  "section_alloc s =
     obind (use_ffb s) (\<lambda>ffb.
     obind (aread (s_bmap s) ffb) (\<lambda>byte.
     obind (first_bit byte ffb (s_total s) 0) (\<lambda>i.
     let blk = ffb * 8 + i in
     obind (awrite (s_bmap s) ffb (byte OR push_bit i 1)) (\<lambda>m.
     obind (aread (s_pages s) blk) (\<lambda>pg.
     oassert (pg_flags pg AND PAGE_FLAG_FREE \<noteq> 0) (
     oassert (pg_refcount pg = 0) (
     obind (awrite (s_pages s) blk
       (pg\<lparr>pg_flags := pg_flags pg AND NOT PAGE_FLAG_FREE, pg_refcount := 1\<rparr>)) (\<lambda>pages.
     obind (if s_nfree s - 1 \<noteq> 0 then next_ffb m (s_total s) ffb else Done ffb) (\<lambda>ffb'.
     Done (s_start s + blk * 4096,
           s\<lparr>s_bmap := m, s_ffb := ffb', s_nfree := s_nfree s - 1, s_pages := pages\<rparr>))))))))))"

text \<open>The first section with a free page; no such section is the out-of-memory panic.\<close>

fun zone_alloc :: "pmm_section list \<Rightarrow> (nat \<times> pmm_section list) outcome" where
  "zone_alloc [] = Panic"
| "zone_alloc (s # ss) =
     (if s_nfree s = 0 then obind (zone_alloc ss) (\<lambda>(a, ss'). Done (a, s # ss'))
      else obind (section_alloc s) (\<lambda>(a, s'). Done (a, s' # ss)))"

definition pmm_allocatePage :: "pmm \<Rightarrow> (nat \<times> pmm) outcome" where
  "pmm_allocatePage p =
     obind (zone_alloc (zone p)) (\<lambda>(a, z).
     Done (a, p\<lparr>zone := z, pmm_used_blocks := pmm_used_blocks p + 1\<rparr>))"

subsection \<open>Runs of pages\<close>

fun run_free :: "u8 list \<Rightarrow> nat \<Rightarrow> nat \<Rightarrow> bool outcome" where
  "run_free m st 0 = Done True"
| "run_free m st (Suc n) =
     obind (bmap_test m st) (\<lambda>used. if used then Done False else run_free m (st + 1) n)"

fun run_take :: "u8 list \<Rightarrow> pmm_page list \<Rightarrow> nat \<Rightarrow> nat \<Rightarrow> (u8 list \<times> pmm_page list) outcome" where
  "run_take m pages st 0 = Done (m, pages)"
| "run_take m pages st (Suc n) =
     obind (bmap_set m st) (\<lambda>m'.
     obind (aread pages st) (\<lambda>pg.
     obind (awrite pages st
       (pg\<lparr>pg_flags := pg_flags pg AND NOT PAGE_FLAG_FREE, pg_refcount := 1\<rparr>)) (\<lambda>pages'.
     run_take m' pages' (st + 1) n)))"

function skip_full :: "u8 list \<Rightarrow> nat \<Rightarrow> nat \<Rightarrow> nat outcome" where
  "skip_full m bcount ffb =
     (if ffb < bcount then
        obind (aread m ffb) (\<lambda>b. if b = 0xFF then skip_full m bcount (ffb + 1) else Done ffb)
      else Done ffb)"
  by pat_completeness auto
termination by (relation "measure (\<lambda>(m, bcount, ffb). bcount - ffb)") auto

text \<open>
  The two loops over the bytes and their bits, as one loop over the page number: a full byte is
  skipped at its first bit. The result is 0 when no run was found.
\<close>

function try_from :: "pmm_section \<Rightarrow> nat \<Rightarrow> nat \<Rightarrow> (nat \<times> pmm_section) outcome" where
  "try_from s npages st =
     (let total_pages = s_total s; bcount = (total_pages + 7) div 8 in
      if st div 8 < bcount then
        obind (if st mod 8 = 0 then obind (aread (s_bmap s) (st div 8)) (\<lambda>b. Done (b = 0xFF)) else Done False) (\<lambda>full.
        if full then try_from s npages (st + 8)
        else if st + npages > total_pages then Done (0, s)
        else obind (run_free (s_bmap s) st npages) (\<lambda>ok.
        if ok then
          obind (run_take (s_bmap s) (s_pages s) st npages) (\<lambda>(m, pages).
          obind (skip_full m bcount (s_ffb s)) (\<lambda>ffb'.
          Done (s_start s + st * PAGE_SIZE,
                s\<lparr>s_bmap := m, s_pages := pages, s_nfree := s_nfree s - npages, s_ffb := ffb'\<rparr>)))
        else try_from s npages (st + 1)))
      else Done (0, s))"
  by pat_completeness auto
termination
  by (relation "measure (\<lambda>(s, npages, st). 8 * ((s_total s + 7) div 8) - st)")
    (auto simp: less_mult_imp_div_less div_less_iff_less_mult mult.commute)

definition pmm_try_section :: "pmm_section \<Rightarrow> nat \<Rightarrow> (nat \<times> pmm_section) outcome" where
  "pmm_try_section s npages =
     (if s_nfree s < npages then Done (0, s)
      else obind (use_ffb s) (\<lambda>ffb.
        let s1 = s\<lparr>s_ffb := ffb\<rparr> in
        if ffb \<ge> (s_total s + 7) div 8 then Done (0, s1) else try_from s1 npages (ffb * 8)))"

text \<open>The sections in turn; past the last one the code follows a null pointer.\<close>

fun zone_allocPages :: "pmm_section list \<Rightarrow> nat \<Rightarrow> (nat \<times> pmm_section list) outcome" where
  "zone_allocPages [] npages = Fault"
| "zone_allocPages (s # ss) npages =
     obind (pmm_try_section s npages) (\<lambda>(try, s').
     if try \<noteq> 0 then Done (try, s' # ss)
     else obind (zone_allocPages ss npages) (\<lambda>(a, ss'). Done (a, s' # ss')))"

definition pmm_allocatePages :: "pmm \<Rightarrow> nat \<Rightarrow> (nat \<times> pmm) outcome" where
  "pmm_allocatePages p npages =
     (if npages = 1 then pmm_allocatePage p
      else obind (zone_allocPages (zone p) npages) (\<lambda>(a, z).
        Done (a, p\<lparr>zone := z, pmm_used_blocks := pmm_used_blocks p + word_of_nat npages\<rparr>)))"

subsection \<open>References\<close>

definition section_release :: "pmm_section \<Rightarrow> nat \<Rightarrow> (bool \<times> pmm_section) outcome" where
  "section_release s off =
     obind (aread (s_pages s) off) (\<lambda>pg.
     if pg_refcount pg = 0 then Panic
     else if pg_refcount pg - 1 = 0 then
       obind (bmap_clear (s_bmap s) off) (\<lambda>m.
       obind (awrite (s_pages s) off
         (pg\<lparr>pg_refcount := 0, pg_flags := pg_flags pg OR PAGE_FLAG_FREE\<rparr>)) (\<lambda>pages.
       Done (True, s\<lparr>s_pages := pages, s_bmap := m,
         s_ffb := (if off mod 2 ^ 32 div 8 < s_ffb s then off div 8 else s_ffb s),
         s_nfree := s_nfree s + 1\<rparr>)))
     else obind (awrite (s_pages s) off (pg\<lparr>pg_refcount := pg_refcount pg - 1\<rparr>)) (\<lambda>pages.
       Done (False, s\<lparr>s_pages := pages\<rparr>)))"

definition section_retain :: "pmm_section \<Rightarrow> nat \<Rightarrow> pmm_section outcome" where
  "section_retain s off =
     obind (aread (s_pages s) off) (\<lambda>pg.
     obind (awrite (s_pages s) off (pg\<lparr>pg_refcount := pg_refcount pg + 1\<rparr>)) (\<lambda>pages.
     Done (s\<lparr>s_pages := pages\<rparr>)))"

definition section_has :: "pmm_section \<Rightarrow> nat \<Rightarrow> bool" where
  "section_has s page \<longleftrightarrow> s_start s + s_size s > page \<and> page \<ge> s_start s"

text \<open>The section that contains an address; an address in no section is a panic.\<close>

fun zone_release :: "pmm_section list \<Rightarrow> nat \<Rightarrow> (bool \<times> pmm_section list) outcome" where
  "zone_release [] page = Panic"
| "zone_release (s # ss) page =
     (if section_has s page then
        obind (section_release s ((page - s_start s) div PAGE_SIZE)) (\<lambda>(z, s'). Done (z, s' # ss))
      else obind (zone_release ss page) (\<lambda>(z, ss'). Done (z, s # ss')))"

fun zone_retain :: "pmm_section list \<Rightarrow> nat \<Rightarrow> pmm_section list outcome" where
  "zone_retain [] page = Panic"
| "zone_retain (s # ss) page =
     (if section_has s page then
        obind (section_retain s ((page - s_start s) div PAGE_SIZE)) (\<lambda>s'. Done (s' # ss))
      else obind (zone_retain ss page) (\<lambda>ss'. Done (s # ss')))"

definition pmm_release :: "pmm \<Rightarrow> nat \<Rightarrow> pmm outcome" where
  "pmm_release p page =
     obind (zone_release (zone p) page) (\<lambda>(emptied, z).
     Done (p\<lparr>zone := z,
       pmm_used_blocks := (if emptied then pmm_used_blocks p - 1 else pmm_used_blocks p)\<rparr>))"

definition pmm_retain :: "pmm \<Rightarrow> nat \<Rightarrow> pmm outcome" where
  "pmm_retain p page = obind (zone_retain (zone p) page) (\<lambda>z. Done (p\<lparr>zone := z\<rparr>))"

definition pmm_freePage :: "pmm \<Rightarrow> nat \<Rightarrow> pmm outcome" where
  "pmm_freePage p page = pmm_release p page"

fun pmm_freePages :: "pmm \<Rightarrow> nat \<Rightarrow> nat \<Rightarrow> pmm outcome" where
  "pmm_freePages p page_base 0 = Done p"
| "pmm_freePages p page_base (Suc n) =
     obind (pmm_freePages p page_base n) (\<lambda>p'. pmm_release p' (page_base + n * 4096))"

text \<open>\<open>pmm_page\<close> and \<open>pmm_address\<close>; a descriptor is named by its section and its index.\<close>

fun pmm_page_of :: "pmm_section list \<Rightarrow> nat \<Rightarrow> (nat \<times> nat) outcome" where
  "pmm_page_of [] page = Panic"
| "pmm_page_of (s # ss) page =
     (if section_has s page then Done (0, (page - s_start s) div PAGE_SIZE)
      else obind (pmm_page_of ss page) (\<lambda>(k, off). Done (k + 1, off)))"

definition pmm_address :: "pmm_section list \<Rightarrow> nat \<times> nat \<Rightarrow> nat outcome" where
  "pmm_address z = (\<lambda>(k, off). obind (aread z k) (\<lambda>s. Done (s_start s + off * PAGE_SIZE)))"

definition pmm_getTotalBlocks :: "pmm \<Rightarrow> u32" where "pmm_getTotalBlocks p = pmm_total_blocks p"
definition pmm_getUsedBlocks :: "pmm \<Rightarrow> u32" where "pmm_getUsedBlocks p = pmm_used_blocks p"
definition pmm_getFreeBlocks :: "pmm \<Rightarrow> u32" where
  "pmm_getFreeBlocks p = pmm_total_blocks p - pmm_used_blocks p"

declare recalc_from.simps [simp del] first_bit.simps [simp del] next_ffb.simps [simp del]
  skip_full.simps [simp del] try_from.simps [simp del]

section \<open>The bitmap of a section\<close>

definition pbits :: "u8 list \<Rightarrow> nat \<Rightarrow> bool" where
  "pbits m i = bit (m ! (i div 8)) (i mod 8)"

text \<open>The number of clear bits below \<open>n\<close>.\<close>

definition free_count :: "u8 list \<Rightarrow> nat \<Rightarrow> nat" where
  "free_count m n = length (filter (\<lambda>i. \<not> pbits m i) [0..<n])"

lemma byte_full_iff: "(b :: u8) = 0xFF \<longleftrightarrow> (\<forall>k < 8. bit b k)"
proof
  assume "b = 0xFF"
  then have "b = mask 8" by (simp add: mask_eq_exp_minus_1)
  then show "\<forall>k < 8. bit b k" by (simp add: bit_simps)
next
  assume "\<forall>k < 8. bit b k"
  then have "b = mask 8" by (intro bit_word_eqI) (simp add: bit_simps)
  then show "b = 0xFF" by (simp add: mask_eq_exp_minus_1)
qed

lemma byte_index_lt: "i < 8 * length m \<Longrightarrow> i div 8 < length m"
  by (simp add: less_mult_imp_div_less mult.commute)

lemma page_in_bmap: "i < n \<Longrightarrow> (n + 7) div 8 \<le> length m \<Longrightarrow> i < 8 * length (m :: u8 list)"
  by linarith

lemma byte_full_pbits: "m ! j = 0xFF \<longleftrightarrow> (\<forall>i. i div 8 = j \<longrightarrow> pbits m i)"
proof -
  have "(\<forall>k < 8. bit (m ! j) k) \<longleftrightarrow> (\<forall>i. i div 8 = j \<longrightarrow> pbits m i)"
  proof (intro iffI allI impI)
    fix i assume "\<forall>k < 8. bit (m ! j) k" "i div 8 = j"
    then show "pbits m i" by (simp add: pbits_def)
  next
    fix k :: nat assume a: "\<forall>i. i div 8 = j \<longrightarrow> pbits m i" and k: "k < 8"
    have "(8 * j + k) div 8 = j" "(8 * j + k) mod 8 = k" using k by simp_all
    with a [rule_format, of "8 * j + k"] show "bit (m ! j) k" by (simp add: pbits_def)
  qed
  then show ?thesis by (simp only: byte_full_iff)
qed

lemma pbits_update:
  assumes "i < 8 * length m"
    and "\<And>k. k < 8 \<Longrightarrow> bit w k \<longleftrightarrow> (if k = i mod 8 then x else bit (m ! (i div 8)) k)"
  shows "pbits (m[i div 8 := w]) j = (if j = i then x else pbits m j)"
proof (cases "j div 8 = i div 8")
  case True
  have "j = i \<longleftrightarrow> j mod 8 = i mod 8" using True by (metis mult_div_mod_eq)
  with True assms byte_index_lt [OF assms(1)] show ?thesis by (simp add: pbits_def)
next
  case False
  then show ?thesis by (auto simp: pbits_def)
qed

lemma pbits_set:
  assumes "i < 8 * length m"
  shows "pbits (m[i div 8 := m ! (i div 8) OR 2 ^ (i mod 8)]) j = (j = i \<or> pbits m j)"
proof -
  have "pbits (m[i div 8 := m ! (i div 8) OR 2 ^ (i mod 8)]) j = (if j = i then True else pbits m j)"
    by (rule pbits_update [OF assms]) (auto simp: bit_simps)
  then show ?thesis by simp
qed

lemma pbits_clear:
  assumes "i < 8 * length m"
  shows "pbits (m[i div 8 := m ! (i div 8) AND NOT (2 ^ (i mod 8))]) j = (j \<noteq> i \<and> pbits m j)"
proof -
  have "pbits (m[i div 8 := m ! (i div 8) AND NOT (2 ^ (i mod 8))]) j =
      (if j = i then False else pbits m j)"
    by (rule pbits_update [OF assms]) (auto simp: bit_simps)
  then show ?thesis by simp
qed

lemma bmap_test_pbits: "i < 8 * length m \<Longrightarrow> bmap_test m i = Done (pbits m i)"
  using byte_index_lt [of i m] by (simp add: bmap_test_def pbits_def aread_in bit_mask_test)

lemma bmap_set_eq:
  "i < 8 * length m \<Longrightarrow>
   bmap_set m i = Done (m[i div 8 := m ! (i div 8) OR 2 ^ (i mod 8)])"
  using byte_index_lt [of i m] by (simp add: bmap_set_def aread_in awrite_in)

lemma bmap_clear_eq:
  "i < 8 * length m \<Longrightarrow>
   bmap_clear m i = Done (m[i div 8 := m ! (i div 8) AND NOT (2 ^ (i mod 8))])"
  using byte_index_lt [of i m] by (simp add: bmap_clear_def aread_in awrite_in)

lemma free_count_card: "free_count m n = card {i. i < n \<and> \<not> pbits m i}"
proof -
  have "free_count m n = card (set (filter (\<lambda>i. \<not> pbits m i) [0..<n]))"
    unfolding free_count_def by (subst distinct_card) simp_all
  also have "set (filter (\<lambda>i. \<not> pbits m i) [0..<n]) = {i. i < n \<and> \<not> pbits m i}" by auto
  finally show ?thesis .
qed

lemma free_count_pos: "0 < free_count m n \<longleftrightarrow> (\<exists>i < n. \<not> pbits m i)"
  by (auto simp: free_count_card card_gt_0_iff)

lemma free_count_take:
  assumes "i < n" "\<not> pbits m i" "\<And>j. pbits m' j = (j = i \<or> pbits m j)"
  shows "free_count m n = Suc (free_count m' n)"
proof -
  have "{j. j < n \<and> \<not> pbits m j} = insert i {j. j < n \<and> \<not> pbits m' j}"
    using assms by auto
  then show ?thesis using assms by (simp add: free_count_card)
qed

lemma free_count_give:
  assumes "i < n" "pbits m i" "\<And>j. pbits m' j = (j \<noteq> i \<and> pbits m j)"
  shows "free_count m' n = Suc (free_count m n)"
proof -
  have "{j. j < n \<and> \<not> pbits m' j} = insert i {j. j < n \<and> \<not> pbits m j}"
    using assms by auto
  then show ?thesis using assms by (simp add: free_count_card)
qed

section \<open>Searching the bitmap\<close>

text \<open>The lowest clear bit.\<close>

definition lowest_clear :: "u8 list \<Rightarrow> nat \<Rightarrow> bool" where
  "lowest_clear m q \<longleftrightarrow> \<not> pbits m q \<and> (\<forall>j < q. pbits m j)"

lemma lowest_clear_exists:
  assumes "i < n" "\<not> pbits m i"
  obtains q where "lowest_clear m q" "q \<le> i" "q < n"
proof -
  define q where "q = (LEAST i. \<not> pbits m i)"
  have "\<not> pbits m q" unfolding q_def by (rule LeastI [of "\<lambda>i. \<not> pbits m i"], rule assms(2))
  moreover have "pbits m j" if "j < q" for j using not_less_Least that unfolding q_def by blast
  moreover have "q \<le> i" unfolding q_def by (rule Least_le, rule assms(2))
  ultimately show ?thesis using assms(1) by (intro that [of q]) (simp_all add: lowest_clear_def)
qed

lemma lowest_clear_bytes:
  assumes "lowest_clear m q"
  shows "m ! (q div 8) \<noteq> 0xFF" and "\<And>j. j < q div 8 \<Longrightarrow> m ! j = 0xFF"
proof -
  show "m ! (q div 8) \<noteq> 0xFF"
    using assms by (auto simp: byte_full_pbits lowest_clear_def)
  show "m ! j = 0xFF" if j: "j < q div 8" for j
  proof -
    have "pbits m i" if "i div 8 = j" for i
    proof -
      have "i < q" using that j by (metis div_le_mono leD leI)
      then show ?thesis using assms by (simp add: lowest_clear_def)
    qed
    then show ?thesis by (simp add: byte_full_pbits)
  qed
qed

lemma recalc_from_eq:
  assumes "lowest_clear m q" "q < n" "q div 8 < length m" "j \<le> q div 8"
  shows "recalc_from m n j = Done (q div 8)"
  using assms
proof (induction m n j rule: recalc_from.induct)
  case (1 m n j)
  show ?case
  proof (cases "j = q div 8")
    case True
    with "1.prems" lowest_clear_bytes(1) [OF "1.prems"(1)] show ?thesis
      by (subst recalc_from.simps) (simp add: aread_in)
  next
    case False
    with "1.prems" have j: "j < q div 8" by simp
    then have b: "m ! j = 0xFF" by (rule lowest_clear_bytes(2) [OF "1.prems"(1)])
    have l: "j < length m" using j "1.prems"(3) by simp
    have "\<not> n \<le> j * 8" using j "1.prems"(2) by linarith
    then show ?thesis using "1.IH" [of "m ! j"] "1.prems" b l j
      by (subst recalc_from.simps) (simp add: aread_in)
  qed
qed

lemma next_ffb_eq:
  assumes "lowest_clear m q" "q < n" "q div 8 < length m" "j \<le> q div 8"
  shows "next_ffb m n j = Done (q div 8)"
  using assms
proof (induction m n j rule: next_ffb.induct)
  case (1 m n j)
  show ?case
  proof (cases "j = q div 8")
    case True
    with "1.prems" lowest_clear_bytes(1) [OF "1.prems"(1)] show ?thesis
      by (subst next_ffb.simps) (simp add: aread_in)
  next
    case False
    with "1.prems" have j: "j < q div 8" by simp
    then have b: "m ! j = 0xFF" by (rule lowest_clear_bytes(2) [OF "1.prems"(1)])
    have l: "j < length m" using j "1.prems"(3) by simp
    have "j + 1 \<le> q div 8" using j by simp
    then have "(j + 1) * 8 \<le> q" by (simp add: less_eq_div_iff_mult_less_eq)
    then have "\<not> n \<le> (j + 1) * 8" using "1.prems"(2) by linarith
    then show ?thesis using "1.IH" [of "m ! j"] "1.prems" b l j
      by (subst next_ffb.simps) (simp add: aread_in)
  qed
qed

lemma first_bit_eq:
  assumes "c < 8" "\<not> bit byte c" "\<And>k. k < c \<Longrightarrow> bit byte k" "j * 8 + c < n" "i \<le> c"
  shows "first_bit byte j n i = Done c"
  using assms
proof (induction byte j n i rule: first_bit.induct)
  case (1 byte j n i)
  show ?case
  proof (cases "i = c")
    case True
    with "1.prems" show ?thesis using bit_mask_test [of byte i]
      by (subst first_bit.simps) simp
  next
    case False
    with "1.prems" have i: "i < c" by simp
    then have "bit byte i" by (rule "1.prems"(3))
    then have b: "byte AND push_bit i 1 \<noteq> 0" using bit_mask_test [of byte i] by simp
    show ?thesis using "1.IH" "1.prems" i b by (subst first_bit.simps) simp
  qed
qed

section \<open>Sections\<close>

definition pg_free :: "pmm_page \<Rightarrow> bool" where
  "pg_free pg \<longleftrightarrow> pg_flags pg AND PAGE_FLAG_FREE \<noteq> 0"

text \<open>
  The frames of a section agree with its bitmap: a frame is free exactly when its bit is clear,
  and then nothing refers to it; the count of free frames is exact; no byte below the hint has a
  clear bit.
\<close>

definition sec_inv :: "pmm_section \<Rightarrow> bool" where
  "sec_inv s \<longleftrightarrow> PAGE_SIZE dvd s_start s \<and> PAGE_SIZE dvd s_size s \<and> 0 < s_start s \<and>
     s_total s < 2 ^ 32 \<and> (s_total s + 7) div 8 \<le> length (s_bmap s) \<and>
     length (s_pages s) = s_total s \<and> s_nfree s = free_count (s_bmap s) (s_total s) \<and>
     (\<forall>i < s_total s. pg_free (s_pages s ! i) = (\<not> pbits (s_bmap s) i)) \<and>
     (\<forall>i < s_total s. \<not> pbits (s_bmap s) i \<longrightarrow> pg_refcount (s_pages s ! i) = 0) \<and>
     (\<forall>j < s_ffb s. j < length (s_bmap s) \<longrightarrow> s_bmap s ! j = 0xFF)"

lemma flag_cleared: "(f AND NOT PAGE_FLAG_FREE) AND PAGE_FLAG_FREE = 0"
  by (rule bit_word_eqI) (simp add: bit_simps)

lemma PAGE_FLAG_FREE_nonzero [simp]: "PAGE_FLAG_FREE \<noteq> 0"
  by (simp add: PAGE_FLAG_FREE_def)

text \<open>A page handed out, and one given back.\<close>

definition taken :: "pmm_page \<Rightarrow> pmm_page" where
  "taken pg = pg\<lparr>pg_flags := pg_flags pg AND NOT PAGE_FLAG_FREE, pg_refcount := 1\<rparr>"

definition given :: "pmm_page \<Rightarrow> pmm_page" where
  "given pg = pg\<lparr>pg_refcount := 0, pg_flags := pg_flags pg OR PAGE_FLAG_FREE\<rparr>"

lemma pg_free_taken [simp]: "\<not> pg_free (taken pg)"
  by (simp add: pg_free_def taken_def flag_cleared)

lemma pg_free_given [simp]: "pg_free (given pg)"
  by (simp add: pg_free_def given_def)

lemma use_ffb_eq:
  assumes inv: "sec_inv s" and q: "lowest_clear (s_bmap s) q" "q < s_total s"
  shows "use_ffb s = Done (q div 8)"
proof -
  have l: "q div 8 < length (s_bmap s)"
    using page_in_bmap [OF q(2)] inv by (intro byte_index_lt) (simp add: sec_inv_def)
  have le: "s_ffb s \<le> q div 8"
  proof (rule ccontr)
    assume "\<not> s_ffb s \<le> q div 8"
    then have "s_bmap s ! (q div 8) = 0xFF" using inv l by (simp add: sec_inv_def)
    with lowest_clear_bytes(1) [OF q(1)] show False by simp
  qed
  show ?thesis
  proof (cases "s_ffb s = q div 8")
    case True
    with l lowest_clear_bytes(1) [OF q(1)] show ?thesis by (simp add: use_ffb_def aread_in)
  next
    case False
    with le have "s_bmap s ! s_ffb s = 0xFF" by (intro lowest_clear_bytes(2) [OF q(1)]) simp
    with le l recalc_from_eq [OF q l, of 0] show ?thesis by (simp add: use_ffb_def aread_in)
  qed
qed

lemma section_alloc_ok:
  assumes inv: "sec_inv s" and free: "0 < s_nfree s"
  obtains q s' where "section_alloc s = Done (s_start s + q * 4096, s')"
    and "q < s_total s" "lowest_clear (s_bmap s) q" "sec_inv s'"
    and "s_start s' = s_start s" "s_size s' = s_size s" "s_nfree s' = s_nfree s - 1"
    and "s_pages s' = (s_pages s)[q := taken (s_pages s ! q)]"
proof -
  let ?m = "s_bmap s"
  from free inv obtain i where "i < s_total s" "\<not> pbits ?m i"
    by (auto simp: sec_inv_def free_count_pos)
  then obtain q where q: "lowest_clear ?m q" "q < s_total s" by (rule lowest_clear_exists) (rule that)
  have ql: "q < 8 * length ?m" using page_in_bmap [OF q(2)] inv by (simp add: sec_inv_def)
  then have l: "q div 8 < length ?m" by (rule byte_index_lt)
  have nq: "\<not> pbits ?m q" using q by (simp add: lowest_clear_def)
  have below: "bit (?m ! (q div 8)) k" if "k < q mod 8" for k
  proof -
    have lt: "q div 8 * 8 + k < q" using that by (metis add_less_cancel_left div_mult_mod_eq)
    have k8: "k < 8" using that by (meson less_trans mod_less_divisor zero_less_numeral)
    have "(q div 8 * 8 + k) div 8 = q div 8" "(q div 8 * 8 + k) mod 8 = k"
      using k8 by simp_all
    moreover have "pbits ?m (q div 8 * 8 + k)" using q(1) lt by (simp add: lowest_clear_def)
    ultimately show ?thesis by (simp add: pbits_def)
  qed
  have fb: "first_bit (?m ! (q div 8)) (q div 8) (s_total s) 0 = Done (q mod 8)"
    by (rule first_bit_eq) (use nq below q(2) in \<open>simp_all add: pbits_def\<close>)
  define m where "m = ?m[q div 8 := ?m ! (q div 8) OR 2 ^ (q mod 8)]"
  have m: "pbits m j = (j = q \<or> pbits ?m j)" for j
    unfolding m_def by (rule pbits_set [OF ql])
  have lm: "length m = length ?m" by (simp add: m_def)
  have cnt: "s_nfree s = Suc (free_count m (s_total s))"
    using free_count_take [OF q(2) nq m] inv by (simp add: sec_inv_def)
  obtain f where f: "(if s_nfree s - 1 \<noteq> 0 then next_ffb m (s_total s) (q div 8) else Done (q div 8)) = Done f"
    and fb2: "\<And>j. j < f \<Longrightarrow> j < length m \<Longrightarrow> m ! j = 0xFF"
  proof (cases "s_nfree s - 1 \<noteq> 0")
    case True
    then have "0 < free_count m (s_total s)" using cnt by simp
    then obtain i where "i < s_total s" "\<not> pbits m i" by (auto simp: free_count_pos)
    then obtain r where r: "lowest_clear m r" "r < s_total s" by (rule lowest_clear_exists) (rule that)
    have "r div 8 < length m"
      using page_in_bmap [OF r(2)] inv by (intro byte_index_lt) (simp add: sec_inv_def m_def)
    moreover have "q \<le> r" using r q m by (metis lowest_clear_def leI)
    ultimately have "next_ffb m (s_total s) (q div 8) = Done (r div 8)"
      by (intro next_ffb_eq [OF r]) (simp_all add: div_le_mono)
    with True lowest_clear_bytes(2) [OF r(1)] show ?thesis by (intro that [of "r div 8"]) simp_all
  next
    case False
    have "m ! j = 0xFF" if "j < q div 8" for j
      using lowest_clear_bytes(2) [OF q(1) that] that by (simp add: m_def)
    with False show ?thesis by (intro that [of "q div 8"]) simp_all
  qed
  define s' where "s' = s\<lparr>s_bmap := m, s_ffb := f, s_nfree := s_nfree s - 1,
      s_pages := (s_pages s)[q := taken (s_pages s ! q)]\<rparr>"
  have pg: "pg_free (s_pages s ! q)" "pg_refcount (s_pages s ! q) = 0" "q < length (s_pages s)"
    using inv q(2) nq by (simp_all add: sec_inv_def)
  have blk: "32768 * (q div 8) + q mod 8 * 4096 = q * 4096"
    using div_mult_mod_eq [of q 8] by linarith
  have run: "section_alloc s = Done (s_start s + q * 4096, s')"
    using l fb f pg blk
    by (simp add: section_alloc_def use_ffb_eq [OF inv q] aread_in awrite_in Let_def
        pg_free_def taken_def s'_def flip: m_def split: if_splits)
  have "sec_inv s'"
    using inv cnt fb2 nq pg(3) lm unfolding sec_inv_def s'_def
    by (auto simp: nth_list_update m)
  with run q show ?thesis by (intro that [of q s']) (simp_all add: s'_def)
qed

lemma section_release_ok:
  assumes inv: "sec_inv s" and off: "off < s_total s" and r: "0 < pg_refcount (s_pages s ! off)"
  obtains z s' where "section_release s off = Done (z, s')" and "sec_inv s'"
    and "s_start s' = s_start s" "s_size s' = s_size s"
    and "z \<longleftrightarrow> pg_refcount (s_pages s ! off) = 1"
    and "s_nfree s' = (if z then s_nfree s + 1 else s_nfree s)"
    and "s_pages s' = (s_pages s)[off := (if z then given (s_pages s ! off)
      else (s_pages s ! off)\<lparr>pg_refcount := pg_refcount (s_pages s ! off) - 1\<rparr>)]"
proof -
  let ?pg = "s_pages s ! off" and ?m = "s_bmap s"
  have len: "off < length (s_pages s)" using inv off by (simp add: sec_inv_def)
  have ol: "off < 8 * length ?m" using page_in_bmap [OF off] inv by (simp add: sec_inv_def)
  have used: "pbits ?m off" using inv off r by (auto simp: sec_inv_def)
  have small: "off mod 2 ^ 32 = off" using inv off by (simp add: sec_inv_def)
  show ?thesis
  proof (cases "pg_refcount ?pg = 1")
    case True
    define m where "m = ?m[off div 8 := ?m ! (off div 8) AND NOT (2 ^ (off mod 8))]"
    have m: "pbits m j = (j \<noteq> off \<and> pbits ?m j)" for j unfolding m_def by (rule pbits_clear [OF ol])
    have lm: "length m = length ?m" by (simp add: m_def)
    have cnt: "free_count m (s_total s) = Suc (s_nfree s)"
      using free_count_give [OF off used m] inv by (simp add: sec_inv_def)
    define f where "f = (if off div 8 < s_ffb s then off div 8 else s_ffb s)"
    have hint: "m ! j = 0xFF" if "j < f" "j < length m" for j
      using that inv lm by (auto simp: f_def m_def sec_inv_def split: if_splits)
    define s' where "s' = s\<lparr>s_pages := (s_pages s)[off := given ?pg], s_bmap := m, s_ffb := f,
        s_nfree := s_nfree s + 1\<rparr>"
    have "section_release s off = Done (True, s')"
      using True len small
      by (simp add: section_release_def aread_in awrite_in bmap_clear_eq [OF ol] given_def s'_def
          f_def flip: m_def)
    moreover have "sec_inv s'"
      using inv cnt hint lm len unfolding sec_inv_def s'_def
      by (auto simp: nth_list_update m given_def pg_free_def)
    ultimately show ?thesis using True by (intro that [of True s']) (simp_all add: s'_def)
  next
    case False
    define s' where "s' = s\<lparr>s_pages := (s_pages s)[off := ?pg\<lparr>pg_refcount := pg_refcount ?pg - 1\<rparr>]\<rparr>"
    have "section_release s off = Done (False, s')"
      using False r len by (simp add: section_release_def aread_in awrite_in s'_def)
    moreover have "sec_inv s'"
      using inv used len unfolding sec_inv_def s'_def
      by (auto simp: nth_list_update pg_free_def)
    ultimately show ?thesis using False by (intro that [of False s']) (simp_all add: s'_def)
  qed
qed

lemma section_release_unreferenced:
  assumes "sec_inv s" "off < s_total s" "pg_refcount (s_pages s ! off) = 0"
  shows "section_release s off = Panic"
  using assms by (simp add: section_release_def aread_in sec_inv_def)

lemma section_retain_ok:
  assumes inv: "sec_inv s" and off: "off < s_total s" and used: "\<not> pg_free (s_pages s ! off)"
  obtains s' where "section_retain s off = Done s'" and "sec_inv s'"
    and "s_start s' = s_start s" "s_size s' = s_size s" "s_nfree s' = s_nfree s"
    and "s_pages s' = (s_pages s)[off :=
      (s_pages s ! off)\<lparr>pg_refcount := pg_refcount (s_pages s ! off) + 1\<rparr>]"
proof -
  let ?pg = "s_pages s ! off"
  define s' where "s' = s\<lparr>s_pages := (s_pages s)[off := ?pg\<lparr>pg_refcount := pg_refcount ?pg + 1\<rparr>]\<rparr>"
  have len: "off < length (s_pages s)" using inv off by (simp add: sec_inv_def)
  have "section_retain s off = Done s'"
    using len by (simp add: section_retain_def aread_in awrite_in s'_def)
  moreover have "sec_inv s'"
    using inv used off len unfolding sec_inv_def s'_def
    by (auto simp: nth_list_update pg_free_def)
  ultimately show ?thesis by (intro that [of s']) (simp_all add: s'_def)
qed

section \<open>Runs of pages\<close>

definition free_run :: "pmm_section \<Rightarrow> nat \<Rightarrow> nat \<Rightarrow> bool" where
  "free_run s n q \<longleftrightarrow> q + n \<le> s_total s \<and> (\<forall>k < n. \<not> pbits (s_bmap s) (q + k))"

lemma free_run_first: "free_run s n q \<Longrightarrow> 0 < n \<Longrightarrow> \<not> pbits (s_bmap s) q"
  by (metis add.right_neutral free_run_def)

lemma run_free_eq:
  "st + n \<le> 8 * length m \<Longrightarrow> run_free m st n = Done (\<forall>k < n. \<not> pbits m (st + k))"
proof (induction n arbitrary: st)
  case 0
  then show ?case by simp
next
  case (Suc n)
  have "(\<forall>k < Suc n. \<not> pbits m (st + k)) \<longleftrightarrow> \<not> pbits m st \<and> (\<forall>k < n. \<not> pbits m (st + 1 + k))"
    by (auto simp: less_Suc_eq_0_disj)
  with Suc show ?case by (simp add: bmap_test_pbits)
qed

lemma run_take_eq:
  assumes "st + n \<le> 8 * length m" "st + n \<le> length pages"
  shows "\<exists>m' pages'. run_take m pages st n = Done (m', pages') \<and> length m' = length m \<and>
    length pages' = length pages \<and>
    (\<forall>j. pbits m' j = (st \<le> j \<and> j < st + n \<or> pbits m j)) \<and>
    (\<forall>j < length pages. pages' ! j = (if st \<le> j \<and> j < st + n then taken (pages ! j) else pages ! j))"
  using assms
proof (induction n arbitrary: m pages st)
  case 0
  then show ?case by auto
next
  case (Suc n)
  define m1 where "m1 = m[st div 8 := m ! (st div 8) OR 2 ^ (st mod 8)]"
  define p1 where "p1 = pages[st := taken (pages ! st)]"
  have sl: "st < 8 * length m" using Suc.prems by simp
  have m1: "pbits m1 j = (j = st \<or> pbits m j)" for j unfolding m1_def by (rule pbits_set [OF sl])
  have step: "run_take m pages st (Suc n) = run_take m1 p1 (st + 1) n"
    using Suc.prems by (simp add: bmap_set_eq [OF sl] aread_in awrite_in m1_def p1_def taken_def)
  have "st + 1 + n \<le> 8 * length m1" "st + 1 + n \<le> length p1"
    using Suc.prems by (simp_all add: m1_def p1_def)
  from Suc.IH [OF this] obtain m' pages' where r: "run_take m1 p1 (st + 1) n = Done (m', pages')"
    "length m' = length m1" "length pages' = length p1"
    and b: "\<And>j. pbits m' j = (st + 1 \<le> j \<and> j < st + 1 + n \<or> pbits m1 j)"
    and g: "\<And>j. j < length p1 \<Longrightarrow>
      pages' ! j = (if st + 1 \<le> j \<and> j < st + 1 + n then taken (p1 ! j) else p1 ! j)" by blast
  have "pbits m' j = (st \<le> j \<and> j < st + Suc n \<or> pbits m j)" for j
    using b [of j] m1 [of j] by auto
  moreover have "pages' ! j = (if st \<le> j \<and> j < st + Suc n then taken (pages ! j) else pages ! j)"
    if "j < length pages" for j
    using g [of j] that by (cases "j = st") (auto simp: p1_def)
  ultimately show ?case unfolding step using r by (simp add: m1_def p1_def)
qed

lemma skip_full_ok:
  assumes "bcount \<le> length m"
  shows "\<exists>f. skip_full m bcount ffb = Done f \<and> (\<forall>j. ffb \<le> j \<longrightarrow> j < f \<longrightarrow> m ! j = 0xFF)"
  using assms
proof (induction m bcount ffb rule: skip_full.induct)
  case (1 m bcount ffb)
  show ?case
  proof (cases "ffb < bcount \<and> m ! ffb = 0xFF")
    case True
    then obtain f where f: "skip_full m bcount (ffb + 1) = Done f"
      "\<forall>j. ffb + 1 \<le> j \<longrightarrow> j < f \<longrightarrow> m ! j = 0xFF"
      using "1.IH" [of "m ! ffb"] "1.prems" by (auto simp: aread_in)
    have "m ! j = 0xFF" if "ffb \<le> j" "j < f" for j
      using f(2) True that by (cases "j = ffb") auto
    with f(1) True "1.prems" show ?thesis
      by (subst skip_full.simps) (simp add: aread_in)
  next
    case False
    with "1.prems" show ?thesis
      by (subst skip_full.simps) (auto simp: aread_in)
  qed
qed

lemma free_count_run:
  assumes "q + n \<le> t" "\<And>k. k < n \<Longrightarrow> \<not> pbits m (q + k)"
    "\<And>j. pbits m' j = (q \<le> j \<and> j < q + n \<or> pbits m j)"
  shows "free_count m t = free_count m' t + n"
proof -
  have free: "\<not> pbits m i" if "q \<le> i" "i < q + n" for i
  proof -
    have "i - q < n" using that by linarith
    then have "\<not> pbits m (q + (i - q))" by (rule assms(2))
    then show ?thesis using that by simp
  qed
  have "{i. i < t \<and> \<not> pbits m i} = {i. i < t \<and> \<not> pbits m' i} \<union> {q..<q + n}"
    using assms(1) free by (auto simp only: assms(3) set_eq_iff Un_iff mem_Collect_eq atLeastLessThan_iff)
  moreover have "{i. i < t \<and> \<not> pbits m' i} \<inter> {q..<q + n} = {}" by (auto simp: assms(3))
  ultimately show ?thesis by (simp add: free_count_card card_Un_disjoint)
qed

lemma free_run_count:
  assumes "free_run s n q" "sec_inv s"
  shows "n \<le> s_nfree s"
proof -
  have "{q..<q + n} \<subseteq> {i. i < s_total s \<and> \<not> pbits (s_bmap s) i}"
  proof
    fix i assume "i \<in> {q..<q + n}"
    then show "i \<in> {i. i < s_total s \<and> \<not> pbits (s_bmap s) i}"
      using assms(1) unfolding free_run_def by (auto dest: spec [where x = "i - q"])
  qed
  then have "card {q..<q + n} \<le> card {i. i < s_total s \<and> \<not> pbits (s_bmap s) i}"
    by (intro card_mono) auto
  then show ?thesis using assms(2) by (simp add: sec_inv_def free_count_card)
qed

lemma taken_run_inv:
  assumes inv: "sec_inv s" and run: "free_run s n q"
  obtains s' where "run_take (s_bmap s) (s_pages s) q n = Done (s_bmap s', s_pages s')"
    and "skip_full (s_bmap s') ((s_total s + 7) div 8) (s_ffb s) = Done (s_ffb s')"
    and "s' = s\<lparr>s_bmap := s_bmap s', s_pages := s_pages s', s_nfree := s_nfree s - n, s_ffb := s_ffb s'\<rparr>"
    and "sec_inv s'" and "length (s_pages s') = length (s_pages s)"
    and "\<And>j. j < s_total s \<Longrightarrow> s_pages s' ! j =
      (if q \<le> j \<and> j < q + n then taken (s_pages s ! j) else s_pages s ! j)"
proof -
  have bl: "(s_total s + 7) div 8 \<le> length (s_bmap s)" and pl: "length (s_pages s) = s_total s"
    using inv by (simp_all add: sec_inv_def)
  have le: "q + n \<le> s_total s" using run by (simp add: free_run_def)
  then have "q + n \<le> 8 * length (s_bmap s)" "q + n \<le> length (s_pages s)"
    using bl pl by linarith+
  from run_take_eq [OF this] obtain m' p' where
    r: "run_take (s_bmap s) (s_pages s) q n = Done (m', p')" "length m' = length (s_bmap s)"
      "length p' = length (s_pages s)"
    and b: "\<And>j. pbits m' j = (q \<le> j \<and> j < q + n \<or> pbits (s_bmap s) j)"
    and g: "\<And>j. j < length (s_pages s) \<Longrightarrow>
      p' ! j = (if q \<le> j \<and> j < q + n then taken (s_pages s ! j) else s_pages s ! j)" by blast
  from skip_full_ok [of "(s_total s + 7) div 8" m' "s_ffb s"] bl r(2) obtain f where
    f: "skip_full m' ((s_total s + 7) div 8) (s_ffb s) = Done f"
      "\<And>j. s_ffb s \<le> j \<Longrightarrow> j < f \<Longrightarrow> m' ! j = 0xFF" by auto
  define s' where "s' = s\<lparr>s_bmap := m', s_pages := p', s_nfree := s_nfree s - n, s_ffb := f\<rparr>"
  have ff: "m' ! j = 0xFF" if "s_bmap s ! j = 0xFF" for j
    using that b by (auto simp: byte_full_pbits)
  have hint: "m' ! j = 0xFF" if "j < f" "j < length m'" for j
  proof (cases "j < s_ffb s")
    case True
    with inv that r(2) show ?thesis by (intro ff) (simp add: sec_inv_def)
  next
    case False
    with f(2) that show ?thesis by simp
  qed
  have cnt: "free_count m' (s_total s) = s_nfree s - n"
    using free_count_run [OF le _ b] run inv by (simp add: free_run_def sec_inv_def)
  have "sec_inv s'"
    using inv r(2,3) cnt hint g b unfolding sec_inv_def s'_def by auto
  then show ?thesis
    using r f(1) g pl by (intro that [of s']) (simp_all add: s'_def)
qed

text \<open>What the search from \<open>st\<close> on returns.\<close>

definition search_result :: "pmm_section \<Rightarrow> nat \<Rightarrow> nat \<Rightarrow> (nat \<times> pmm_section) outcome \<Rightarrow> bool" where
  "search_result s n st r \<longleftrightarrow>
     (\<forall>q \<ge> st. \<not> free_run s n q) \<and> r = Done (0, s) \<or>
     (\<exists>q s'. st \<le> q \<and> free_run s n q \<and> (\<forall>p. st \<le> p \<longrightarrow> p < q \<longrightarrow> \<not> free_run s n p) \<and>
       r = Done (s_start s + q * PAGE_SIZE, s') \<and> sec_inv s' \<and>
       s_start s' = s_start s \<and> s_size s' = s_size s \<and> s_nfree s' = s_nfree s - n \<and>
       (\<forall>j < s_total s. s_pages s' ! j =
         (if q \<le> j \<and> j < q + n then taken (s_pages s ! j) else s_pages s ! j)))"

lemma search_result_skip:
  assumes "search_result s n st' r" "st \<le> st'" "\<And>q. st \<le> q \<Longrightarrow> q < st' \<Longrightarrow> \<not> free_run s n q"
  shows "search_result s n st r"
proof (cases "\<forall>q \<ge> st'. \<not> free_run s n q")
  case True
  then have "\<forall>q \<ge> st. \<not> free_run s n q" using assms(3) by (meson not_less)
  moreover have "r = Done (0, s)" using True assms(1) unfolding search_result_def by blast
  ultimately show ?thesis by (simp add: search_result_def)
next
  case False
  with assms(1) obtain q s' where q: "st' \<le> q" "\<forall>p. st' \<le> p \<longrightarrow> p < q \<longrightarrow> \<not> free_run s n p"
    and r: "free_run s n q" "r = Done (s_start s + q * PAGE_SIZE, s')" "sec_inv s'"
      "s_start s' = s_start s" "s_size s' = s_size s" "s_nfree s' = s_nfree s - n"
      "\<forall>j < s_total s. s_pages s' ! j =
        (if q \<le> j \<and> j < q + n then taken (s_pages s ! j) else s_pages s ! j)"
    unfolding search_result_def by blast
  have "st \<le> q" "\<forall>p. st \<le> p \<longrightarrow> p < q \<longrightarrow> \<not> free_run s n p"
    using q assms(2,3) by (simp, meson not_less)
  with r show ?thesis unfolding search_result_def by blast
qed

lemma try_from_ok:
  assumes "sec_inv s" "0 < n"
  shows "search_result s n st (try_from s n st)"
  using assms
proof (induction s n st rule: try_from.induct)
  case (1 s n st)
  let ?b = "(s_total s + 7) div 8"
  have bl: "?b \<le> length (s_bmap s)" using "1.prems" by (simp add: sec_inv_def)
  define full where "full \<longleftrightarrow> st mod 8 = 0 \<and> s_bmap s ! (st div 8) = 0xFF"
  have test: "(if st mod 8 = 0 then obind (aread (s_bmap s) (st div 8)) (\<lambda>b. Done (b = 0xFF))
      else Done False) = Done full" if "st div 8 < ?b"
    using that bl by (simp add: full_def aread_in)
  have unfold: "try_from s n st = (if full then try_from s n (st + 8)
      else if st + n > s_total s then Done (0, s)
      else obind (run_free (s_bmap s) st n) (\<lambda>ok.
        if ok then
          obind (run_take (s_bmap s) (s_pages s) st n) (\<lambda>(m, pages).
          obind (skip_full m ?b (s_ffb s)) (\<lambda>ffb'.
          Done (s_start s + st * PAGE_SIZE,
                s\<lparr>s_bmap := m, s_pages := pages, s_nfree := s_nfree s - n, s_ffb := ffb'\<rparr>)))
        else try_from s n (st + 1)))" if "st div 8 < ?b"
    using that by (subst try_from.simps) (simp only: Let_def if_True test [OF that] obind.simps)
  show ?case
  proof (cases "st div 8 < ?b")
    case False
    then have "s_total s \<le> st" by (simp add: not_less)
    then have "\<not> free_run s n q" if "st \<le> q" for q
      using that "1.prems" by (auto simp: free_run_def)
    moreover have "try_from s n st = Done (0, s)" using False by (subst try_from.simps) (simp add: Let_def)
    ultimately show ?thesis by (simp add: search_result_def)
  next
    case inside: True
    consider "full" | "\<not> full" "st + n > s_total s" | "\<not> full" "st + n \<le> s_total s" by linarith
    then show ?thesis
    proof cases
      case 1
      then have st: "st mod 8 = 0" "s_bmap s ! (st div 8) = 0xFF" by (simp_all add: full_def)
      have "\<not> free_run s n q" if q: "st \<le> q" "q < st + 8" for q
      proof -
        have "q div 8 = st div 8"
          using q st(1) by (intro div_nat_eqI) (auto simp: mod_eq_0_iff_dvd dvd_mult_div_cancel mult.commute)
        then have "pbits (s_bmap s) q" using st(2) by (simp add: byte_full_pbits)
        then show ?thesis using free_run_first [OF _ "1.prems"(2), of s q] by auto
      qed
      moreover have "search_result s n (st + 8) (try_from s n (st + 8))"
        using "1.IH"(1) [OF refl refl inside test [OF inside]] 1 "1.prems" by simp
      ultimately show ?thesis
        unfolding unfold [OF inside] using 1 by (auto intro: search_result_skip)
    next
      case 2
      then have "try_from s n st = Done (0, s)" by (simp add: unfold [OF inside])
      moreover have "\<not> free_run s n q" if "st \<le> q" for q
        using that 2 by (simp add: free_run_def)
      ultimately show ?thesis by (simp add: search_result_def)
    next
      case 3
      have ok: "run_free (s_bmap s) st n = Done (free_run s n st)"
        using 3 bl by (subst run_free_eq) (auto simp: free_run_def)
      show ?thesis
      proof (cases "free_run s n st")
        case True
        obtain s' where s': "run_take (s_bmap s) (s_pages s) st n = Done (s_bmap s', s_pages s')"
          "skip_full (s_bmap s') ?b (s_ffb s) = Done (s_ffb s')"
          "s' = s\<lparr>s_bmap := s_bmap s', s_pages := s_pages s', s_nfree := s_nfree s - n, s_ffb := s_ffb s'\<rparr>"
          "sec_inv s'" "length (s_pages s') = length (s_pages s)"
          "\<And>j. j < s_total s \<Longrightarrow> s_pages s' ! j =
            (if st \<le> j \<and> j < st + n then taken (s_pages s ! j) else s_pages s ! j)"
          by (rule taken_run_inv [OF "1.prems"(1) True]) (rule that)
        have "try_from s n st = Done (s_start s + st * PAGE_SIZE, s')"
          using 3 ok True s'(1,2) s'(3) [symmetric] by (simp add: unfold [OF inside])
        moreover have "s_start s' = s_start s" "s_size s' = s_size s" "s_nfree s' = s_nfree s - n"
          by (subst s'(3), simp)+
        ultimately show ?thesis unfolding search_result_def
          using True s'(4,6) by (intro disjI2 exI [of _ st] exI [of _ s']) simp
      next
        case False
        have "search_result s n (st + 1) (try_from s n (st + 1))"
          using "1.IH"(2) [OF refl refl inside test [OF inside]] 3 ok False "1.prems" by simp
        then have "search_result s n st (try_from s n (st + 1))"
          by (rule search_result_skip) (use False in \<open>auto simp: less_Suc_eq dest: le_antisym\<close>)
        then show ?thesis using 3 ok False by (simp add: unfold [OF inside])
      qed
    qed
  qed
qed

lemma pmm_try_section_ok:
  assumes inv: "sec_inv s" and n: "0 < n"
  obtains (none) s' where "\<And>q. \<not> free_run s n q" "pmm_try_section s n = Done (0, s')" "sec_inv s'"
      "s_start s' = s_start s" "s_size s' = s_size s" "s_pages s' = s_pages s" "s_nfree s' = s_nfree s"
  | (hit) q s' where "free_run s n q" "\<And>p. p < q \<Longrightarrow> \<not> free_run s n p"
      "pmm_try_section s n = Done (s_start s + q * PAGE_SIZE, s')" "sec_inv s'"
      "s_start s' = s_start s" "s_size s' = s_size s" "s_nfree s' = s_nfree s - n"
      "\<And>j. j < s_total s \<Longrightarrow> s_pages s' ! j =
        (if q \<le> j \<and> j < q + n then taken (s_pages s ! j) else s_pages s ! j)"
proof (cases "s_nfree s < n")
  case True
  then have "\<not> free_run s n q" for q using free_run_count [OF _ inv] by fastforce
  with True inv show ?thesis by (intro none [of s]) (simp_all add: pmm_try_section_def)
next
  case False
  with n have "0 < s_nfree s" by simp
  then obtain i where "i < s_total s" "\<not> pbits (s_bmap s) i"
    using inv by (auto simp: sec_inv_def free_count_pos)
  then obtain q where q: "lowest_clear (s_bmap s) q" "q < s_total s"
    by (rule lowest_clear_exists) (rule that)
  define s1 where "s1 = s\<lparr>s_ffb := q div 8\<rparr>"
  have inv1: "sec_inv s1"
    using inv lowest_clear_bytes(2) [OF q(1)] by (simp add: sec_inv_def s1_def)
  have run: "free_run s1 n p = free_run s n p" for p by (simp add: free_run_def s1_def)
  have "\<not> (s_total s + 7) div 8 \<le> q div 8" using q(2) by linarith
  then have e: "pmm_try_section s n = try_from s1 n (q div 8 * 8)"
    using False by (simp add: pmm_try_section_def use_ffb_eq [OF inv q] s1_def)
  have "\<not> free_run s1 n p" if "p < q div 8 * 8" for p
  proof -
    have "p < q" using that by (meson div_times_less_eq_dividend less_le_trans)
    then have "pbits (s_bmap s) p" using q(1) by (simp add: lowest_clear_def)
    then show ?thesis using free_run_first [OF _ n, of s p] run by auto
  qed
  then have "search_result s1 n 0 (pmm_try_section s n)"
    unfolding e by (intro search_result_skip [OF try_from_ok [OF inv1 n]]) auto
  then show ?thesis unfolding search_result_def run
  proof (elim disjE exE conjE)
    assume "\<forall>q \<ge> 0. \<not> free_run s n q" "pmm_try_section s n = Done (0, s1)"
    with inv1 show ?thesis by (intro none [of s1]) (auto simp: s1_def)
  next
    fix q s'
    assume h: "free_run s n q" "\<forall>p. 0 \<le> p \<longrightarrow> p < q \<longrightarrow> \<not> free_run s n p"
      "pmm_try_section s n = Done (s_start s1 + q * PAGE_SIZE, s')" "sec_inv s'"
      "s_start s' = s_start s1" "s_size s' = s_size s1" "s_nfree s' = s_nfree s1 - n"
      "\<forall>j < s_total s1. s_pages s' ! j =
        (if q \<le> j \<and> j < q + n then taken (s_pages s1 ! j) else s_pages s1 ! j)"
    then show ?thesis by (intro hit [of q s']) (simp_all add: s1_def)
  qed
qed

section \<open>The zone\<close>

text \<open>The page descriptor that an address belongs to.\<close>

fun frame :: "pmm_section list \<Rightarrow> nat \<Rightarrow> pmm_page option" where
  "frame [] x = None"
| "frame (s # ss) x =
     (if section_has s x then Some (s_pages s ! ((x - s_start s) div PAGE_SIZE)) else frame ss x)"

definition apart :: "pmm_section \<Rightarrow> pmm_section \<Rightarrow> bool" where
  "apart s t \<longleftrightarrow> s_start s + s_size s \<le> s_start t \<or> s_start t + s_size t \<le> s_start s"

definition zone_inv :: "pmm_section list \<Rightarrow> bool" where
  "zone_inv z \<longleftrightarrow> (\<forall>s \<in> set z. sec_inv s) \<and> sorted_wrt apart z"

abbreviation same_page :: "nat \<Rightarrow> nat \<Rightarrow> bool" where
  "same_page x y \<equiv> x div PAGE_SIZE = y div PAGE_SIZE"

lemma PAGE_SIZE_pos [simp]: "0 < PAGE_SIZE" "PAGE_SIZE \<noteq> 0"
  by (simp_all add: PAGE_SIZE_def)

lemma section_has_page:
  assumes "sec_inv s"
  shows "section_has s x \<longleftrightarrow> s_start s div PAGE_SIZE \<le> x div PAGE_SIZE \<and>
    x div PAGE_SIZE < s_start s div PAGE_SIZE + s_total s"
proof -
  from assms obtain b n where b: "s_start s = PAGE_SIZE * b" "s_size s = PAGE_SIZE * n"
    by (auto simp: sec_inv_def elim!: dvdE)
  have "section_has s x \<longleftrightarrow> b * PAGE_SIZE \<le> x \<and> x < (b + n) * PAGE_SIZE"
    by (auto simp: section_has_def b algebra_simps)
  also have "\<dots> \<longleftrightarrow> b \<le> x div PAGE_SIZE \<and> x div PAGE_SIZE < b + n"
    by (simp add: less_eq_div_iff_mult_less_eq div_less_iff_less_mult PAGE_SIZE_def)
  finally show ?thesis by (simp add: b PAGE_SIZE_def)
qed

lemma page_offset:
  assumes "sec_inv s"
  shows "(x - s_start s) div PAGE_SIZE = x div PAGE_SIZE - s_start s div PAGE_SIZE"
proof -
  from assms obtain b where b: "s_start s = b * PAGE_SIZE"
    by (auto simp: sec_inv_def elim!: dvdE)
  have "(x - b * PAGE_SIZE) div PAGE_SIZE = x div PAGE_SIZE - b"
  proof (cases "b * PAGE_SIZE \<le> x")
    case True
    then obtain y where "x = b * PAGE_SIZE + y" using le_Suc_ex by blast
    then show ?thesis by (simp add: PAGE_SIZE_def)
  next
    case False
    then have "x div PAGE_SIZE < b" by (simp add: div_less_iff_less_mult PAGE_SIZE_def)
    with False show ?thesis by simp
  qed
  then show ?thesis by (simp add: b PAGE_SIZE_def)
qed

lemma apart_page:
  assumes "sec_inv s" "sec_inv t" "apart s t" "section_has t a" "same_page x a"
  shows "\<not> section_has s x"
proof -
  have "s_start s div PAGE_SIZE + s_total s \<le> s_start t div PAGE_SIZE \<or>
      s_start t div PAGE_SIZE + s_total t \<le> s_start s div PAGE_SIZE"
    using assms(1-3) by (auto simp: apart_def sec_inv_def PAGE_SIZE_def elim!: dvdE)
  with assms show ?thesis by (auto simp: section_has_page)
qed

lemma frame_Some_section: "frame z a = Some pg \<Longrightarrow> \<exists>s \<in> set z. section_has s a"
  by (induction z) (auto split: if_splits)

lemma frame_None_section: "frame z a = None \<longleftrightarrow> (\<forall>s \<in> set z. \<not> section_has s a)"
  by (induction z) auto

lemma frame_not_head:
  assumes "zone_inv (s # ss)" "frame ss a = Some pg" "same_page x a"
  shows "\<not> section_has s x"
  using assms apart_page [of s] frame_Some_section [OF assms(2)]
  by (auto simp: zone_inv_def)

lemma zone_inv_Cons:
  "zone_inv (s # ss) \<longleftrightarrow> sec_inv s \<and> (\<forall>t \<in> set ss. apart s t) \<and> zone_inv ss"
  by (auto simp: zone_inv_def)

text \<open>Replacing a section by one at the same place.\<close>

lemma zone_inv_head:
  "zone_inv (s # ss) \<Longrightarrow> sec_inv s' \<Longrightarrow> s_start s' = s_start s \<Longrightarrow> s_size s' = s_size s \<Longrightarrow>
   zone_inv (s' # ss)"
  by (simp add: zone_inv_Cons apart_def)

definition placed :: "pmm_section list \<Rightarrow> (nat \<times> nat) list" where
  "placed z = map (\<lambda>s. (s_start s, s_size s)) z"

lemma zone_inv_tail:
  assumes "zone_inv (s # ss)" "zone_inv ss'" "placed ss' = placed ss"
  shows "zone_inv (s # ss')"
proof -
  have "apart s t" if "t \<in> set ss'" for t
  proof -
    have "(s_start t, s_size t) \<in> set (placed ss')" using that by (auto simp: placed_def)
    then obtain t' where "t' \<in> set ss" "s_start t = s_start t'" "s_size t = s_size t'"
      unfolding assms(3) by (auto simp: placed_def)
    with assms(1) show ?thesis by (auto simp: zone_inv_Cons apart_def)
  qed
  with assms show ?thesis by (simp add: zone_inv_Cons)
qed

text \<open>The effect of changing one descriptor of the first section, on all addresses.\<close>

lemma frame_head_update:
  assumes "sec_inv s" "off < s_total s" "s_start s' = s_start s" "s_size s' = s_size s"
    "s_pages s' = (s_pages s)[off := pg]"
  shows "frame (s' # ss) = (\<lambda>x. if same_page x (s_start s + off * PAGE_SIZE) then Some pg
    else frame (s # ss) x)"
proof
  fix x
  have "length (s_pages s) = s_total s" using assms(1) by (simp add: sec_inv_def)
  moreover have "(s_start s + off * PAGE_SIZE) div PAGE_SIZE = s_start s div PAGE_SIZE + off"
    by (simp add: PAGE_SIZE_def)
  moreover have "section_has s' x = section_has s x" using assms(3,4) by (simp add: section_has_def)
  ultimately show "frame (s' # ss) x = (if same_page x (s_start s + off * PAGE_SIZE) then Some pg
      else frame (s # ss) x)"
    using assms by (auto simp: section_has_page page_offset nth_list_update)
qed

lemma frame_head_off:
  assumes "sec_inv s" "off < s_total s"
  shows "frame (s # ss) (s_start s + off * PAGE_SIZE) = Some (s_pages s ! off)"
proof -
  have "(s_start s + off * PAGE_SIZE) div PAGE_SIZE = s_start s div PAGE_SIZE + off"
    by (simp add: PAGE_SIZE_def)
  with assms show ?thesis by (simp add: section_has_page page_offset)
qed

lemma frame_tail_update:
  assumes "zone_inv (s # ss)" "frame ss a = Some pg0"
    "frame ss' = (\<lambda>x. if same_page x a then Some pg else frame ss x)"
  shows "frame (s # ss') = (\<lambda>x. if same_page x a then Some pg else frame (s # ss) x)"
  using assms frame_not_head [OF assms(1,2)] by (auto simp: fun_eq_iff)

definition zone_free :: "pmm_section list \<Rightarrow> nat" where
  "zone_free z = sum_list (map s_nfree z)"

lemma zone_alloc_ok:
  assumes "zone_inv z" "0 < zone_free z"
  shows "\<exists>a z' pg. zone_alloc z = Done (a, z') \<and> zone_inv z' \<and> placed z' = placed z \<and>
    PAGE_SIZE dvd a \<and> 0 < a \<and> frame z a = Some pg \<and> pg_free pg \<and> pg_refcount pg = 0 \<and>
    frame z' = (\<lambda>x. if same_page x a then Some (taken pg) else frame z x) \<and>
    zone_free z = zone_free z' + 1"
  using assms
proof (induction z)
  case Nil
  then show ?case by (simp add: zone_free_def)
next
  case (Cons s ss)
  have inv: "sec_inv s" "zone_inv ss" using Cons.prems(1) by (simp_all add: zone_inv_Cons)
  show ?case
  proof (cases "s_nfree s = 0")
    case True
    with Cons.prems(2) have "0 < zone_free ss" by (simp add: zone_free_def)
    from Cons.IH [OF inv(2) this] obtain a ss' pg where
      a: "zone_alloc ss = Done (a, ss')" "zone_inv ss'" "placed ss' = placed ss" "PAGE_SIZE dvd a" "0 < a"
        "frame ss a = Some pg" "pg_free pg" "pg_refcount pg = 0"
        "frame ss' = (\<lambda>x. if same_page x a then Some (taken pg) else frame ss x)"
        "zone_free ss = zone_free ss' + 1" by blast
    have "zone_inv (s # ss')" by (rule zone_inv_tail [OF Cons.prems(1) a(2,3)])
    moreover have "frame (s # ss) a = Some pg" using frame_not_head [OF Cons.prems(1) a(6), of a] a(6) by simp
    moreover have "frame (s # ss') = (\<lambda>x. if same_page x a then Some (taken pg) else frame (s # ss) x)"
      by (rule frame_tail_update [OF Cons.prems(1) a(6,9)])
    ultimately show ?thesis using True a
      by (intro exI [of _ a] exI [of _ "s # ss'"] exI [of _ pg]) (simp add: placed_def zone_free_def)
  next
    case False
    then have "0 < s_nfree s" by simp
    then obtain q s' where q: "section_alloc s = Done (s_start s + q * 4096, s')"
      "q < s_total s" "lowest_clear (s_bmap s) q" "sec_inv s'"
      "s_start s' = s_start s" "s_size s' = s_size s" "s_nfree s' = s_nfree s - 1"
      "s_pages s' = (s_pages s)[q := taken (s_pages s ! q)]"
      by (rule section_alloc_ok [OF inv(1)]) (rule that)
    define a where "a = s_start s + q * PAGE_SIZE"
    have "zone_inv (s' # ss)" by (rule zone_inv_head [OF Cons.prems(1) q(4-6)])
    moreover have "frame (s # ss) a = Some (s_pages s ! q)"
      unfolding a_def by (rule frame_head_off [OF inv(1) q(2)])
    moreover have "frame (s' # ss) = (\<lambda>x. if same_page x a then Some (taken (s_pages s ! q)) else frame (s # ss) x)"
      unfolding a_def by (rule frame_head_update [OF inv(1) q(2,5,6,8)])
    moreover have "pg_free (s_pages s ! q)" "pg_refcount (s_pages s ! q) = 0"
      using inv(1) q(2,3) by (simp_all add: sec_inv_def lowest_clear_def)
    moreover have "PAGE_SIZE dvd a" "0 < a" using inv(1) by (simp_all add: sec_inv_def a_def)
    moreover have "zone_alloc (s # ss) = Done (a, s' # ss)"
      using False q(1) by (simp add: PAGE_SIZE_def a_def)
    ultimately show ?thesis using False q(5-7)
      by (intro exI [of _ a] exI [of _ "s' # ss"] exI [of _ "s_pages s ! q"])
        (simp add: placed_def zone_free_def del: frame.simps zone_alloc.simps)
  qed
qed

lemma zone_alloc_oom:
  assumes "zone_free z = 0"
  shows "zone_alloc z = Panic"
  using assms by (induction z) (auto simp: zone_free_def)

lemma zone_release_ok:
  assumes "zone_inv z" "frame z a = Some pg" "0 < pg_refcount pg"
  shows "\<exists>e z'. zone_release z a = Done (e, z') \<and> zone_inv z' \<and> placed z' = placed z \<and>
    e = (pg_refcount pg = 1) \<and>
    frame z' = (\<lambda>x. if same_page x a
      then Some (if e then given pg else pg\<lparr>pg_refcount := pg_refcount pg - 1\<rparr>) else frame z x) \<and>
    zone_free z' = zone_free z + of_bool e"
  using assms
proof (induction z)
  case Nil
  then show ?case by simp
next
  case (Cons s ss)
  have inv: "sec_inv s" "zone_inv ss" using Cons.prems(1) by (simp_all add: zone_inv_Cons)
  show ?case
  proof (cases "section_has s a")
    case True
    let ?off = "(a - s_start s) div PAGE_SIZE"
    have off: "?off < s_total s" using True inv(1) by (auto simp: page_offset section_has_page)
    have pg: "pg = s_pages s ! ?off" using True Cons.prems(2) by simp
    then have "0 < pg_refcount (s_pages s ! ?off)" using Cons.prems(3) by simp
    then obtain e s' where r: "section_release s ?off = Done (e, s')" "sec_inv s'"
      "s_start s' = s_start s" "s_size s' = s_size s" "e \<longleftrightarrow> pg_refcount (s_pages s ! ?off) = 1"
      "s_nfree s' = (if e then s_nfree s + 1 else s_nfree s)"
      "s_pages s' = (s_pages s)[?off := (if e then given (s_pages s ! ?off)
        else (s_pages s ! ?off)\<lparr>pg_refcount := pg_refcount (s_pages s ! ?off) - 1\<rparr>)]"
      by (rule section_release_ok [OF inv(1) off]) (rule that)
    have sp: "(s_start s + ?off * PAGE_SIZE) div PAGE_SIZE = a div PAGE_SIZE"
      using True inv(1) by (simp add: page_offset section_has_page)
    have "zone_inv (s' # ss)" by (rule zone_inv_head [OF Cons.prems(1) r(2-4)])
    moreover have "frame (s' # ss) = (\<lambda>x. if same_page x a
      then Some (if e then given pg else pg\<lparr>pg_refcount := pg_refcount pg - 1\<rparr>) else frame (s # ss) x)"
      using frame_head_update [OF inv(1) off r(3,4,7), of ss] unfolding sp pg .
    ultimately show ?thesis using True r pg
      by (intro exI [of _ e] exI [of _ "s' # ss"]) (simp add: placed_def zone_free_def)
  next
    case False
    with Cons.prems(2) have f: "frame ss a = Some pg" by simp
    from Cons.IH [OF inv(2) f Cons.prems(3)] obtain e ss' where
      r: "zone_release ss a = Done (e, ss')" "zone_inv ss'" "placed ss' = placed ss"
        "e = (pg_refcount pg = 1)"
        "frame ss' = (\<lambda>x. if same_page x a
          then Some (if e then given pg else pg\<lparr>pg_refcount := pg_refcount pg - 1\<rparr>) else frame ss x)"
        "zone_free ss' = zone_free ss + of_bool e" by blast
    have "zone_inv (s # ss')" by (rule zone_inv_tail [OF Cons.prems(1) r(2,3)])
    moreover note frame_tail_update [OF Cons.prems(1) f r(5)]
    ultimately show ?thesis using False r
      by (intro exI [of _ e] exI [of _ "s # ss'"]) (simp add: placed_def zone_free_def)
  qed
qed

lemma zone_release_panics:
  assumes "zone_inv z" "frame z a = None \<or> (\<exists>pg. frame z a = Some pg \<and> pg_refcount pg = 0)"
  shows "zone_release z a = Panic"
  using assms
proof (induction z)
  case Nil
  then show ?case by simp
next
  case (Cons s ss)
  have inv: "sec_inv s" "zone_inv ss" using Cons.prems(1) by (simp_all add: zone_inv_Cons)
  show ?case
  proof (cases "section_has s a")
    case True
    then have "(a - s_start s) div PAGE_SIZE < s_total s"
      using inv(1) by (auto simp: page_offset section_has_page)
    with True Cons.prems(2) show ?thesis
      by (simp add: section_release_unreferenced [OF inv(1)])
  next
    case False
    with Cons.IH [OF inv(2)] Cons.prems(2) show ?thesis by simp
  qed
qed

lemma zone_retain_ok:
  assumes "zone_inv z" "frame z a = Some pg" "\<not> pg_free pg"
  shows "\<exists>z'. zone_retain z a = Done z' \<and> zone_inv z' \<and> placed z' = placed z \<and>
    frame z' = (\<lambda>x. if same_page x a then Some (pg\<lparr>pg_refcount := pg_refcount pg + 1\<rparr>) else frame z x) \<and>
    zone_free z' = zone_free z"
  using assms
proof (induction z)
  case Nil
  then show ?case by simp
next
  case (Cons s ss)
  have inv: "sec_inv s" "zone_inv ss" using Cons.prems(1) by (simp_all add: zone_inv_Cons)
  show ?case
  proof (cases "section_has s a")
    case True
    let ?off = "(a - s_start s) div PAGE_SIZE"
    have off: "?off < s_total s" using True inv(1) by (auto simp: page_offset section_has_page)
    have pg: "pg = s_pages s ! ?off" using True Cons.prems(2) by simp
    then have "\<not> pg_free (s_pages s ! ?off)" using Cons.prems(3) by simp
    then obtain s' where r: "section_retain s ?off = Done s'" "sec_inv s'"
      "s_start s' = s_start s" "s_size s' = s_size s" "s_nfree s' = s_nfree s"
      "s_pages s' = (s_pages s)[?off :=
        (s_pages s ! ?off)\<lparr>pg_refcount := pg_refcount (s_pages s ! ?off) + 1\<rparr>]"
      by (rule section_retain_ok [OF inv(1) off]) (rule that)
    have sp: "(s_start s + ?off * PAGE_SIZE) div PAGE_SIZE = a div PAGE_SIZE"
      using True inv(1) by (simp add: page_offset section_has_page)
    have "zone_inv (s' # ss)" by (rule zone_inv_head [OF Cons.prems(1) r(2-4)])
    moreover have "frame (s' # ss) = (\<lambda>x. if same_page x a
        then Some (pg\<lparr>pg_refcount := pg_refcount pg + 1\<rparr>) else frame (s # ss) x)"
      using frame_head_update [OF inv(1) off r(3,4,6), of ss] unfolding sp pg .
    ultimately show ?thesis using True r
      by (intro exI [of _ "s' # ss"]) (simp add: placed_def zone_free_def)
  next
    case False
    with Cons.prems(2) have f: "frame ss a = Some pg" by simp
    from Cons.IH [OF inv(2) f Cons.prems(3)] obtain ss' where
      r: "zone_retain ss a = Done ss'" "zone_inv ss'" "placed ss' = placed ss"
        "frame ss' = (\<lambda>x. if same_page x a then Some (pg\<lparr>pg_refcount := pg_refcount pg + 1\<rparr>) else frame ss x)"
        "zone_free ss' = zone_free ss" by blast
    have "zone_inv (s # ss')" by (rule zone_inv_tail [OF Cons.prems(1) r(2,3)])
    moreover note frame_tail_update [OF Cons.prems(1) f r(4)]
    ultimately show ?thesis using False r
      by (intro exI [of _ "s # ss'"]) (simp add: placed_def zone_free_def)
  qed
qed

text \<open>The addresses of \<open>n\<close> pages from \<open>a\<close> on.\<close>

definition in_run :: "nat \<Rightarrow> nat \<Rightarrow> nat \<Rightarrow> bool" where
  "in_run a n x \<longleftrightarrow> a div PAGE_SIZE \<le> x div PAGE_SIZE \<and> x div PAGE_SIZE < a div PAGE_SIZE + n"

lemma in_run_page:
  assumes "in_run a n x"
  obtains k where "k < n" "same_page x (a + k * PAGE_SIZE)"
proof -
  have "x div PAGE_SIZE - a div PAGE_SIZE < n" using assms by (auto simp: in_run_def)
  moreover have "same_page x (a + (x div PAGE_SIZE - a div PAGE_SIZE) * PAGE_SIZE)"
    using assms by (simp add: in_run_def)
  ultimately show ?thesis by (rule that)
qed

lemma zone_allocPages_head:
  assumes zi: "zone_inv (s # ss)" and run: "free_run s n q"
    and s': "sec_inv s'" "s_start s' = s_start s" "s_size s' = s_size s"
      "\<And>j. j < s_total s \<Longrightarrow> s_pages s' ! j =
        (if q \<le> j \<and> j < q + n then taken (s_pages s ! j) else s_pages s ! j)"
    and a: "a = s_start s + q * PAGE_SIZE"
  shows "\<And>k. k < n \<Longrightarrow> \<exists>pg. frame (s # ss) (a + k * PAGE_SIZE) = Some pg \<and> pg_free pg"
    and "frame (s' # ss) = (\<lambda>x. if in_run a n x then map_option taken (frame (s # ss) x) else frame (s # ss) x)"
proof -
  have inv: "sec_inv s" using zi by (simp add: zone_inv_Cons)
  show "\<exists>pg. frame (s # ss) (a + k * PAGE_SIZE) = Some pg \<and> pg_free pg" if "k < n" for k
  proof -
    have k: "q + k < s_total s" "\<not> pbits (s_bmap s) (q + k)" using run that by (auto simp: free_run_def)
    have "a + k * PAGE_SIZE = s_start s + (q + k) * PAGE_SIZE" by (simp add: a algebra_simps)
    then have "frame (s # ss) (a + k * PAGE_SIZE) = Some (s_pages s ! (q + k))"
      using frame_head_off [OF inv k(1)] by simp
    moreover have "pg_free (s_pages s ! (q + k))" using inv k by (simp add: sec_inv_def)
    ultimately show ?thesis by simp
  qed
  have pa: "a div PAGE_SIZE = s_start s div PAGE_SIZE + q" by (simp add: a)
  have le: "q + n \<le> s_total s" using run by (simp add: free_run_def)
  show "frame (s' # ss) = (\<lambda>x. if in_run a n x then map_option taken (frame (s # ss) x) else frame (s # ss) x)"
  proof
    fix x
    have has: "section_has s' x = section_has s x" using s'(2,3) by (simp add: section_has_def)
    show "frame (s' # ss) x = (if in_run a n x then map_option taken (frame (s # ss) x) else frame (s # ss) x)"
    proof (cases "section_has s x")
      case True
      then have off: "x div PAGE_SIZE - s_start s div PAGE_SIZE < s_total s"
        and ge: "s_start s div PAGE_SIZE \<le> x div PAGE_SIZE"
        using inv by (auto simp: section_has_page)
      have "in_run a n x \<longleftrightarrow> q \<le> x div PAGE_SIZE - s_start s div PAGE_SIZE \<and>
          x div PAGE_SIZE - s_start s div PAGE_SIZE < q + n"
        using ge unfolding in_run_def pa by auto
      with True has s'(4) [OF off] show ?thesis by (simp add: s'(2) page_offset [OF inv])
    next
      case False
      then have "\<not> in_run a n x" using le inv unfolding in_run_def pa by (auto simp: section_has_page)
      with False has show ?thesis by simp
    qed
  qed
qed

lemma zone_allocPages_ok:
  assumes "zone_inv z" "0 < n" "\<exists>s \<in> set z. \<exists>q. free_run s n q"
  shows "\<exists>a z'. zone_allocPages z n = Done (a, z') \<and> zone_inv z' \<and> placed z' = placed z \<and>
    PAGE_SIZE dvd a \<and> 0 < a \<and>
    (\<forall>k < n. \<exists>pg. frame z (a + k * PAGE_SIZE) = Some pg \<and> pg_free pg) \<and>
    frame z' = (\<lambda>x. if in_run a n x then map_option taken (frame z x) else frame z x)"
  using assms
proof (induction z)
  case Nil
  then show ?case by simp
next
  case (Cons s ss)
  have inv: "sec_inv s" "zone_inv ss" using Cons.prems(1) by (simp_all add: zone_inv_Cons)
  show ?case
  proof (rule pmm_try_section_ok [OF inv(1) Cons.prems(2)])
    fix q s'
    assume run: "free_run s n q" and tr: "pmm_try_section s n = Done (s_start s + q * PAGE_SIZE, s')"
      and s': "sec_inv s'" "s_start s' = s_start s" "s_size s' = s_size s"
        "\<And>j. j < s_total s \<Longrightarrow> s_pages s' ! j =
          (if q \<le> j \<and> j < q + n then taken (s_pages s ! j) else s_pages s ! j)"
    define a where "a = s_start s + q * PAGE_SIZE"
    have pos: "PAGE_SIZE dvd a" "0 < a" using inv(1) by (simp_all add: a_def sec_inv_def)
    have "zone_inv (s' # ss)" by (rule zone_inv_head [OF Cons.prems(1) s'(1-3)])
    moreover note zone_allocPages_head [OF Cons.prems(1) run s' a_def]
    moreover have "zone_allocPages (s # ss) n = Done (a, s' # ss)"
      using tr pos(2) by (simp add: a_def)
    ultimately show ?thesis using pos s'(2,3)
      by (intro exI [of _ a] exI [of _ "s' # ss"])
        (simp add: placed_def del: frame.simps zone_allocPages.simps)
  next
    fix s'
    assume none: "\<And>q. \<not> free_run s n q" and tr: "pmm_try_section s n = Done (0, s')"
      and s': "sec_inv s'" "s_start s' = s_start s" "s_size s' = s_size s" "s_pages s' = s_pages s"
    from Cons.IH [OF inv(2) Cons.prems(2)] Cons.prems(3) none obtain a ss' where
      a: "zone_allocPages ss n = Done (a, ss')" "zone_inv ss'" "placed ss' = placed ss"
        "PAGE_SIZE dvd a" "0 < a" "\<forall>k < n. \<exists>pg. frame ss (a + k * PAGE_SIZE) = Some pg \<and> pg_free pg"
        "frame ss' = (\<lambda>x. if in_run a n x then map_option taken (frame ss x) else frame ss x)" by auto
    have zi: "zone_inv (s' # ss)" by (rule zone_inv_head [OF Cons.prems(1) s'(1-3)])
    have "zone_inv (s' # ss')" by (rule zone_inv_tail [OF zi a(2,3)])
    moreover have out: "\<not> section_has s x" if r: "in_run a n x" for x
    proof -
      obtain k where k: "k < n" "same_page x (a + k * PAGE_SIZE)" by (rule in_run_page [OF r])
      with a(6) obtain pg where "frame ss (a + k * PAGE_SIZE) = Some pg" by blast
      then show ?thesis using frame_not_head [OF Cons.prems(1)] k(2) by blast
    qed
    moreover have "in_run a n (a + k * PAGE_SIZE)" if "k < n" for k
      using that by (simp add: in_run_def)
    moreover have "frame (s' # ss') = (\<lambda>x. if in_run a n x then map_option taken (frame (s # ss) x)
        else frame (s # ss) x)"
      using s' a(7) out by (auto simp: fun_eq_iff section_has_def)
    moreover have "zone_allocPages (s # ss) n = Done (a, s' # ss')" using tr a(1) by simp
    ultimately show ?thesis using a(3-6) s'(2,3)
      by (intro exI [of _ a] exI [of _ "s' # ss'"]) (auto simp: placed_def)
  qed
qed

lemma zone_allocPages_none:
  assumes "zone_inv z" "0 < n" "\<And>s q. s \<in> set z \<Longrightarrow> \<not> free_run s n q"
  shows "zone_allocPages z n = Fault"
  using assms
proof (induction z)
  case Nil
  then show ?case by simp
next
  case (Cons s ss)
  have inv: "sec_inv s" "zone_inv ss" using Cons.prems(1) by (simp_all add: zone_inv_Cons)
  have "zone_allocPages ss n = Fault" using Cons.IH [OF inv(2)] Cons.prems by simp
  moreover have "\<exists>s'. pmm_try_section s n = Done (0, s')"
    by (rule pmm_try_section_ok [OF inv(1) Cons.prems(2)]) (use Cons.prems(3) in auto)
  ultimately show ?case by auto
qed

lemma frame_page_inv:
  assumes "zone_inv z" "frame z a = Some pg" "0 < pg_refcount pg"
  shows "\<not> pg_free pg"
  using assms
proof (induction z)
  case Nil
  then show ?case by simp
next
  case (Cons s ss)
  have inv: "sec_inv s" "zone_inv ss" using Cons.prems(1) by (simp_all add: zone_inv_Cons)
  show ?case
  proof (cases "section_has s a")
    case True
    then have "(a - s_start s) div PAGE_SIZE < s_total s"
      using inv(1) by (auto simp: page_offset section_has_page)
    with True inv(1) Cons.prems show ?thesis by (auto simp: sec_inv_def)
  next
    case False
    with Cons.IH [OF inv(2)] Cons.prems show ?thesis by simp
  qed
qed

section \<open>The allocator implements the contract\<close>

definition page_refs :: "pmm \<Rightarrow> nat \<Rightarrow> nat" where
  "page_refs p a = (if PAGE_SIZE dvd a then case frame (zone p) a of None \<Rightarrow> 0 | Some pg \<Rightarrow> pg_refcount pg
     else 0)"

lemma aligned_same_page: "PAGE_SIZE dvd x \<Longrightarrow> PAGE_SIZE dvd a \<Longrightarrow> same_page x a \<longleftrightarrow> x = a"
  by (metis dvd_div_eq_iff)

lemma page_refs_update:
  assumes "PAGE_SIZE dvd a" "frame (zone p') = (\<lambda>x. if same_page x a then Some pg else frame (zone p) x)"
  shows "page_refs p' = (page_refs p)(a := pg_refcount pg)"
  using assms by (auto simp: page_refs_def fun_eq_iff aligned_same_page)

interpretation pmm_frames: frame_allocator pmm_allocatePage pmm_retain pmm_release
    "\<lambda>p. zone_inv (zone p)" page_refs "\<lambda>p. zone_free (zone p)"
proof
  fix p :: pmm assume "zone_inv (zone p)" "0 < zone_free (zone p)"
  from zone_alloc_ok [OF this] obtain a z' pg where
    a: "zone_alloc (zone p) = Done (a, z')" "zone_inv z'" "PAGE_SIZE dvd a"
      "frame (zone p) a = Some pg" "pg_refcount pg = 0"
      "frame z' = (\<lambda>x. if same_page x a then Some (taken pg) else frame (zone p) x)"
      "zone_free (zone p) = zone_free z' + 1" by blast
  let ?p = "p\<lparr>zone := z', pmm_used_blocks := pmm_used_blocks p + 1\<rparr>"
  have "pmm_allocatePage p = Done (a, ?p)" using a(1) by (simp add: pmm_allocatePage_def)
  moreover have "page_refs ?p = (page_refs p)(a := 1)"
    using page_refs_update [OF a(3), of ?p "taken pg" p] a(6) by (simp add: taken_def)
  moreover have "page_refs p a = 0" using a(4,5) by (simp add: page_refs_def)
  ultimately show "\<exists>a p'. pmm_allocatePage p = Done (a, p') \<and> zone_inv (zone p') \<and> page_refs p a = 0 \<and>
      page_refs p' = (page_refs p)(a := 1) \<and> zone_free (zone p') = zone_free (zone p) - 1"
    using a(2,7) by (intro exI [of _ a] exI [of _ ?p]) simp
next
  fix p :: pmm and a assume inv: "zone_inv (zone p)" and r: "0 < page_refs p a"
  from r obtain pg where pg: "PAGE_SIZE dvd a" "frame (zone p) a = Some pg" "page_refs p a = pg_refcount pg"
    by (auto simp: page_refs_def split: if_splits option.splits)
  have "\<not> pg_free pg" using frame_page_inv [OF inv pg(2)] r pg(3) by simp
  from zone_retain_ok [OF inv pg(2) this] obtain z' where
    z: "zone_retain (zone p) a = Done z'" "zone_inv z'" "zone_free z' = zone_free (zone p)"
      "frame z' = (\<lambda>x. if same_page x a then Some (pg\<lparr>pg_refcount := pg_refcount pg + 1\<rparr>)
        else frame (zone p) x)" by blast
  have "page_refs (p\<lparr>zone := z'\<rparr>) = (page_refs p)(a := page_refs p a + 1)"
    using page_refs_update [OF pg(1), of "p\<lparr>zone := z'\<rparr>" "pg\<lparr>pg_refcount := pg_refcount pg + 1\<rparr>" p] z(4) pg(3) by simp
  with z show "\<exists>p'. pmm_retain p a = Done p' \<and> zone_inv (zone p') \<and>
      page_refs p' = (page_refs p)(a := page_refs p a + 1) \<and> zone_free (zone p') = zone_free (zone p)"
    by (simp add: pmm_retain_def)
next
  fix p :: pmm and a assume inv: "zone_inv (zone p)" and r: "0 < page_refs p a"
  from r obtain pg where pg: "PAGE_SIZE dvd a" "frame (zone p) a = Some pg" "page_refs p a = pg_refcount pg"
    by (auto simp: page_refs_def split: if_splits option.splits)
  from zone_release_ok [OF inv pg(2)] r pg(3) obtain e z' where
    z: "zone_release (zone p) a = Done (e, z')" "zone_inv z'" "e = (pg_refcount pg = 1)"
      "frame z' = (\<lambda>x. if same_page x a
        then Some (if e then given pg else pg\<lparr>pg_refcount := pg_refcount pg - 1\<rparr>) else frame (zone p) x)"
      "zone_free z' = zone_free (zone p) + of_bool e" by auto
  let ?p = "p\<lparr>zone := z', pmm_used_blocks := (if e then pmm_used_blocks p - 1 else pmm_used_blocks p)\<rparr>"
  let ?pg = "if e then given pg else pg\<lparr>pg_refcount := pg_refcount pg - 1\<rparr>"
  have "page_refs ?p = (page_refs p)(a := page_refs p a - 1)"
    using page_refs_update [OF pg(1), of ?p ?pg p] z(3,4) pg(3) by (auto simp: given_def)
  with z pg(3) show "\<exists>p'. pmm_release p a = Done p' \<and> zone_inv (zone p') \<and>
      page_refs p' = (page_refs p)(a := page_refs p a - 1) \<and>
      zone_free (zone p') = zone_free (zone p) + of_bool (page_refs p a = 1)"
    by (simp add: pmm_release_def)
qed

text \<open>What a client of the allocator relies on.\<close>

lemma frame_same_page:
  assumes "zone_inv z" "same_page x y"
  shows "frame z x = frame z y"
  using assms by (induction z) (auto simp: zone_inv_Cons section_has_page page_offset)

lemma pmm_allocatePage_ok:
  assumes "zone_inv (zone p)" "0 < zone_free (zone p)"
  obtains a p' pg where "pmm_allocatePage p = Done (a, p')" "zone_inv (zone p')"
    "placed (zone p') = placed (zone p)" "PAGE_SIZE dvd a" "0 < a" "frame (zone p) a = Some pg"
    "pg_free pg" "pg_refcount pg = 0"
    "frame (zone p') = (\<lambda>x. if same_page x a then Some (taken pg) else frame (zone p) x)"
    "zone_free (zone p) = zone_free (zone p') + 1" "pmm_used_blocks p' = pmm_used_blocks p + 1"
proof -
  from zone_alloc_ok [OF assms] obtain a z' pg where
    a: "zone_alloc (zone p) = Done (a, z')" "zone_inv z'" "placed z' = placed (zone p)"
      "PAGE_SIZE dvd a" "0 < a" "frame (zone p) a = Some pg" "pg_free pg" "pg_refcount pg = 0"
      "frame z' = (\<lambda>x. if same_page x a then Some (taken pg) else frame (zone p) x)"
      "zone_free (zone p) = zone_free z' + 1" by blast
  let ?p = "p\<lparr>zone := z', pmm_used_blocks := pmm_used_blocks p + 1\<rparr>"
  have "pmm_allocatePage p = Done (a, ?p)" using a(1) by (simp add: pmm_allocatePage_def)
  from that [OF this] a show ?thesis by simp
qed

lemma pmm_release_ok:
  assumes "zone_inv (zone p)" "frame (zone p) a = Some pg" "0 < pg_refcount pg"
  obtains p' where "pmm_release p a = Done p'" "zone_inv (zone p')" "placed (zone p') = placed (zone p)"
    "frame (zone p') = (\<lambda>x. if same_page x a then Some (if pg_refcount pg = 1 then given pg
       else pg\<lparr>pg_refcount := pg_refcount pg - 1\<rparr>) else frame (zone p) x)"
    "zone_free (zone p') = zone_free (zone p) + of_bool (pg_refcount pg = 1)"
proof -
  from zone_release_ok [OF assms] obtain e z' where
    z: "zone_release (zone p) a = Done (e, z')" "zone_inv z'" "placed z' = placed (zone p)"
      "e = (pg_refcount pg = 1)"
      "frame z' = (\<lambda>x. if same_page x a
        then Some (if e then given pg else pg\<lparr>pg_refcount := pg_refcount pg - 1\<rparr>) else frame (zone p) x)"
      "zone_free z' = zone_free (zone p) + of_bool e" by blast
  from z(1) obtain p' where "pmm_release p a = Done p'" "zone p' = z'"
    by (simp add: pmm_release_def)
  from that [OF this(1)] this(2) z show ?thesis by simp
qed

section \<open>Properties\<close>

text \<open>
  C1. For every sequence of allocations, retains and releases in which only held references are
  retained or released, with at most as many allocations as there are free frames: no operation
  panics or leaves the tables, an allocated frame is one that nobody refers to, and the
  reference count of every frame is exactly the number of references to it that are held.
\<close>

theorem pmm_references_exact:
  assumes "zone_inv (zone p)" "page_refs p = count M" "count_list ops Alloc \<le> zone_free (zone p)"
  shows "\<exists>M' p'. frame_run pmm_allocatePage pmm_retain pmm_release p M ops = Done (M', p') \<and>
    zone_inv (zone p') \<and> page_refs p' = count M'"
  by (rule pmm_frames.run_counts [OF assms])

text \<open>A zone of one section with two frames, the first free and the second held once.\<close>

definition example_pmm :: pmm where
  "example_pmm = \<lparr>zone = [\<lparr>s_start = 8192, s_size = 8192, s_bmap = [2], s_ffb = 0, s_nfree = 1,
     s_pages = [\<lparr>pg_flags = 1, pg_refcount = 0\<rparr>, \<lparr>pg_flags = 0, pg_refcount = 1\<rparr>]\<rparr>],
     pmm_total_blocks = 2, pmm_used_blocks = 1, pmm_internal_memory = 0\<rparr>"

lemma example_pmm_facts:
  "zone_inv (zone example_pmm)" "page_refs example_pmm = count {#12288#}"
  "zone_free (zone example_pmm) = 1"
proof -
  have bits: "pbits [2] 0 = False" "pbits [2] (Suc 0) = True"
    by (simp_all add: pbits_def bit_numeral_rec)
  have two: "(i < 2) = (i = 0 \<or> i = Suc 0)" for i :: nat by auto
  show "zone_inv (zone example_pmm)"
    by (auto simp: zone_inv_def sec_inv_def example_pmm_def PAGE_SIZE_def two bits free_count_def
        pg_free_def PAGE_FLAG_FREE_def upt_rec)
  show "zone_free (zone example_pmm) = 1" by (simp add: zone_free_def example_pmm_def)
  have "page_refs example_pmm a = count {#12288#} a" for a
  proof (cases "PAGE_SIZE dvd a")
    case True
    then obtain k where "a = PAGE_SIZE * k" by (elim dvdE)
    moreover have "k < 2 \<or> k = 2 \<or> k = 3 \<or> 3 < k" by linarith
    ultimately show ?thesis
      by (auto simp: page_refs_def example_pmm_def section_has_def PAGE_SIZE_def)
  next
    case False
    then show ?thesis by (auto simp: page_refs_def PAGE_SIZE_def)
  qed
  then show "page_refs example_pmm = count {#12288#}" by (rule ext)
qed

theorem pmm_references_exact_witness:
  "\<exists>M' p'. frame_run pmm_allocatePage pmm_retain pmm_release example_pmm {#12288#}
     [Alloc, Retain 8192, Release 12288, Release 8192] = Done (M', p') \<and> page_refs p' = count M'"
  using pmm_references_exact
    [OF example_pmm_facts(1,2), of "[Alloc, Retain 8192, Release 12288, Release 8192]"]
  unfolding example_pmm_facts(3) by (simp del: frame_run.simps) blast

text \<open>
  C19. An allocation returns the address of a page-aligned frame that was free and had no
  references, marks exactly that frame as used with one reference, leaves every other frame and
  the places of the sections as they were, and lowers the number of free frames by one; with no
  free frame the machine stops.
\<close>

theorem pmm_allocatePage_effect:
  assumes "zone_inv (zone p)"
  shows "if zone_free (zone p) = 0 then pmm_allocatePage p = Panic
    else \<exists>a p' pg. pmm_allocatePage p = Done (a, p') \<and> zone_inv (zone p') \<and>
      PAGE_SIZE dvd a \<and> 0 < a \<and> frame (zone p) a = Some pg \<and> pg_free pg \<and> pg_refcount pg = 0 \<and>
      frame (zone p') = (\<lambda>x. if same_page x a then Some (taken pg) else frame (zone p) x) \<and>
      zone_free (zone p) = zone_free (zone p') + 1 \<and>
      pmm_used_blocks p' = pmm_used_blocks p + 1"
proof (cases "zone_free (zone p) = 0")
  case True
  then show ?thesis by (simp add: pmm_allocatePage_def zone_alloc_oom)
next
  case False
  then have "0 < zone_free (zone p)" by simp
  from pmm_allocatePage_ok [OF assms this] obtain a p' pg where
    "pmm_allocatePage p = Done (a, p')" "zone_inv (zone p')" "PAGE_SIZE dvd a" "0 < a"
    "frame (zone p) a = Some pg" "pg_free pg" "pg_refcount pg = 0"
    "frame (zone p') = (\<lambda>x. if same_page x a then Some (taken pg) else frame (zone p) x)"
    "zone_free (zone p) = zone_free (zone p') + 1" "pmm_used_blocks p' = pmm_used_blocks p + 1" .
  with False show ?thesis
    by (simp only: if_False) (intro exI [of _ a] exI [of _ p'] exI [of _ pg], simp)
qed

theorem pmm_allocatePage_effect_witness:
  "\<exists>a p'. pmm_allocatePage example_pmm = Done (a, p') \<and> zone_inv (zone p') \<and> zone_free (zone p') = 0"
  using pmm_allocatePage_effect [OF example_pmm_facts(1)] by (auto simp: example_pmm_facts(3))

text \<open>
  C20. A release takes one reference from the frame its address lies in: with more references the
  frame stays in use, with the last one it becomes free and counts as free again; a release of a
  frame without references (a double free) or of an address in no section stops the machine. No
  other frame changes.
\<close>

theorem pmm_release_effect:
  assumes "zone_inv (zone p)"
  shows "case frame (zone p) a of
      None \<Rightarrow> pmm_release p a = Panic
    | Some pg \<Rightarrow>
        if pg_refcount pg = 0 then pmm_release p a = Panic
        else \<exists>p'. pmm_release p a = Done p' \<and> zone_inv (zone p') \<and>
          frame (zone p') = (\<lambda>x. if same_page x a
            then Some (if pg_refcount pg = 1 then given pg
              else pg\<lparr>pg_refcount := pg_refcount pg - 1\<rparr>)
            else frame (zone p) x) \<and>
          zone_free (zone p') = zone_free (zone p) + of_bool (pg_refcount pg = 1)"
proof (cases "frame (zone p) a")
  case None
  then show ?thesis using zone_release_panics [OF assms] by (simp add: pmm_release_def)
next
  case (Some pg)
  show ?thesis
  proof (cases "pg_refcount pg = 0")
    case True
    with Some zone_release_panics [OF assms, of a] show ?thesis by (simp add: pmm_release_def)
  next
    case False
    then have "0 < pg_refcount pg" by simp
    from pmm_release_ok [OF assms Some this] obtain p' where "pmm_release p a = Done p'"
      "zone_inv (zone p')" "frame (zone p') = (\<lambda>x. if same_page x a then Some (if pg_refcount pg = 1
         then given pg else pg\<lparr>pg_refcount := pg_refcount pg - 1\<rparr>) else frame (zone p) x)"
      "zone_free (zone p') = zone_free (zone p) + of_bool (pg_refcount pg = 1)" .
    with Some False show ?thesis by (simp only: option.case if_False) (intro exI [of _ p'], simp)
  qed
qed

theorem pmm_release_effect_witness:
  "\<exists>p'. pmm_release example_pmm 12300 = Done p' \<and> zone_inv (zone p') \<and> zone_free (zone p') = 2"
proof -
  have "frame (zone example_pmm) 12300 = Some \<lparr>pg_flags = 0, pg_refcount = 1\<rparr>"
    by (simp add: example_pmm_def section_has_def PAGE_SIZE_def)
  with pmm_release_effect [OF example_pmm_facts(1), of 12300] show ?thesis
    by (auto simp: example_pmm_facts(3))
qed

text \<open>
  C21. An allocation of several pages finds the run whenever some section has one: it returns the
  page-aligned address of consecutive frames that were all free, marks exactly these as used with
  one reference each, and leaves all other frames as they were. When no section has such a run,
  the loop over the sections runs off its end and follows a null pointer instead of reporting
  that memory is exhausted.
\<close>

theorem pmm_allocatePages_run:
  assumes "zone_inv (zone p)" "1 < n"
  shows "if \<exists>s \<in> set (zone p). \<exists>q. free_run s n q
    then \<exists>a p'. pmm_allocatePages p n = Done (a, p') \<and> zone_inv (zone p') \<and> PAGE_SIZE dvd a \<and> 0 < a \<and>
      (\<forall>k < n. \<exists>pg. frame (zone p) (a + k * PAGE_SIZE) = Some pg \<and> pg_free pg) \<and>
      frame (zone p') =
        (\<lambda>x. if in_run a n x then map_option taken (frame (zone p) x) else frame (zone p) x)
    else pmm_allocatePages p n = Fault"
proof (cases "\<exists>s \<in> set (zone p). \<exists>q. free_run s n q")
  case True
  have "0 < n" using assms(2) by simp
  from zone_allocPages_ok [OF assms(1) this True] obtain a z' where
    a: "zone_allocPages (zone p) n = Done (a, z')" "zone_inv z'" "PAGE_SIZE dvd a" "0 < a"
      "\<forall>k < n. \<exists>pg. frame (zone p) (a + k * PAGE_SIZE) = Some pg \<and> pg_free pg"
      "frame z' = (\<lambda>x. if in_run a n x then map_option taken (frame (zone p) x) else frame (zone p) x)"
    by blast
  let ?p = "p\<lparr>zone := z', pmm_used_blocks := pmm_used_blocks p + word_of_nat n\<rparr>"
  have "pmm_allocatePages p n = Done (a, ?p)" using a(1) assms(2) by (simp add: pmm_allocatePages_def)
  with a have "\<exists>a p'. pmm_allocatePages p n = Done (a, p') \<and> zone_inv (zone p') \<and> PAGE_SIZE dvd a \<and> 0 < a \<and>
      (\<forall>k < n. \<exists>pg. frame (zone p) (a + k * PAGE_SIZE) = Some pg \<and> pg_free pg) \<and>
      frame (zone p') =
        (\<lambda>x. if in_run a n x then map_option taken (frame (zone p) x) else frame (zone p) x)"
    by (intro exI [of _ a] exI [of _ ?p]) simp
  with True show ?thesis by (simp only: if_True)
next
  case False
  then have "zone_allocPages (zone p) n = Fault"
    using assms by (intro zone_allocPages_none) auto
  with False assms(2) show ?thesis by (simp add: pmm_allocatePages_def)
qed

theorem pmm_allocatePages_run_witness:
  "pmm_allocatePages example_pmm 2 = Fault"
proof -
  have "pbits [2] (Suc 0)" by (simp add: pbits_def bit_numeral_rec)
  then have "\<not> (\<exists>s \<in> set (zone example_pmm). \<exists>q. free_run s 2 q)"
    by (auto simp: example_pmm_def free_run_def PAGE_SIZE_def intro: exI [of _ "Suc 0"])
  with pmm_allocatePages_run [OF example_pmm_facts(1), of 2] show ?thesis by simp
qed

lemma page_of_address:
  assumes "\<forall>s \<in> set z. sec_inv s" "frame z a \<noteq> None"
  shows "obind (pmm_page_of z a) (pmm_address z) = Done (PAGE_ALIGN_DOWN a)"
  using assms
proof (induction z)
  case Nil
  then show ?case by simp
next
  case (Cons s z)
  show ?case
  proof (cases "section_has s a")
    case True
    then obtain d where "a = s_start s + d" by (auto simp: section_has_def le_iff_add)
    moreover have "PAGE_SIZE dvd s_start s" using Cons.prems(1) by (simp add: sec_inv_def)
    then obtain k where "s_start s = PAGE_SIZE * k" by (elim dvdE)
    ultimately show ?thesis
      using True by (simp add: pmm_address_def PAGE_ALIGN_DOWN_def PAGE_SIZE_def aread_def)
  next
    case False
    with Cons.prems have "frame z a \<noteq> None" by simp
    with Cons have "obind (pmm_page_of z a) (pmm_address z) = Done (PAGE_ALIGN_DOWN a)" by simp
    then obtain k off where "pmm_page_of z a = Done (k, off)" "k < length z"
      "s_start (z ! k) + off * PAGE_SIZE = PAGE_ALIGN_DOWN a"
      by (cases "pmm_page_of z a") (auto simp: pmm_address_def aread_def split: if_splits)
    with False show ?thesis by (simp add: pmm_address_def aread_def)
  qed
qed

text \<open>
  C22. The way from a physical address to its page descriptor and back gives the base of the page
  that contains the address, for every address in a section.
\<close>

theorem pmm_page_address_roundtrip:
  assumes "zone_inv (zone p)" "frame (zone p) a \<noteq> None"
  shows "obind (pmm_page_of (zone p) a) (pmm_address (zone p)) = Done (PAGE_ALIGN_DOWN a)"
  using assms by (intro page_of_address) (auto simp: zone_inv_def)

theorem pmm_page_address_roundtrip_witness:
  "obind (pmm_page_of (zone example_pmm) 12300) (pmm_address (zone example_pmm)) = Done 12288"
proof -
  have "frame (zone example_pmm) 12300 \<noteq> None"
    by (simp add: example_pmm_def section_has_def PAGE_SIZE_def)
  from pmm_page_address_roundtrip [OF example_pmm_facts(1) this] show ?thesis
    by (simp add: PAGE_ALIGN_DOWN_def PAGE_SIZE_def)
qed

end
