(* ===== verification/Pmm_Init.thy ===== *)
theory Pmm_Init
  imports Pmm
begin

text \<open>
  The initialisation of the physical page allocator from the memory map of the machine: a section
  per available region, then the arrays of page descriptors, which are placed at the start of the
  largest section. The theory shows that a completed initialisation establishes the invariant
  of the allocator.
\<close>

section \<open>Definitions\<close>

definition PHYS_MEMORY_AVAILABLE :: nat where "PHYS_MEMORY_AVAILABLE = 0"
definition PHYS_MEMORY_MODULE :: nat where "PHYS_MEMORY_MODULE = 5"

record pmm_region =
  r_start :: nat
  r_end :: nat
  r_type :: nat

text \<open>
  \<open>hdr\<close> is \<^verbatim>\<open>sizeof(pmm_section_t) + sizeof(mutex_t)\<close>. The result is the index of the new section in
  the zone. The code dereferences a null section for any other region type.
\<close>

definition pmm_insertSection :: "nat \<Rightarrow> pmm_region \<Rightarrow> pmm \<Rightarrow> (nat option \<times> pmm) outcome" where
  "pmm_insertSection hdr region p =
     (let n_pages = (r_end region - r_start region) div PAGE_SIZE;
          bmap_bytes = (n_pages + 7) div 8;
          sz = PAGE_ALIGN_UP (hdr + bmap_bytes);
          p1 = p\<lparr>pmm_internal_memory := pmm_internal_memory p + sz\<rparr>
      in if r_type region = PHYS_MEMORY_AVAILABLE then
           (if sz > r_end region - r_start region then Done (None, p1)
            else
              let s = \<lparr>s_start = r_start region + sz,
                       s_size = r_end region - r_start region - sz,
                       s_bmap = replicate bmap_bytes 0,
                       s_ffb = 0,
                       s_nfree = (r_end region - r_start region - sz) div PAGE_SIZE,
                       s_pages = []\<rparr>
              in Done (Some (length (zone p1)),
                   p1\<lparr>pmm_total_blocks := pmm_total_blocks p1 + word_of_nat (s_total s),
                      zone := zone p1 @ [s]\<rparr>))
         else if r_type region = PHYS_MEMORY_MODULE then Done (None, p1)
         else Fault)"

text \<open>The loop over the regions; \<open>biggest\<close> is the index of the largest section so far.\<close>

fun init_regions :: "nat \<Rightarrow> pmm_region list \<Rightarrow> pmm \<Rightarrow> nat option \<Rightarrow> (pmm \<times> nat option) outcome" where
  "init_regions hdr [] p biggest = Done (p, biggest)"
| "init_regions hdr (r0 # rs) p biggest =
     (let r = r0\<lparr>r_start := PAGE_ALIGN_UP (r_start r0), r_end := PAGE_ALIGN_DOWN (r_end r0)\<rparr> in
      if r_start r \<ge> r_end r then init_regions hdr rs p biggest
      else if r_type r = PHYS_MEMORY_AVAILABLE \<or> r_type r = PHYS_MEMORY_MODULE then
        obind (pmm_insertSection hdr r p) (\<lambda>(s, p1).
        obind (case biggest of
            None \<Rightarrow> Done True
          | Some b \<Rightarrow> (if s = None then Done False
              else obind (aread (zone p1) b) (\<lambda>bs. Done (s_size bs < r_end r - r_start r)))) (\<lambda>larger.
        init_regions hdr rs p1 (if larger \<and> r_type r = PHYS_MEMORY_AVAILABLE then s else biggest)))
      else init_regions hdr rs p biggest)"

text \<open>The descriptors of a section, from page \<open>idx\<close> on.\<close>

fun init_pages :: "u8 list \<Rightarrow> nat \<Rightarrow> nat \<Rightarrow> pmm_page list outcome" where
  "init_pages m idx 0 = Done []"
| "init_pages m idx (Suc n) =
     obind (bmap_test m idx) (\<lambda>used.
     obind (init_pages m (idx + 1) n) (\<lambda>pgs.
     Done ((if used then \<lparr>pg_flags = 0, pg_refcount = 1\<rparr>
            else \<lparr>pg_flags = PAGE_FLAG_FREE, pg_refcount = 0\<rparr>) # pgs)))"

text \<open>Marks the first \<open>n\<close> pages of the map as used: \<^verbatim>\<open>memset\<close> of the full bytes, then the rest.\<close>

definition mark_used :: "u8 list \<Rightarrow> nat \<Rightarrow> u8 list outcome" where
  "mark_used m n =
     (let full_bytes = n div 8; rem_bits = n mod 8 in
      if full_bytes > length m then Fault
      else
        let m1 = replicate full_bytes 0xFF @ drop full_bytes m in
        if rem_bits \<noteq> 0 then
          obind (aread m1 full_bytes) (\<lambda>b. awrite m1 full_bytes (b OR (push_bit rem_bits 1 - 1)))
        else Done m1)"

definition sizeof_pmm_page :: nat where "sizeof_pmm_page = 48"

text \<open>
  The page arrays of the sections from index \<open>k\<close> on, placed one after another at the physical
  address \<open>bo\<close> in the section with index \<open>big\<close>.
\<close>

function init_arrays :: "nat \<Rightarrow> nat \<Rightarrow> nat \<Rightarrow> pmm \<Rightarrow> pmm outcome" where
  "init_arrays big k bo p =
     (if k < length (zone p) then
        obind (aread (zone p) k) (\<lambda>s.
        let page_array_bytes = PAGE_ALIGN_UP (s_total s * sizeof_pmm_page) in
        obind (init_pages (s_bmap s) 0 (s_total s)) (\<lambda>pgs.
        let z1 = (zone p)[k := s\<lparr>s_pages := pgs\<rparr>] in
        obind (aread z1 big) (\<lambda>b.
        let bo' = bo + page_array_bytes;
            total_used_pages = (bo' - s_start b) div PAGE_SIZE
        in oassert (\<not> total_used_pages > s_total b) (
           obind (mark_used (s_bmap b) total_used_pages) (\<lambda>m.
           let b1 = b\<lparr>s_nfree := s_nfree b - page_array_bytes div PAGE_SIZE, s_bmap := m,
                      s_ffb := total_used_pages div 8\<rparr>
           in init_arrays big (k + 1) bo'
                (p\<lparr>zone := z1[big := b1],
                   pmm_internal_memory := pmm_internal_memory p + page_array_bytes\<rparr>))))))
      else Done p)"
  by pat_completeness auto
termination by (relation "measure (\<lambda>(big, k, bo, p). length (zone p) - k)") auto

text \<open>The last loop clears the free flag of the pages that the arrays occupy.\<close>

fun clear_free :: "pmm_page list \<Rightarrow> nat \<Rightarrow> pmm_page list outcome" where
  "clear_free pgs 0 = Done pgs"
| "clear_free pgs (Suc n) =
     obind (clear_free pgs n) (\<lambda>pgs'.
     obind (aread pgs' n) (\<lambda>pg. awrite pgs' n (pg\<lparr>pg_flags := pg_flags pg AND NOT PAGE_FLAG_FREE\<rparr>)))"

definition pmm_init :: "nat \<Rightarrow> pmm_region list \<Rightarrow> pmm outcome" where
  "pmm_init hdr regions =
     obind (init_regions hdr regions
       \<lparr>zone = [], pmm_total_blocks = 0, pmm_used_blocks = 0, pmm_internal_memory = 0\<rparr> None) (\<lambda>(p, biggest).
     case biggest of
       None \<Rightarrow> Panic
     | Some big \<Rightarrow>
         obind (aread (zone p) big) (\<lambda>b0.
         obind (init_arrays big 0 (s_start b0) p) (\<lambda>p1.
         obind (aread (zone p1) big) (\<lambda>b.
         obind (clear_free (s_pages b) (s_total b - s_nfree b)) (\<lambda>pgs.
         Done (p1\<lparr>zone := (zone p1)[big := b\<lparr>s_pages := pgs\<rparr>]\<rparr>))))))"

declare init_arrays.simps [simp del]

section \<open>The sections before their page arrays\<close>

text \<open>A section before its page array exists: every page is free.\<close>

definition fresh_sec :: "pmm_section \<Rightarrow> bool" where
  "fresh_sec s \<longleftrightarrow> PAGE_SIZE dvd s_start s \<and> PAGE_SIZE dvd s_size s \<and> 0 < s_start s \<and>
     s_total s < 2 ^ 32 \<and> (\<exists>n. s_bmap s = replicate n 0 \<and> (s_total s + 7) div 8 \<le> n) \<and>
     s_ffb s = 0 \<and> s_nfree s = s_total s \<and> s_pages s = []"

text \<open>The regions of the memory map: no two overlap and all lie below \<open>2 ^ 43\<close>.\<close>

definition region_apart :: "pmm_region \<Rightarrow> pmm_region \<Rightarrow> bool" where
  "region_apart r t \<longleftrightarrow> r_end r \<le> r_start t \<or> r_end t \<le> r_start r"

definition regions_ok :: "pmm_region list \<Rightarrow> bool" where
  "regions_ok rs \<longleftrightarrow> sorted_wrt region_apart rs \<and> (\<forall>r \<in> set rs. r_end r \<le> 2 ^ 43)"

definition outside :: "pmm_section \<Rightarrow> pmm_region \<Rightarrow> bool" where
  "outside s r \<longleftrightarrow> s_start s + s_size s \<le> r_start r \<or> r_end r \<le> s_start s"

lemma PAGE_ALIGN_UP_facts: "x \<le> PAGE_ALIGN_UP x" "PAGE_SIZE dvd PAGE_ALIGN_UP x" "0 < x \<Longrightarrow> 0 < PAGE_ALIGN_UP x"
proof -
  show "x \<le> PAGE_ALIGN_UP x" unfolding PAGE_ALIGN_UP_def PAGE_SIZE_def by linarith
  then show "0 < x \<Longrightarrow> 0 < PAGE_ALIGN_UP x" by linarith
qed (simp add: PAGE_ALIGN_UP_def)

lemma PAGE_ALIGN_DOWN_facts: "PAGE_ALIGN_DOWN x \<le> x" "PAGE_SIZE dvd PAGE_ALIGN_DOWN x"
  by (simp_all add: PAGE_ALIGN_DOWN_def)

lemma pmm_insertSection_ok:
  assumes r: "r_start r < r_end r" "PAGE_SIZE dvd r_start r" "PAGE_SIZE dvd r_end r" "r_end r \<le> 2 ^ 43"
    and t: "r_type r = PHYS_MEMORY_AVAILABLE \<or> r_type r = PHYS_MEMORY_MODULE"
  shows "(\<exists>p'. pmm_insertSection hdr r p = Done (None, p') \<and> zone p' = zone p \<and> pmm_used_blocks p' = pmm_used_blocks p) \<or>
    (\<exists>p' s. pmm_insertSection hdr r p = Done (Some (length (zone p)), p') \<and> zone p' = zone p @ [s] \<and>
      pmm_used_blocks p' = pmm_used_blocks p \<and>
      fresh_sec s \<and> r_start r \<le> s_start s \<and> s_start s + s_size s = r_end r)"
proof -
  define n where "n = (r_end r - r_start r) div PAGE_SIZE"
  define bytes where "bytes = (n + 7) div 8"
  define sz where "sz = PAGE_ALIGN_UP (hdr + bytes)"
  define s where "s = \<lparr>s_start = r_start r + sz, s_size = r_end r - r_start r - sz,
    s_bmap = replicate bytes 0, s_ffb = 0,
    s_nfree = (r_end r - r_start r - sz) div PAGE_SIZE, s_pages = []\<rparr>"
  have "0 < bytes"
  proof -
    have "PAGE_SIZE \<le> r_end r - r_start r"
      using r by (intro dvd_imp_le) (auto simp: dvd_diff_nat)
    then have "1 \<le> n" by (simp add: n_def less_eq_div_iff_mult_less_eq)
    then show ?thesis unfolding bytes_def by linarith
  qed
  then have pos: "0 < sz" unfolding sz_def by (intro PAGE_ALIGN_UP_facts(3)) simp
  have al: "PAGE_SIZE dvd sz" unfolding sz_def by (rule PAGE_ALIGN_UP_facts(2))
  have "s_total s \<le> 2 ^ 43 div PAGE_SIZE"
    unfolding s_def using r(4) by (intro div_le_mono) simp
  then have small: "s_total s < 2 ^ 32" by (simp add: PAGE_SIZE_def)
  have "s_total s \<le> n" unfolding s_def n_def by (intro div_le_mono) simp
  then have bm: "(s_total s + 7) div 8 \<le> bytes" unfolding bytes_def by (intro div_le_mono) simp
  have "PAGE_SIZE dvd s_start s" "PAGE_SIZE dvd s_size s" "0 < s_start s"
    using r al pos by (simp_all add: s_def dvd_diff_nat)
  then have fresh: "fresh_sec s"
    using small bm unfolding fresh_sec_def by (simp add: s_def)
  show ?thesis
  proof (cases "r_type r = PHYS_MEMORY_AVAILABLE \<and> sz \<le> r_end r - r_start r")
    case True
    have "\<exists>p'. pmm_insertSection hdr r p = Done (Some (length (zone p)), p') \<and> zone p' = zone p @ [s] \<and>
      pmm_used_blocks p' = pmm_used_blocks p"
      using True unfolding pmm_insertSection_def Let_def n_def [symmetric] bytes_def [symmetric] sz_def [symmetric]
      by (simp add: s_def)
    moreover have "r_start r \<le> s_start s" "s_start s + s_size s = r_end r"
      using True r(1) by (auto simp: s_def)
    ultimately show ?thesis using fresh by blast
  next
    case False
    then show ?thesis using t
      unfolding pmm_insertSection_def Let_def n_def [symmetric] bytes_def [symmetric] sz_def [symmetric]
      by (auto simp: PHYS_MEMORY_AVAILABLE_def PHYS_MEMORY_MODULE_def)
  qed
qed

definition fresh_zone :: "pmm_section list \<Rightarrow> bool" where
  "fresh_zone z \<longleftrightarrow> (\<forall>s \<in> set z. fresh_sec s) \<and> sorted_wrt apart z"

lemma fresh_zone_append:
  "fresh_zone z \<Longrightarrow> fresh_sec s \<Longrightarrow> (\<And>t. t \<in> set z \<Longrightarrow> apart t s) \<Longrightarrow> fresh_zone (z @ [s])"
  by (auto simp: fresh_zone_def sorted_wrt_append)

lemma init_regions_ok:
  assumes "regions_ok rs" "fresh_zone (zone p)" "pmm_used_blocks p = 0"
    and "\<And>s r. s \<in> set (zone p) \<Longrightarrow> r \<in> set rs \<Longrightarrow> outside s r"
    and "\<And>b. biggest = Some b \<Longrightarrow> b < length (zone p)"
  shows "\<exists>p' biggest'. init_regions hdr rs p biggest = Done (p', biggest') \<and> fresh_zone (zone p') \<and>
    pmm_used_blocks p' = 0 \<and> (\<forall>b. biggest' = Some b \<longrightarrow> b < length (zone p'))"
  using assms
proof (induction rs arbitrary: p biggest)
  case Nil
  then show ?case by simp
next
  case (Cons r0 rs)
  have rs: "regions_ok rs" using Cons.prems(1) by (simp add: regions_ok_def)
  define r where "r = r0\<lparr>r_start := PAGE_ALIGN_UP (r_start r0), r_end := PAGE_ALIGN_DOWN (r_end r0)\<rparr>"
  show ?case
  proof (cases "r_start r < r_end r \<and> (r_type r = PHYS_MEMORY_AVAILABLE \<or> r_type r = PHYS_MEMORY_MODULE)")
    case False
    have "init_regions hdr (r0 # rs) p biggest = init_regions hdr rs p biggest"
      using False by (auto simp: r_def Let_def)
    with Cons.IH [OF rs Cons.prems(2,3) _ Cons.prems(5)] Cons.prems(4) show ?thesis by simp
  next
    case True
    have inside: "r_start r0 \<le> r_start r" "r_end r \<le> r_end r0"
      using PAGE_ALIGN_UP_facts(1) PAGE_ALIGN_DOWN_facts(1) by (simp_all add: r_def)
    have "r_end r \<le> 2 ^ 43" using Cons.prems(1) inside(2) by (simp add: regions_ok_def)
    moreover have "PAGE_SIZE dvd r_start r" "PAGE_SIZE dvd r_end r"
      by (simp_all add: r_def PAGE_ALIGN_UP_facts PAGE_ALIGN_DOWN_facts)
    ultimately consider
        (skip) p1 where "pmm_insertSection hdr r p = Done (None, p1)" "zone p1 = zone p"
          "pmm_used_blocks p1 = 0"
      | (new) p1 s where "pmm_insertSection hdr r p = Done (Some (length (zone p)), p1)"
          "zone p1 = zone p @ [s]" "pmm_used_blocks p1 = 0" "fresh_sec s"
          "r_start r \<le> s_start s" "s_start s + s_size s = r_end r"
      using pmm_insertSection_ok [of r hdr p] True Cons.prems(3) by auto
    then show ?thesis
    proof cases
      case skip
      define b' where "b' = (if biggest = None \<and> r_type r = PHYS_MEMORY_AVAILABLE then None else biggest)"
      have "init_regions hdr (r0 # rs) p biggest = init_regions hdr rs p1 b'"
        using True skip(1) unfolding b'_def by (auto simp: Let_def simp flip: r_def split: option.split)
      moreover have "\<exists>p' biggest'. init_regions hdr rs p1 b' = Done (p', biggest') \<and> fresh_zone (zone p') \<and>
          pmm_used_blocks p' = 0 \<and> (\<forall>b. biggest' = Some b \<longrightarrow> b < length (zone p'))"
        by (rule Cons.IH [OF rs]) (use Cons.prems skip in \<open>auto simp: b'_def split: if_splits\<close>)
      ultimately show ?thesis by simp
    next
      case new
      have ap: "apart t s" if "t \<in> set (zone p)" for t
        using Cons.prems(4) [OF that, of r0] inside new(5,6) by (auto simp: outside_def apart_def)
      have out: "outside t r'" if "t \<in> set (zone p1)" "r' \<in> set rs" for t r'
      proof -
        have "region_apart r0 r'" using Cons.prems(1) that(2) by (simp add: regions_ok_def)
        then have "outside s r'" using inside new(5,6) by (auto simp: region_apart_def outside_def)
        with that Cons.prems(4) new(2) show ?thesis by auto
      qed
      have fz: "fresh_zone (zone p1)" unfolding new(2) using Cons.prems(2) new(4) ap by (rule fresh_zone_append)
      obtain l where l: "(case biggest of None \<Rightarrow> Done True
          | Some b \<Rightarrow> (if Some (length (zone p)) = None then Done False
              else obind (aread (zone p1) b) (\<lambda>bs. Done (s_size bs < r_end r - r_start r)))) = Done l"
        using Cons.prems(5) new(2) by (cases biggest) (auto simp: aread_in)
      define b' where "b' = (if l \<and> r_type r = PHYS_MEMORY_AVAILABLE then Some (length (zone p)) else biggest)"
      have "init_regions hdr (r0 # rs) p biggest = init_regions hdr rs p1 b'"
        using True new(1) l unfolding b'_def by (simp add: Let_def flip: r_def)
      moreover have "\<exists>p' biggest'. init_regions hdr rs p1 b' = Done (p', biggest') \<and> fresh_zone (zone p') \<and>
          pmm_used_blocks p' = 0 \<and> (\<forall>b. biggest' = Some b \<longrightarrow> b < length (zone p'))"
        by (rule Cons.IH [OF rs fz new(3) out])
          (use Cons.prems(5) new(2) in \<open>auto simp: b'_def less_Suc_eq split: if_splits\<close>)
      ultimately show ?thesis by simp
    qed
  qed
qed

section \<open>The page arrays\<close>

lemma init_pages_eq:
  "idx + n \<le> 8 * length m \<Longrightarrow> init_pages m idx n =
     Done (map (\<lambda>k. if pbits m (idx + k) then \<lparr>pg_flags = 0, pg_refcount = 1\<rparr>
                    else \<lparr>pg_flags = PAGE_FLAG_FREE, pg_refcount = 0\<rparr>) [0..<n])"
proof (induction n arbitrary: idx)
  case 0
  then show ?case by simp
next
  case (Suc n)
  have "[0..<Suc n] = 0 # map Suc [0..<n]" by (simp add: upt_conv_Cons map_Suc_upt del: upt_Suc)
  with Suc show ?case by (simp add: bmap_test_pbits o_def del: upt_Suc)
qed

lemma bit_mask_8: "bit (2 ^ k - 1 :: u8) j \<longleftrightarrow> j < k \<and> j < 8" if "k < 8"
proof -
  have "(2 ^ k - 1 :: u8) = mask k" by (simp add: mask_eq_exp_minus_1)
  then show ?thesis by (auto simp: bit_simps)
qed

lemma mark_used_ok:
  assumes "n \<le> 8 * length m"
  shows "\<exists>m'. mark_used m n = Done m' \<and> length m' = length m \<and>
    (\<forall>i < 8 * length m. pbits m' i = (i < n \<or> pbits m i))"
proof -
  define f where "f = n div 8"
  define m1 where "m1 = replicate f 0xFF @ drop f m"
  have fl: "f \<le> length m" using assms by (simp add: f_def)
  then have l1: "length m1 = length m" by (simp add: m1_def)
  have b1: "pbits m1 i = (i div 8 < f \<or> pbits m i)" if "i < 8 * length m" for i
  proof -
    have "i div 8 < length m" using that by (rule byte_index_lt)
    moreover have "bit (0xFF :: u8) (i mod 8)" using byte_full_iff [of "0xFF"] by simp
    ultimately show ?thesis using fl by (auto simp: pbits_def m1_def nth_append)
  qed
  show ?thesis
  proof (cases "n mod 8 = 0")
    case True
    then have n: "n = 8 * f" by (auto simp: f_def)
    have "mark_used m n = Done m1" using True fl by (simp add: mark_used_def Let_def f_def m1_def)
    moreover have "i div 8 < f \<longleftrightarrow> i < n" for i unfolding n by (simp add: div_less_iff_less_mult mult.commute)
    ultimately show ?thesis using l1 b1 by simp
  next
    case False
    have lt: "f < length m" using assms False unfolding f_def
      by (metis div_less_iff_less_mult le_neq_implies_less mod_mult_self2_is_0 mult.commute zero_less_numeral)
    define m2 where "m2 = m1[f := m1 ! f OR (2 ^ (n mod 8) - 1)]"
    have "mark_used m n = Done m2"
      using False fl lt l1 by (simp add: mark_used_def Let_def aread_in awrite_in m2_def flip: f_def m1_def)
    moreover have "pbits m2 i = (i < n \<or> pbits m i)" if i: "i < 8 * length m" for i
    proof (cases "i div 8 = f")
      case True
      then have "i < n \<longleftrightarrow> i mod 8 < n mod 8" unfolding f_def
        by (metis add_less_cancel_left mult_div_mod_eq)
      with True b1 [OF i] lt l1 show ?thesis
        by (auto simp: m2_def pbits_def bit_simps bit_mask_8)
    next
      case False
      then have "i div 8 < f \<longleftrightarrow> i < n" unfolding f_def
        by (metis div_le_mono leI le_neq_implies_less less_le_not_le)
      with False b1 [OF i] show ?thesis by (auto simp: m2_def pbits_def)
    qed
    ultimately show ?thesis using l1 by (simp add: m2_def)
  qed
qed

lemma clear_free_eq:
  "n \<le> length pgs \<Longrightarrow> \<exists>pgs'. clear_free pgs n = Done pgs' \<and> length pgs' = length pgs \<and>
     (\<forall>i < length pgs. pgs' ! i = (if i < n
        then (pgs ! i)\<lparr>pg_flags := pg_flags (pgs ! i) AND NOT PAGE_FLAG_FREE\<rparr> else pgs ! i))"
proof (induction n)
  case 0
  then show ?case by simp
next
  case (Suc n)
  then obtain pgs' where p: "clear_free pgs n = Done pgs'" "length pgs' = length pgs"
    "\<forall>i < length pgs. pgs' ! i = (if i < n
        then (pgs ! i)\<lparr>pg_flags := pg_flags (pgs ! i) AND NOT PAGE_FLAG_FREE\<rparr> else pgs ! i)" by auto
  with Suc.prems show ?case
    by (simp add: aread_in awrite_in) (auto simp: nth_list_update less_Suc_eq)
qed

abbreviation free_page :: pmm_page where
  "free_page \<equiv> \<lparr>pg_flags = PAGE_FLAG_FREE, pg_refcount = 0\<rparr>"

abbreviation held_page :: pmm_page where
  "held_page \<equiv> \<lparr>pg_flags = 0, pg_refcount = 1\<rparr>"

text \<open>A section other than the largest once it has its page array.\<close>

definition with_pages :: "pmm_section \<Rightarrow> pmm_section" where
  "with_pages s = s\<lparr>s_pages := replicate (s_total s) free_page\<rparr>"

text \<open>The largest section while its first \<open>u\<close> pages hold page arrays; \<open>d\<close> when it has its own.\<close>

definition big_ok :: "pmm_section \<Rightarrow> nat \<Rightarrow> bool \<Rightarrow> pmm_section \<Rightarrow> bool" where
  "big_ok b0 u d b \<longleftrightarrow> s_start b = s_start b0 \<and> s_size b = s_size b0 \<and> u \<le> s_total b0 \<and>
     length (s_bmap b) = length (s_bmap b0) \<and>
     (\<forall>i < 8 * length (s_bmap b0). pbits (s_bmap b) i = (i < u)) \<and>
     s_nfree b = s_total b0 - u \<and> s_ffb b \<le> u div 8 \<and>
     (d \<longrightarrow> length (s_pages b) = s_total b0 \<and>
       (\<forall>i < s_total b0. s_pages b ! i = free_page \<or> (i < u \<and> s_pages b ! i = held_page)))"

lemma pbits_zero: "i < 8 * n \<Longrightarrow> \<not> pbits (replicate n 0) i"
  using byte_index_lt [of i "replicate n (0 :: u8)"] by (simp add: pbits_def)

lemma fresh_sec_bits:
  assumes "fresh_sec s"
  shows "s_total s \<le> 8 * length (s_bmap s)" "i < 8 * length (s_bmap s) \<Longrightarrow> \<not> pbits (s_bmap s) i"
proof -
  from assms obtain n where n: "s_bmap s = replicate n 0" "(s_total s + 7) div 8 \<le> n"
    by (auto simp: fresh_sec_def)
  from n(2) have "s_total s \<le> 8 * n" by linarith
  with n show "s_total s \<le> 8 * length (s_bmap s)" "i < 8 * length (s_bmap s) \<Longrightarrow> \<not> pbits (s_bmap s) i"
    using pbits_zero [of i n] by auto
qed

lemma init_pages_fresh:
  assumes "fresh_sec s"
  shows "init_pages (s_bmap s) 0 (s_total s) = Done (replicate (s_total s) free_page)"
proof -
  have "map (\<lambda>k. if pbits (s_bmap s) (0 + k) then held_page else free_page) [0..<s_total s] =
      replicate (s_total s) free_page"
    using fresh_sec_bits [OF assms] by (intro nth_equalityI) auto
  then show ?thesis using init_pages_eq [of 0 "s_total s" "s_bmap s"] fresh_sec_bits(1) [OF assms] by simp
qed

lemma init_pages_big:
  assumes "fresh_sec b0" "big_ok b0 u d b"
  shows "\<exists>pgs. init_pages (s_bmap b) 0 (s_total b) = Done pgs \<and> big_ok b0 u True (b\<lparr>s_pages := pgs\<rparr>)"
proof -
  let ?pgs = "map (\<lambda>k. if pbits (s_bmap b) (0 + k) then held_page else free_page) [0..<s_total b]"
  have t: "s_total b = s_total b0" "length (s_bmap b) = length (s_bmap b0)"
    using assms(2) by (simp_all add: big_ok_def)
  have "init_pages (s_bmap b) 0 (s_total b) = Done ?pgs"
    using init_pages_eq [of 0 "s_total b" "s_bmap b"] fresh_sec_bits(1) [OF assms(1)] t by simp
  moreover have "big_ok b0 u True (b\<lparr>s_pages := ?pgs\<rparr>)"
    using assms(2) t fresh_sec_bits(1) [OF assms(1)] unfolding big_ok_def by auto
  ultimately show ?thesis by blast
qed

text \<open>Placing the next array of \<open>v\<close> pages.\<close>

lemma big_ok_step:
  assumes "fresh_sec b0" "big_ok b0 u d b" "u + v \<le> s_total b0"
  shows "\<exists>m. mark_used (s_bmap b) (u + v) = Done m \<and>
    big_ok b0 (u + v) d (b\<lparr>s_nfree := s_nfree b - v, s_bmap := m, s_ffb := (u + v) div 8\<rparr>)"
proof -
  have l: "length (s_bmap b) = length (s_bmap b0)" using assms(2) by (simp add: big_ok_def)
  then have "u + v \<le> 8 * length (s_bmap b)"
    using assms(3) fresh_sec_bits(1) [OF assms(1)] by simp
  from mark_used_ok [OF this] obtain m where m: "mark_used (s_bmap b) (u + v) = Done m"
    "length m = length (s_bmap b)" "\<forall>i < 8 * length (s_bmap b). pbits m i = (i < u + v \<or> pbits (s_bmap b) i)"
    by blast
  have "pbits m i = (i < u + v)" if "i < 8 * length (s_bmap b0)" for i
    using m(3) that l assms(2) by (auto simp: big_ok_def)
  with m assms l show ?thesis unfolding big_ok_def by auto
qed

definition arr_inv :: "pmm_section list \<Rightarrow> nat \<Rightarrow> nat \<Rightarrow> nat \<Rightarrow> pmm_section list \<Rightarrow> bool" where
  "arr_inv z0 big k u z \<longleftrightarrow> length z = length z0 \<and> big < length z0 \<and>
     (\<forall>j < length z0. j \<noteq> big \<longrightarrow> z ! j = (if j < k then with_pages (z0 ! j) else z0 ! j)) \<and>
     big_ok (z0 ! big) u (big < k) (z ! big)"

lemma init_arrays_ok:
  assumes "fresh_zone z0" "arr_inv z0 big k u (zone p)" "bo = s_start (z0 ! big) + u * PAGE_SIZE"
    "k \<le> length z0"
  shows "init_arrays big k bo p = Panic \<or>
    (\<exists>u' p'. init_arrays big k bo p = Done p' \<and> arr_inv z0 big (length z0) u' (zone p') \<and>
      pmm_used_blocks p' = pmm_used_blocks p)"
  using assms
proof (induction "length z0 - k" arbitrary: k u bo p rule: less_induct)
  case less
  note ai = less.prems(2)
  have len: "length (zone p) = length z0" "big < length z0" using ai by (simp_all add: arr_inv_def)
  have fresh: "fresh_sec (z0 ! j)" if "j < length z0" for j
    using less.prems(1) that by (simp add: fresh_zone_def)
  show ?case
  proof (cases "k < length (zone p)")
    case False
    with len less.prems(4) have "k = length z0" by simp
    with False ai show ?thesis by (subst init_arrays.simps) auto
  next
    case True
    define s where "s = zone p ! k"
    have tot: "s_total s = s_total (z0 ! k)"
      using ai True len by (cases "k = big") (auto simp: arr_inv_def big_ok_def s_def)
    define v where "v = PAGE_ALIGN_UP (s_total s * sizeof_pmm_page) div PAGE_SIZE"
    have v: "PAGE_ALIGN_UP (s_total s * sizeof_pmm_page) = v * PAGE_SIZE"
      by (simp add: v_def PAGE_ALIGN_UP_facts(2))
    obtain pgs where pgs: "init_pages (s_bmap s) 0 (s_total s) = Done pgs"
      and z1: "arr_inv z0 big (k + 1) u ((zone p)[k := s\<lparr>s_pages := pgs\<rparr>])"
    proof (cases "k = big")
      case kb: True
      then have "big_ok (z0 ! big) u False s" using ai by (simp add: arr_inv_def s_def)
      from init_pages_big [OF fresh [OF len(2)] this] obtain pgs where
        "init_pages (s_bmap s) 0 (s_total s) = Done pgs" "big_ok (z0 ! big) u True (s\<lparr>s_pages := pgs\<rparr>)" by blast
      with kb ai len that show ?thesis by (auto simp: arr_inv_def nth_list_update less_Suc_eq)
    next
      case kb: False
      then have sk: "s = z0 ! k" using ai True len by (simp add: arr_inv_def s_def)
      have "init_pages (s_bmap s) 0 (s_total s) = Done (replicate (s_total s) free_page)"
        unfolding sk using True len by (intro init_pages_fresh fresh) simp
      moreover have "arr_inv z0 big (k + 1) u ((zone p)[k := s\<lparr>s_pages := replicate (s_total s) free_page\<rparr>])"
        using ai kb len True by (auto simp: arr_inv_def nth_list_update less_Suc_eq with_pages_def sk)
      ultimately show ?thesis by (rule that)
    qed
    let ?z1 = "(zone p)[k := s\<lparr>s_pages := pgs\<rparr>]"
    define b where "b = ?z1 ! big"
    have b: "big_ok (z0 ! big) u (big < k + 1) b" using z1 by (simp add: arr_inv_def b_def)
    then have sb: "s_start b = s_start (z0 ! big)" "s_total b = s_total (z0 ! big)" by (simp_all add: big_ok_def)
    have used: "(bo + v * PAGE_SIZE - s_start b) div PAGE_SIZE = u + v"
      using less.prems(3) sb by (simp flip: add_mult_distrib)
    show ?thesis
    proof (cases "u + v \<le> s_total (z0 ! big)")
      case False
      have "init_arrays big k bo p = Panic"
        using True False pgs used sb len
        by (subst init_arrays.simps)
          (simp add: aread_in Let_def v flip: s_def b_def)
      then show ?thesis ..
    next
      case fits: True
      from big_ok_step [OF fresh [OF len(2)] b fits] obtain m where
        m: "mark_used (s_bmap b) (u + v) = Done m"
          "big_ok (z0 ! big) (u + v) (big < k + 1)
            (b\<lparr>s_nfree := s_nfree b - v, s_bmap := m, s_ffb := (u + v) div 8\<rparr>)" by blast
      let ?b1 = "b\<lparr>s_nfree := s_nfree b - v, s_bmap := m, s_ffb := (u + v) div 8\<rparr>"
      let ?p1 = "p\<lparr>zone := ?z1[big := ?b1], pmm_internal_memory := pmm_internal_memory p + v * PAGE_SIZE\<rparr>"
      have step: "init_arrays big k bo p = init_arrays big (k + 1) (bo + v * PAGE_SIZE) ?p1"
        using True fits pgs used sb len m(1)
        by (subst init_arrays.simps)
          (simp add: aread_in Let_def v flip: s_def b_def)
      have "arr_inv z0 big (k + 1) (u + v) (zone ?p1)"
        using z1 m(2) len by (auto simp: arr_inv_def nth_list_update)
      moreover have "bo + v * PAGE_SIZE = s_start (z0 ! big) + (u + v) * PAGE_SIZE"
        using less.prems(3) by (simp add: add_mult_distrib)
      moreover have "length z0 - (k + 1) < length z0 - k" "k + 1 \<le> length z0" using True len by simp_all
      ultimately show ?thesis
        unfolding step using less.hyps [of "k + 1" "u + v" ?p1] less.prems(1) by simp
    qed
  qed
qed

section \<open>The initial state of the allocator\<close>

lemma with_pages_inv:
  assumes "fresh_sec s"
  shows "sec_inv (with_pages s)"
proof -
  from assms obtain n where n: "s_bmap s = replicate n 0" "(s_total s + 7) div 8 \<le> n"
    by (auto simp: fresh_sec_def)
  have "free_count (s_bmap s) (s_total s) = s_total s"
    using fresh_sec_bits [OF assms] by (simp add: free_count_def)
  with assms n fresh_sec_bits [OF assms] show ?thesis
    by (auto simp: sec_inv_def with_pages_def fresh_sec_def pg_free_def)
qed

lemma big_inv:
  assumes "fresh_sec b0" "big_ok b0 u True b" "length pgs = s_total b0"
    and "\<And>i. i < s_total b0 \<Longrightarrow> pgs ! i = (if i < u
      then (s_pages b ! i)\<lparr>pg_flags := pg_flags (s_pages b ! i) AND NOT PAGE_FLAG_FREE\<rparr> else s_pages b ! i)"
  shows "sec_inv (b\<lparr>s_pages := pgs\<rparr>)"
proof -
  have f: "(s_total b0 + 7) div 8 \<le> length (s_bmap b0)" "s_total b0 \<le> 8 * length (s_bmap b0)"
    using assms(1) fresh_sec_bits(1) [OF assms(1)] by (auto simp: fresh_sec_def)
  have bits: "pbits (s_bmap b) i = (i < u)" if "i < 8 * length (s_bmap b0)" for i
    using assms(2) that by (simp add: big_ok_def)
  have u: "u \<le> s_total b0" using assms(2) by (simp add: big_ok_def)
  have "{i. i < s_total b0 \<and> \<not> pbits (s_bmap b) i} = {u..<s_total b0}"
    using bits f(2) by auto
  then have cnt: "free_count (s_bmap b) (s_total b0) = s_total b0 - u" by (simp add: free_count_card)
  have hint: "s_bmap b ! j = 0xFF" if "j < s_ffb b" "j < length (s_bmap b)" for j
  proof -
    have "j < u div 8" using that(1) assms(2) by (simp add: big_ok_def)
    then have "pbits (s_bmap b) i" if "i div 8 = j" for i
      using that bits [of i] \<open>j < length (s_bmap b)\<close> assms(2)
      by (metis big_ok_def div_le_mono div_less_iff_less_mult leI leD mult.commute zero_less_numeral)
    then show ?thesis by (simp add: byte_full_pbits)
  qed
  have pg: "pg_free (pgs ! i) = (\<not> pbits (s_bmap b) i) \<and> (\<not> pbits (s_bmap b) i \<longrightarrow> pg_refcount (pgs ! i) = 0)"
    if "i < s_total b0" for i
  proof -
    have "s_pages b ! i = free_page \<or> (i < u \<and> s_pages b ! i = held_page)"
      using assms(2) that by (simp add: big_ok_def)
    with assms(4) [OF that] bits [of i] f(2) that show ?thesis
      by (auto simp: pg_free_def flag_cleared)
  qed
  show ?thesis
    using assms(1,2,3) f(1) cnt hint pg unfolding sec_inv_def by (auto simp: big_ok_def fresh_sec_def)
qed

lemma pmm_init_ok:
  assumes "regions_ok rs"
  shows "pmm_init hdr rs = Panic \<or>
    (\<exists>p. pmm_init hdr rs = Done p \<and> zone_inv (zone p) \<and> pmm_used_blocks p = 0)"
proof -
  let ?p0 = "\<lparr>zone = [], pmm_total_blocks = 0, pmm_used_blocks = 0, pmm_internal_memory = 0\<rparr>"
  have "\<exists>p' biggest'. init_regions hdr rs ?p0 None = Done (p', biggest') \<and> fresh_zone (zone p') \<and>
    pmm_used_blocks p' = 0 \<and> (\<forall>b. biggest' = Some b \<longrightarrow> b < length (zone p'))"
    by (rule init_regions_ok [OF assms]) (simp_all add: fresh_zone_def)
  then obtain p big where p: "init_regions hdr rs ?p0 None = Done (p, big)" "fresh_zone (zone p)"
    "pmm_used_blocks p = 0" "\<forall>b. big = Some b \<longrightarrow> b < length (zone p)" by blast
  show ?thesis
  proof (cases big)
    case None
    with p(1) show ?thesis by (simp add: pmm_init_def)
  next
    case (Some b)
    let ?z0 = "zone p"
    have b: "b < length ?z0" using p(4) Some by simp
    have fresh: "fresh_sec (?z0 ! j)" if "j < length ?z0" for j using p(2) that by (simp add: fresh_zone_def)
    have "big_ok (?z0 ! b) 0 False (?z0 ! b)"
      using fresh [OF b] fresh_sec_bits [OF fresh [OF b]] by (auto simp: big_ok_def fresh_sec_def)
    then have "arr_inv ?z0 b 0 0 (zone p)" using b by (simp add: arr_inv_def)
    then consider "init_arrays b 0 (s_start (?z0 ! b)) p = Panic"
      | u p' where "init_arrays b 0 (s_start (?z0 ! b)) p = Done p'"
          "arr_inv ?z0 b (length ?z0) u (zone p')" "pmm_used_blocks p' = 0"
      using init_arrays_ok [OF p(2), of b 0 0 p] p(3) by auto
    then show ?thesis
    proof cases
      case 1
      with p(1) Some b show ?thesis by (simp add: pmm_init_def aread_in)
    next
      case 2
      have ok: "big_ok (?z0 ! b) u True (zone p' ! b)" using 2(2) b by (simp add: arr_inv_def)
      have l: "length (zone p') = length ?z0" using 2(2) by (simp add: arr_inv_def)
      have e: "s_total (zone p' ! b) - s_nfree (zone p' ! b) = u" "length (s_pages (zone p' ! b)) = s_total (?z0 ! b)"
        "u \<le> s_total (?z0 ! b)"
        using ok by (simp_all add: big_ok_def)
      from clear_free_eq [of u "s_pages (zone p' ! b)"] e obtain pgs where
        c: "clear_free (s_pages (zone p' ! b)) u = Done pgs" "length pgs = s_total (?z0 ! b)"
          "\<forall>i < s_total (?z0 ! b). pgs ! i = (if i < u
            then (s_pages (zone p' ! b) ! i)\<lparr>pg_flags := pg_flags (s_pages (zone p' ! b) ! i) AND NOT PAGE_FLAG_FREE\<rparr>
            else s_pages (zone p' ! b) ! i)" by auto
      let ?zn = "(zone p')[b := (zone p' ! b)\<lparr>s_pages := pgs\<rparr>]"
      have run: "pmm_init hdr rs = Done (p'\<lparr>zone := ?zn\<rparr>)"
        using p(1) Some b 2(1) l c(1) e(1) by (simp add: pmm_init_def aread_in)
      have "sec_inv ((zone p' ! b)\<lparr>s_pages := pgs\<rparr>)"
        by (rule big_inv [OF fresh [OF b] ok c(2)]) (use c(3) in simp)
      then have inv: "sec_inv (?zn ! j)" if "j < length ?zn" for j
        using that 2(2) l with_pages_inv [OF fresh, of j]
        by (cases "j = b") (auto simp: arr_inv_def)
      have place: "s_start (?zn ! j) = s_start (?z0 ! j) \<and> s_size (?zn ! j) = s_size (?z0 ! j)"
        if "j < length ?z0" for j
        using that 2(2) ok l by (cases "j = b") (auto simp: arr_inv_def big_ok_def with_pages_def)
      have "sorted_wrt apart ?zn" unfolding sorted_wrt_iff_nth_less
      proof (intro allI impI)
        fix i j assume ij: "i < j" "j < length ?zn"
        with p(2) l have "apart (?z0 ! i) (?z0 ! j)" by (simp add: fresh_zone_def sorted_wrt_iff_nth_less)
        with place [of i] place [of j] ij l show "apart (?zn ! i) (?zn ! j)" by (simp add: apart_def)
      qed
      with inv have "zone_inv ?zn" by (auto simp: zone_inv_def in_set_conv_nth)
      with run 2(3) show ?thesis by simp
    qed
  qed
qed

section \<open>Properties\<close>



end
