(* ===== verification/Mmu.thy ===== *)
theory Mmu
  imports Pmm
begin

text \<open>
  The four-level page tables of the x86\_64 port, \<^verbatim>\<open>hexahedron/arch/x86_64/mmu.c\<close>. Physical memory is
  a function from the address of a page and the index of one of its 512 words to the word. The
  code reaches a table with physical address \<open>t\<close> through the direct map at \<open>TO_HHDM t\<close>; the model
  names a table by \<open>t\<close>. Virtual addresses are natural numbers below \<open>2 ^ 64\<close>.

  The theory shows that the tables behind a directory implement a function from virtual pages to
  entries, that \<open>arch_mmu_map\<close>, \<open>arch_mmu_unmap\<close> and \<open>arch_mmu_setflags\<close> change it at exactly one
  page, and that no memory but the tables of the directory and free frames changes.
\<close>

section \<open>Definitions\<close>

record machine =
  mem :: "nat \<Rightarrow> nat \<Rightarrow> u64"
  frames :: pmm
  cur_dir :: nat
  kernel_pml :: nat

text \<open>The bits of an entry, and the portable flags.\<close>

definition MMU_PAGE_FLAG_PRESENT :: u64 where "MMU_PAGE_FLAG_PRESENT = 0x1"
definition MMU_PAGE_FLAG_RW :: u64 where "MMU_PAGE_FLAG_RW = 0x2"
definition MMU_PAGE_FLAG_USER :: u64 where "MMU_PAGE_FLAG_USER = 0x4"
definition MMU_PAGE_FLAG_WT :: u64 where "MMU_PAGE_FLAG_WT = 0x8"
definition MMU_PAGE_FLAG_CD :: u64 where "MMU_PAGE_FLAG_CD = 0x10"
definition MMU_PAGE_FLAG_DIRTY :: u64 where "MMU_PAGE_FLAG_DIRTY = 0x40"
definition MMU_PAGE_FLAG_SIZE :: u64 where "MMU_PAGE_FLAG_SIZE = 0x80"
definition MMU_PAGE_FLAG_GLOBAL :: u64 where "MMU_PAGE_FLAG_GLOBAL = 0x100"
definition MMU_PAGE_FLAG_NX :: u64 where "MMU_PAGE_FLAG_NX = 0x8000000000000000"

definition MMU_PAGE_ADDR :: "u64 \<Rightarrow> u64" where
  "MMU_PAGE_ADDR pg = pg AND 0x000FFFFFFFFFF000"

definition MMU_FLAG_PRESENT :: u64 where "MMU_FLAG_PRESENT = 0x1"
definition MMU_FLAG_WRITE :: u64 where "MMU_FLAG_WRITE = 0x2"
definition MMU_FLAG_USER :: u64 where "MMU_FLAG_USER = 0x4"
definition MMU_FLAG_NOEXEC :: u64 where "MMU_FLAG_NOEXEC = 0x8"
definition MMU_FLAG_GLOBAL :: u64 where "MMU_FLAG_GLOBAL = 0x10"
definition MMU_FLAG_WB :: u64 where "MMU_FLAG_WB = 0x0"
definition MMU_FLAG_WC :: u64 where "MMU_FLAG_WC = 0x20"
definition MMU_FLAG_WT :: u64 where "MMU_FLAG_WT = 0x40"
definition MMU_FLAG_UC :: u64 where "MMU_FLAG_UC = 0x80"
definition MMU_FLAG_DIRTY :: u64 where "MMU_FLAG_DIRTY = 0x100"

definition MMU_HHDM_REGION :: nat where "MMU_HHDM_REGION = 0xFFFFFF8000000000"
definition MMU_HHDM_SIZE :: nat where "MMU_HHDM_SIZE = 0x0000001000000000"

text \<open>
  \<open>x | MMU_HHDM_REGION\<close> and \<open>x & ~MMU_HHDM_REGION\<close>: the region has its 25 high bits set and its
  39 low bits clear.
\<close>

definition TO_HHDM :: "nat \<Rightarrow> nat" where "TO_HHDM x = x OR MMU_HHDM_REGION"
definition FROM_HHDM :: "nat \<Rightarrow> nat" where "FROM_HHDM x = take_bit 39 x"

definition MMU_PML4_INDEX :: "nat \<Rightarrow> nat" where "MMU_PML4_INDEX x = x div 2 ^ 39 mod 512"
definition MMU_PDPT_INDEX :: "nat \<Rightarrow> nat" where "MMU_PDPT_INDEX x = x div 2 ^ 30 mod 512"
definition MMU_PAGEDIR_INDEX :: "nat \<Rightarrow> nat" where "MMU_PAGEDIR_INDEX x = x div 2 ^ 21 mod 512"
definition MMU_PAGETBL_INDEX :: "nat \<Rightarrow> nat" where "MMU_PAGETBL_INDEX x = x div 2 ^ 12 mod 512"

text \<open>The 17 high bits are all clear or all set.\<close>

definition MMU_IS_CANONICAL :: "nat \<Rightarrow> bool" where
  "MMU_IS_CANONICAL addr \<longleftrightarrow> addr div 2 ^ 47 = 0 \<or> addr div 2 ^ 47 = 2 ^ 17 - 1"

definition set_entry :: "nat \<Rightarrow> nat \<Rightarrow> u64 \<Rightarrow> machine \<Rightarrow> machine" where
  "set_entry t i e m = m\<lparr>mem := (mem m)(t := (mem m t)(i := e))\<rparr>"

text \<open>\<^verbatim>\<open>memset(page, 0, PAGE_SIZE)\<close>.\<close>

definition zero_page :: "nat \<Rightarrow> machine \<Rightarrow> machine" where
  "zero_page t m = m\<lparr>mem := (mem m)(t := (\<lambda>_. 0))\<rparr>"

text \<open>\<open>pmm_allocatePage\<close> on the machine.\<close>

definition alloc_frame :: "machine \<Rightarrow> (nat \<times> machine) outcome" where
  "alloc_frame m = obind (pmm_allocatePage (frames m)) (\<lambda>(p, fr). Done (p, m\<lparr>frames := fr\<rparr>))"

definition free_frame :: "nat \<Rightarrow> machine \<Rightarrow> machine outcome" where
  "free_frame p m = obind (pmm_freePage (frames m) p) (\<lambda>fr. Done (m\<lparr>frames := fr\<rparr>))"

text \<open>One level of the walk: the table that an entry refers to, created when the caller allows it.\<close>

definition next_table :: "nat \<Rightarrow> nat \<Rightarrow> bool \<Rightarrow> machine \<Rightarrow> (nat option \<times> machine) outcome" where
  "next_table t i allow_nonpresent m =
     (if mem m t i AND MMU_PAGE_FLAG_PRESENT = 0 then
        (if \<not> allow_nonpresent then Done (None, m)
         else obind (alloc_frame m) (\<lambda>(p, m1).
           Done (Some p, set_entry t i
             (word_of_nat p OR MMU_PAGE_FLAG_USER OR MMU_PAGE_FLAG_RW OR MMU_PAGE_FLAG_PRESENT)
             (zero_page p m1))))
      else Done (Some (unat (MMU_PAGE_ADDR (mem m t i))), m))"

text \<open>The directory argument, \<open>None\<close> for the current one.\<close>

definition arch_mmu_dir :: "nat option \<Rightarrow> machine \<Rightarrow> nat" where
  "arch_mmu_dir dir m = (case dir of None \<Rightarrow> cur_dir m | Some d \<Rightarrow> d)"

definition arch_mmu_get_page ::
  "nat option \<Rightarrow> nat \<Rightarrow> bool \<Rightarrow> machine \<Rightarrow> ((nat \<times> nat) option \<times> machine) outcome" where
  "arch_mmu_get_page dir virt allow m =
     obind (next_table (arch_mmu_dir dir m) (MMU_PML4_INDEX virt) allow m) (\<lambda>(r, m1).
     case r of None \<Rightarrow> Done (None, m1) | Some pdpt \<Rightarrow>
     obind (next_table pdpt (MMU_PDPT_INDEX virt) allow m1) (\<lambda>(r, m2).
     case r of None \<Rightarrow> Done (None, m2) | Some pd \<Rightarrow>
     obind (next_table pd (MMU_PAGEDIR_INDEX virt) allow m2) (\<lambda>(r, m3).
     case r of None \<Rightarrow> Done (None, m3) | Some pt \<Rightarrow> Done (Some (pt, MMU_PAGETBL_INDEX virt), m3))))"

definition translate_flag :: "u64 \<Rightarrow> u64 \<Rightarrow> u64 \<Rightarrow> u64" where
  "translate_flag flags flg flg2 = (if flags AND flg \<noteq> 0 then flg2 else 0)"

text \<open>The entry that \<open>arch_mmu_map\<close> stores.\<close>

definition map_entry :: "nat \<Rightarrow> u64 \<Rightarrow> u64" where
  "map_entry phys flags =
     MMU_PAGE_ADDR (word_of_nat phys)
     OR translate_flag flags MMU_FLAG_PRESENT MMU_PAGE_FLAG_PRESENT
     OR translate_flag flags MMU_FLAG_WRITE MMU_PAGE_FLAG_RW
     OR translate_flag flags MMU_FLAG_USER MMU_PAGE_FLAG_USER
     OR translate_flag flags MMU_FLAG_NOEXEC MMU_PAGE_FLAG_NX
     OR translate_flag flags MMU_FLAG_GLOBAL MMU_PAGE_FLAG_GLOBAL
     OR translate_flag flags MMU_FLAG_WC MMU_PAGE_FLAG_SIZE
     OR translate_flag flags MMU_FLAG_WT MMU_PAGE_FLAG_WT
     OR translate_flag flags MMU_FLAG_UC MMU_PAGE_FLAG_CD"

definition arch_mmu_map :: "nat option \<Rightarrow> nat \<Rightarrow> nat \<Rightarrow> u64 \<Rightarrow> machine \<Rightarrow> machine outcome" where
  "arch_mmu_map dir virt phys flags m =
     oassert (MMU_IS_CANONICAL virt) (
     obind (arch_mmu_get_page dir (PAGE_ALIGN_DOWN virt) True m) (\<lambda>(page, m1).
     case page of None \<Rightarrow> Fault | Some (t, i) \<Rightarrow> Done (set_entry t i (map_entry phys flags) m1)))"

definition arch_mmu_unmap :: "nat option \<Rightarrow> nat \<Rightarrow> machine \<Rightarrow> machine outcome" where
  "arch_mmu_unmap dir virt m =
     oassert (MMU_IS_CANONICAL virt) (
     obind (arch_mmu_get_page dir virt False m) (\<lambda>(pg, m1).
     case pg of None \<Rightarrow> Done m1 | Some (t, i) \<Rightarrow> Done (set_entry t i 0 m1)))"

definition arch_mmu_physical :: "nat option \<Rightarrow> nat \<Rightarrow> machine \<Rightarrow> nat outcome" where
  "arch_mmu_physical dir addr m =
     (if addr \<ge> MMU_HHDM_REGION \<and> addr < MMU_HHDM_REGION + MMU_HHDM_SIZE then Done (FROM_HHDM addr)
      else
        let off = addr mod 4096 in
        obind (arch_mmu_get_page dir addr False m) (\<lambda>(page, m1).
        case page of None \<Rightarrow> Done 0
        | Some (t, i) \<Rightarrow> Done (unat (MMU_PAGE_ADDR (mem m1 t i)) + off)))"

text \<open>The portable flags of an entry; the caching mode comes from a table indexed by three bits.\<close>

definition pat_indexes :: "u64 list" where
  "pat_indexes = [MMU_FLAG_WB, MMU_FLAG_WT, MMU_FLAG_UC, MMU_FLAG_UC,
                  MMU_FLAG_WC, MMU_FLAG_WT, MMU_FLAG_UC, MMU_FLAG_UC]"

definition entry_flags :: "u64 \<Rightarrow> u64" where
  "entry_flags pg =
     translate_flag pg MMU_PAGE_FLAG_PRESENT MMU_FLAG_PRESENT
     OR translate_flag pg MMU_PAGE_FLAG_RW MMU_FLAG_WRITE
     OR translate_flag pg MMU_PAGE_FLAG_USER MMU_FLAG_USER
     OR translate_flag pg MMU_PAGE_FLAG_NX MMU_FLAG_NOEXEC
     OR translate_flag pg MMU_PAGE_FLAG_GLOBAL MMU_FLAG_GLOBAL
     OR translate_flag pg MMU_PAGE_FLAG_DIRTY MMU_FLAG_DIRTY
     OR pat_indexes ! ((if pg AND MMU_PAGE_FLAG_SIZE \<noteq> 0 then 4 else 0)
        + (if pg AND MMU_PAGE_FLAG_CD \<noteq> 0 then 2 else 0)
        + (if pg AND MMU_PAGE_FLAG_WT \<noteq> 0 then 1 else 0))"

definition arch_mmu_read_flags :: "nat option \<Rightarrow> nat \<Rightarrow> machine \<Rightarrow> u64 outcome" where
  "arch_mmu_read_flags dir addr m =
     obind (arch_mmu_get_page dir addr False m) (\<lambda>(pg, m1).
     case pg of None \<Rightarrow> Done 0 | Some (t, i) \<Rightarrow> Done (entry_flags (mem m1 t i)))"

definition update_flag :: "u64 \<Rightarrow> u64 \<Rightarrow> u64 \<Rightarrow> u64 \<Rightarrow> u64" where
  "update_flag flags flg flg2 page = (if flags AND flg \<noteq> 0 then page OR flg2 else page AND NOT flg2)"

definition setflags_entry :: "u64 \<Rightarrow> u64 \<Rightarrow> u64" where
  "setflags_entry flags page =
     update_flag flags MMU_FLAG_UC MMU_PAGE_FLAG_CD (
     update_flag flags MMU_FLAG_WT MMU_PAGE_FLAG_WT (
     update_flag flags MMU_FLAG_WC MMU_PAGE_FLAG_SIZE (
     update_flag flags MMU_FLAG_GLOBAL MMU_PAGE_FLAG_GLOBAL (
     update_flag flags MMU_FLAG_NOEXEC MMU_PAGE_FLAG_NX (
     update_flag flags MMU_FLAG_USER MMU_PAGE_FLAG_USER (
     update_flag flags MMU_FLAG_WRITE MMU_PAGE_FLAG_RW (
     update_flag flags MMU_FLAG_PRESENT MMU_PAGE_FLAG_PRESENT page)))))))"

definition arch_mmu_setflags :: "nat option \<Rightarrow> nat \<Rightarrow> u64 \<Rightarrow> machine \<Rightarrow> (int \<times> machine) outcome" where
  "arch_mmu_setflags dir i flags m =
     obind (arch_mmu_get_page dir i False m) (\<lambda>(page, m1).
     case page of None \<Rightarrow> Done (1, m1)
     | Some (t, k) \<Rightarrow> Done (0, set_entry t k (setflags_entry flags (mem m1 t k)) m1))"

definition arch_mmu_remap_physical :: "nat \<Rightarrow> nat" where
  "arch_mmu_remap_physical addr = TO_HHDM addr"

definition arch_mmu_new_dir :: "machine \<Rightarrow> (nat \<times> machine) outcome" where
  "arch_mmu_new_dir m = obind (alloc_frame m) (\<lambda>(p, m1). Done (p, zero_page p m1))"

text \<open>The 256 entries of the upper half.\<close>

definition arch_mmu_copy_kernel :: "nat \<Rightarrow> machine \<Rightarrow> machine" where
  "arch_mmu_copy_kernel dir m =
     m\<lparr>mem := (mem m)(dir := (\<lambda>i. if 256 \<le> i \<and> i < 512 then mem m (kernel_pml m) i else mem m dir i))\<rparr>"

text \<open>
  The tables of the lower half are freed, innermost first; the frames they map are not touched.
\<close>

definition destroy_pd :: "nat \<Rightarrow> machine \<Rightarrow> machine outcome" where
  "destroy_pd pd = ofold (\<lambda>k m.
     if mem m pd k AND MMU_PAGE_FLAG_PRESENT = 0 then Done m
     else obind (free_frame (unat (MMU_PAGE_ADDR (mem m pd k))) m) (\<lambda>m1.
       Done (set_entry pd k 0 m1))) [0..<512]"

definition destroy_pdpt :: "nat \<Rightarrow> machine \<Rightarrow> machine outcome" where
  "destroy_pdpt pdpt = ofold (\<lambda>j m.
     if mem m pdpt j AND MMU_PAGE_FLAG_PRESENT = 0 then Done m
     else
       obind (destroy_pd (unat (MMU_PAGE_ADDR (mem m pdpt j))) m) (\<lambda>m1.
       obind (free_frame (unat (MMU_PAGE_ADDR (mem m1 pdpt j))) m1) (\<lambda>m2.
       Done (set_entry pdpt j 0 m2)))) [0..<512]"

definition arch_mmu_destroy :: "nat \<Rightarrow> machine \<Rightarrow> machine outcome" where
  "arch_mmu_destroy dir m =
     obind (ofold (\<lambda>i m.
       if mem m dir i AND MMU_PAGE_FLAG_PRESENT = 0 then Done m
       else
         obind (destroy_pdpt (unat (MMU_PAGE_ADDR (mem m dir i))) m) (\<lambda>m1.
         obind (free_frame (unat (MMU_PAGE_ADDR (mem m1 dir i))) m1) (\<lambda>m2.
         Done (set_entry dir i 0 m2)))) [0..<256] m) (\<lambda>m1.
     free_frame dir m1)"

section \<open>Entries\<close>

lemmas page_flag_defs =
  MMU_PAGE_FLAG_PRESENT_def MMU_PAGE_FLAG_RW_def MMU_PAGE_FLAG_USER_def MMU_PAGE_FLAG_WT_def
  MMU_PAGE_FLAG_CD_def MMU_PAGE_FLAG_DIRTY_def MMU_PAGE_FLAG_SIZE_def MMU_PAGE_FLAG_GLOBAL_def
  MMU_PAGE_FLAG_NX_def

lemmas mmu_flag_defs =
  MMU_FLAG_PRESENT_def MMU_FLAG_WRITE_def MMU_FLAG_USER_def MMU_FLAG_NOEXEC_def MMU_FLAG_GLOBAL_def
  MMU_FLAG_WB_def MMU_FLAG_WC_def MMU_FLAG_WT_def MMU_FLAG_UC_def MMU_FLAG_DIRTY_def

text \<open>A physical address that fits an entry.\<close>

definition entry_addr :: "nat \<Rightarrow> bool" where
  "entry_addr p \<longleftrightarrow> PAGE_SIZE dvd p \<and> p < 2 ^ 52"

lemma addr_mask_bits: "bit (0x000FFFFFFFFFF000 :: u64) n \<longleftrightarrow> 12 \<le> n \<and> n < 52"
proof -
  have e: "(0x000FFFFFFFFFF000 :: u64) = push_bit 12 (mask 40)"
    by (simp add: mask_eq_exp_minus_1 push_bit_eq_mult)
  show ?thesis unfolding e by (auto simp: bit_simps)
qed

lemma bit_PAGE_ADDR: "bit (MMU_PAGE_ADDR w) n \<longleftrightarrow> 12 \<le> n \<and> n < 52 \<and> bit w n"
  by (auto simp only: MMU_PAGE_ADDR_def bit_and_iff addr_mask_bits)

lemma entry_addr_bits: "entry_addr p \<Longrightarrow> bit p n \<Longrightarrow> 12 \<le> n \<and> n < 52"
proof (rule ccontr)
  assume p: "entry_addr p" "bit p n" "\<not> (12 \<le> n \<and> n < 52)"
  then consider "n < 12" | "52 \<le> n" by linarith
  then show False
  proof cases
    case 1
    then have "(2::nat) ^ Suc n dvd 2 ^ 12" by (intro le_imp_power_dvd) simp
    also have "(2::nat) ^ 12 dvd p" using p(1) by (simp add: entry_addr_def PAGE_SIZE_def)
    finally have "even (p div 2 ^ n)" by (auto elim!: dvdE)
    with p(2) show False by (simp add: bit_iff_odd)
  next
    case 2
    then have "p < 2 ^ n" using p(1) power_increasing [of 52 n "2::nat"]
      by (simp add: entry_addr_def)
    with p(2) show False by (simp add: bit_iff_odd)
  qed
qed

lemma addr_of_nat: "entry_addr p \<Longrightarrow> MMU_PAGE_ADDR (word_of_nat p) = word_of_nat p"
  by (rule bit_word_eqI) (auto simp: bit_PAGE_ADDR bit_simps dest: entry_addr_bits)

lemma unat_entry_addr: "entry_addr p \<Longrightarrow> unat (word_of_nat p :: u64) = p"
  by (simp add: entry_addr_def unat_of_nat)

lemma PAGE_ADDR_or: "MMU_PAGE_ADDR (a OR b) = MMU_PAGE_ADDR a OR MMU_PAGE_ADDR b"
  by (simp add: MMU_PAGE_ADDR_def bit.conj_disj_distrib2)

lemma PAGE_ADDR_idem: "MMU_PAGE_ADDR (MMU_PAGE_ADDR a) = MMU_PAGE_ADDR a"
  by (simp add: MMU_PAGE_ADDR_def)

lemma PAGE_ADDR_flags [simp]:
  "MMU_PAGE_ADDR MMU_PAGE_FLAG_PRESENT = 0" "MMU_PAGE_ADDR MMU_PAGE_FLAG_RW = 0"
  "MMU_PAGE_ADDR MMU_PAGE_FLAG_USER = 0" "MMU_PAGE_ADDR MMU_PAGE_FLAG_NX = 0"
  "MMU_PAGE_ADDR MMU_PAGE_FLAG_GLOBAL = 0" "MMU_PAGE_ADDR MMU_PAGE_FLAG_SIZE = 0"
  "MMU_PAGE_ADDR MMU_PAGE_FLAG_WT = 0" "MMU_PAGE_ADDR MMU_PAGE_FLAG_CD = 0" "MMU_PAGE_ADDR 0 = 0"
  by (simp_all add: MMU_PAGE_ADDR_def page_flag_defs)

lemma PAGE_ADDR_translate: "MMU_PAGE_ADDR b = 0 \<Longrightarrow> MMU_PAGE_ADDR (translate_flag f a b) = 0"
  by (simp add: translate_flag_def)

lemma table_entry_addr:
  "entry_addr p \<Longrightarrow> MMU_PAGE_ADDR (word_of_nat p OR MMU_PAGE_FLAG_USER OR MMU_PAGE_FLAG_RW
     OR MMU_PAGE_FLAG_PRESENT) = word_of_nat p"
  by (simp add: PAGE_ADDR_or addr_of_nat)

lemma table_entry_present:
  "(a OR b OR c OR MMU_PAGE_FLAG_PRESENT) AND MMU_PAGE_FLAG_PRESENT \<noteq> 0"
proof -
  have "bit ((a OR b OR c OR MMU_PAGE_FLAG_PRESENT) AND MMU_PAGE_FLAG_PRESENT) 0"
    by (simp add: bit_simps MMU_PAGE_FLAG_PRESENT_def)
  then show ?thesis by (metis bit_0_eq bot_apply bot_bool_def)
qed

lemma map_entry_addr: "entry_addr p \<Longrightarrow> unat (MMU_PAGE_ADDR (map_entry p f)) = p"
  by (simp add: map_entry_def PAGE_ADDR_or PAGE_ADDR_idem PAGE_ADDR_translate addr_of_nat unat_entry_addr)

section \<open>The tables behind a directory\<close>

text \<open>The index used at level \<open>k\<close> of the walk, and addresses that agree on the first \<open>k\<close> of them.\<close>

definition level_index :: "nat \<Rightarrow> nat \<Rightarrow> nat" where
  "level_index k v = v div 2 ^ (39 - 9 * k) mod 512"

definition agree :: "nat \<Rightarrow> nat \<Rightarrow> nat \<Rightarrow> bool" where
  "agree k v w \<longleftrightarrow> (\<forall>j < k. level_index j v = level_index j w)"

lemma level_indices:
  "MMU_PML4_INDEX v = level_index 0 v" "MMU_PDPT_INDEX v = level_index 1 v"
  "MMU_PAGEDIR_INDEX v = level_index 2 v" "MMU_PAGETBL_INDEX v = level_index 3 v"
  by (simp_all add: level_index_def MMU_PML4_INDEX_def MMU_PDPT_INDEX_def MMU_PAGEDIR_INDEX_def
      MMU_PAGETBL_INDEX_def)

text \<open>The table that the walk for \<open>v\<close> reaches after \<open>k\<close> steps.\<close>

fun table :: "(nat \<Rightarrow> nat \<Rightarrow> u64) \<Rightarrow> nat \<Rightarrow> nat \<Rightarrow> nat \<Rightarrow> nat option" where
  "table pm dir 0 v = Some dir"
| "table pm dir (Suc k) v =
     (case table pm dir k v of None \<Rightarrow> None
      | Some t \<Rightarrow>
          let e = pm t (level_index k v) in
          if e AND MMU_PAGE_FLAG_PRESENT = 0 then None else Some (unat (MMU_PAGE_ADDR e)))"

text \<open>The entry of a virtual page; a missing table reads as the empty entry.\<close>

definition pte :: "machine \<Rightarrow> nat \<Rightarrow> nat \<Rightarrow> u64" where
  "pte m dir v =
     (case table (mem m) dir 3 v of None \<Rightarrow> 0 | Some t \<Rightarrow> mem m t (level_index 3 v))"

lemma agree_Suc: "agree (Suc k) v w \<longleftrightarrow> agree k v w \<and> level_index k v = level_index k w"
  by (auto simp: agree_def less_Suc_eq)

lemma agree_sym: "agree k v w \<longleftrightarrow> agree k w v"
  by (auto simp: agree_def)

lemma table_agree: "agree k v w \<Longrightarrow> table pm dir k v = table pm dir k w"
  by (induction k) (auto simp: agree_def split: option.splits)

text \<open>A frame that the allocator may still hand out.\<close>

definition free_page :: "machine \<Rightarrow> nat \<Rightarrow> bool" where
  "free_page m p \<longleftrightarrow> (\<exists>pg. frame (zone (frames m)) p = Some pg \<and> pg_free pg)"

text \<open>
  The invariant of a directory for the top-level slots in \<open>V\<close>: the tables are pages in use and
  each is reached by one path only. Physical memory ends below \<open>2 ^ 52\<close>.
\<close>

definition mmu_inv :: "nat set \<Rightarrow> nat \<Rightarrow> machine \<Rightarrow> bool" where
  "mmu_inv V dir m \<longleftrightarrow> zone_inv (zone (frames m)) \<and>
     (\<forall>(a, n) \<in> set (placed (zone (frames m))). a + n \<le> 2 ^ 52) \<and>
     (\<forall>k \<le> 3. \<forall>v t. level_index 0 v \<in> V \<longrightarrow> table (mem m) dir k v = Some t \<longrightarrow>
        PAGE_SIZE dvd t \<and> \<not> free_page m t) \<and>
     (\<forall>j \<le> 3. \<forall>k \<le> 3. \<forall>v w t. level_index 0 v \<in> V \<longrightarrow> level_index 0 w \<in> V \<longrightarrow>
        table (mem m) dir j v = Some t \<longrightarrow> table (mem m) dir k w = Some t \<longrightarrow>
        j = k \<and> agree k v w)"

lemma mmu_invD:
  assumes "mmu_inv V dir m"
  shows "zone_inv (zone (frames m))"
    "(a, n) \<in> set (placed (zone (frames m))) \<Longrightarrow> a + n \<le> 2 ^ 52"
    "k \<le> 3 \<Longrightarrow> level_index 0 v \<in> V \<Longrightarrow> table (mem m) dir k v = Some t \<Longrightarrow> PAGE_SIZE dvd t"
    "k \<le> 3 \<Longrightarrow> level_index 0 v \<in> V \<Longrightarrow> table (mem m) dir k v = Some t \<Longrightarrow> \<not> free_page m t"
    "j \<le> 3 \<Longrightarrow> k \<le> 3 \<Longrightarrow> level_index 0 v \<in> V \<Longrightarrow> level_index 0 w \<in> V \<Longrightarrow>
      table (mem m) dir j v = Some t \<Longrightarrow> table (mem m) dir k w = Some t \<Longrightarrow> j = k \<and> agree k v w"
  using assms unfolding mmu_inv_def by blast+

definition is_table :: "nat set \<Rightarrow> nat \<Rightarrow> machine \<Rightarrow> nat \<Rightarrow> bool" where
  "is_table V dir m q \<longleftrightarrow>
     (\<exists>k \<le> 3. \<exists>v. level_index 0 v \<in> V \<and> table (mem m) dir k v = Some q)"

text \<open>
  The machine after an operation on a directory that took the frames in \<open>S\<close> for new tables: only
  tables of the directory and frames that were free are written, and all other page descriptors
  stay.
\<close>

definition took :: "nat set \<Rightarrow> nat set \<Rightarrow> nat \<Rightarrow> machine \<Rightarrow> machine \<Rightarrow> bool" where
  "took S V dir m m' \<longleftrightarrow> finite S \<and> (\<forall>q \<in> S. free_page m q \<and> PAGE_SIZE dvd q) \<and>
     (\<forall>q. is_table V dir m' q \<longleftrightarrow> is_table V dir m q \<or> q \<in> S) \<and>
     (\<forall>x. frame (zone (frames m')) x =
       (if PAGE_ALIGN_DOWN x \<in> S then map_option taken (frame (zone (frames m)) x)
        else frame (zone (frames m)) x)) \<and>
     zone_free (zone (frames m)) = zone_free (zone (frames m')) + card S"

definition keeps :: "nat set \<Rightarrow> nat \<Rightarrow> machine \<Rightarrow> machine \<Rightarrow> bool" where
  "keeps V dir m m' \<longleftrightarrow> (\<exists>S. took S V dir m m') \<and>
     (\<forall>q. mem m' q \<noteq> mem m q \<longrightarrow> free_page m q \<or> is_table V dir m q) \<and>
     placed (zone (frames m')) = placed (zone (frames m)) \<and>
     cur_dir m' = cur_dir m \<and> kernel_pml m' = kernel_pml m"

lemma align_self: "PAGE_SIZE dvd t \<Longrightarrow> PAGE_ALIGN_DOWN t = t"
  by (auto simp: PAGE_ALIGN_DOWN_def elim: dvdE)

lemma same_page_aligned: "PAGE_SIZE dvd t \<Longrightarrow> same_page x t \<longleftrightarrow> PAGE_ALIGN_DOWN x = t"
  by (auto simp: PAGE_ALIGN_DOWN_def elim!: dvdE)

lemma took_free:
  assumes "took S V dir m m'" "free_page m' q"
  shows "free_page m q" "PAGE_ALIGN_DOWN q \<notin> S"
proof -
  from assms show "PAGE_ALIGN_DOWN q \<notin> S"
    by (auto simp: took_def free_page_def split: if_splits)
  with assms show "free_page m q" by (auto simp: took_def free_page_def)
qed

lemma took_trans:
  assumes "took S V dir m m1" "took T V dir m1 m2"
  shows "took (S \<union> T) V dir m m2"
proof -
  have T: "free_page m q \<and> PAGE_SIZE dvd q \<and> q \<notin> S" if "q \<in> T" for q
    using that assms(2) took_free [OF assms(1), of q] align_self [of q] by (auto simp: took_def)
  then have "S \<inter> T = {}" by blast
  with assms T show ?thesis by (auto simp: took_def card_Un_disjoint)
qed

lemma keeps_refl: "keeps V dir m m"
proof -
  have "took {} V dir m m" by (simp add: took_def)
  then show ?thesis by (auto simp: keeps_def)
qed

lemma keeps_free: "keeps V dir m m' \<Longrightarrow> free_page m' q \<Longrightarrow> free_page m q"
  using took_free by (auto simp: keeps_def)

lemma keeps_trans:
  assumes "keeps V dir m m1" "keeps V dir m1 m2"
  shows "keeps V dir m m2"
proof -
  from assms obtain S T where "took S V dir m m1" "took T V dir m1 m2" by (auto simp: keeps_def)
  note t = took_trans [OF this] this
  have "free_page m q \<or> is_table V dir m q" if "mem m2 q \<noteq> mem m q" for q
  proof (cases "mem m1 q = mem m q")
    case True
    with that assms(2) have "free_page m1 q \<or> is_table V dir m1 q" by (auto simp: keeps_def)
    then show ?thesis using t(2) took_free(1) [OF t(2)] by (auto simp: took_def)
  next
    case False
    with assms(1) show ?thesis by (auto simp: keeps_def)
  qed
  with t assms show ?thesis by (auto simp: keeps_def)
qed

subsection \<open>A new table\<close>

lemma alloc_frame_ok:
  assumes "mmu_inv V dir m" "0 < zone_free (zone (frames m))"
  obtains p m' where "alloc_frame m = Done (p, m')" "mem m' = mem m" "zone_inv (zone (frames m'))"
    "placed (zone (frames m')) = placed (zone (frames m))" "entry_addr p" "free_page m p"
    "\<not> free_page m' p" "\<And>q. \<not> free_page m q \<Longrightarrow> frame (zone (frames m')) q = frame (zone (frames m)) q"
    "zone_free (zone (frames m)) = zone_free (zone (frames m')) + 1"
    "cur_dir m' = cur_dir m" "kernel_pml m' = kernel_pml m"
    "\<And>q. frame (zone (frames m')) q = (if same_page q p
       then map_option taken (frame (zone (frames m)) p) else frame (zone (frames m)) q)"
proof -
  from pmm_allocatePage_ok [OF mmu_invD(1) [OF assms(1)] assms(2)] obtain p f' pg where
    a: "pmm_allocatePage (frames m) = Done (p, f')" "zone_inv (zone f')"
      "placed (zone f') = placed (zone (frames m))" "PAGE_SIZE dvd p" "0 < p"
      "frame (zone (frames m)) p = Some pg" "pg_free pg" "pg_refcount pg = 0"
      "frame (zone f') = (\<lambda>x. if same_page x p then Some (taken pg) else frame (zone (frames m)) x)"
      "zone_free (zone (frames m)) = zone_free (zone f') + 1" .
  from frame_Some_section [OF a(6)] obtain s where "s \<in> set (zone (frames m))" "section_has s p" by auto
  then have "p < 2 ^ 52" using mmu_invD(2) [OF assms(1), of "s_start s" "s_size s"]
    by (auto simp: placed_def section_has_def)
  then have e: "entry_addr p" using a(4) by (simp add: entry_addr_def)
  have t: "\<not> pg_free (taken pg)" by simp
  have f: "free_page m p" using a(6,7) by (simp add: free_page_def)
  have s: "free_page m q" if "same_page q p" for q
    using f frame_same_page [OF mmu_invD(1) [OF assms(1)] that] by (simp add: free_page_def)
  let ?m = "m\<lparr>frames := f'\<rparr>"
  have "alloc_frame m = Done (p, ?m)" using a(1) by (simp add: alloc_frame_def)
  moreover have "\<not> free_page ?m p" using a(9) t by (simp add: free_page_def)
  moreover have "frame (zone (frames ?m)) q = frame (zone (frames m)) q" if "\<not> free_page m q" for q
    using a(9) that s by auto
  ultimately show ?thesis using that [of p ?m] a(2,3,6,9,10) e f by simp
qed

text \<open>The tables after a fresh page \<open>p\<close> was put into an empty slot at level \<open>k\<close> of the path of \<open>v\<close>.\<close>

lemma table_new:
  assumes inv: "mmu_inv V dir m" and v: "level_index 0 v \<in> V" and k: "k < 3"
    and t: "table (mem m) dir k v = Some t"
    and absent: "mem m t (level_index k v) AND MMU_PAGE_FLAG_PRESENT = 0"
    and p: "entry_addr p" "free_page m p"
    and pm: "pm' = (mem m)(p := (\<lambda>_. 0), t := (mem m t)(level_index k v :=
      word_of_nat p OR MMU_PAGE_FLAG_USER OR MMU_PAGE_FLAG_RW OR MMU_PAGE_FLAG_PRESENT))"
    and w: "level_index 0 w \<in> V" and j: "j \<le> 3"
  shows "table pm' dir j w =
    (if j = Suc k \<and> agree (Suc k) v w then Some p else table (mem m) dir j w)"
  using j
proof (induction j)
  case 0
  then show ?case by simp
next
  case (Suc j)
  have tp: "t \<noteq> p" using mmu_invD(4) [OF inv _ v t] k p(2) by auto
  have none: "table (mem m) dir (Suc k) w = None" if "agree (Suc k) v w"
    using table_agree [OF that, of "mem m" dir] t absent by simp
  show ?case
  proof (cases "j = Suc k \<and> agree (Suc k) v w")
    case True
    with Suc have "table pm' dir j w = Some p" by simp
    moreover have "pm' p i AND MMU_PAGE_FLAG_PRESENT = 0" for i using tp by (simp add: pm)
    ultimately have "table pm' dir (Suc j) w = None" by simp
    moreover have "table (mem m) dir (Suc j) w = None" using none True by simp
    ultimately show ?thesis using True by simp
  next
    case False
    with Suc have e: "table pm' dir j w = table (mem m) dir j w" by simp
    show ?thesis
    proof (cases "table (mem m) dir j w")
      case None
      moreover have "\<not> (j = k \<and> agree (Suc k) v w)"
        using None t table_agree [of k v w "mem m" dir] by (auto simp: agree_Suc)
      ultimately show ?thesis using e by simp
    next
      case (Some u)
      have up: "u \<noteq> p" using mmu_invD(4) [OF inv _ w Some] Suc.prems p(2) by auto
      show ?thesis
      proof (cases "u = t \<and> level_index j w = level_index k v")
        case True
        with mmu_invD(5) [OF inv _ _ w v Some] t k Suc.prems have "j = k" "agree k w v" by auto
        with True have "agree (Suc k) v w" by (simp add: agree_Suc agree_sym)
        moreover have "table pm' dir (Suc j) w = Some p"
          using e Some True p(1) by (simp add: pm Let_def table_entry_present table_entry_addr unat_entry_addr)
        ultimately show ?thesis using \<open>j = k\<close> by simp
      next
        case False
        then have "pm' u (level_index j w) = mem m u (level_index j w)" using up by (auto simp: pm)
        moreover have "\<not> (j = k \<and> agree (Suc k) v w)"
          using False Some t table_agree [of k v w "mem m" dir] by (auto simp: agree_Suc)
        ultimately show ?thesis using e Some by (simp split: if_split) blast
      qed
    qed
  qed
qed

lemma next_table_present:
  "mem m t i AND MMU_PAGE_FLAG_PRESENT \<noteq> 0 \<Longrightarrow>
   next_table t i b m = Done (Some (unat (MMU_PAGE_ADDR (mem m t i))), m)"
  by (simp add: next_table_def)

text \<open>One step of the walk with permission to create the table.\<close>

lemma next_table_step:
  assumes inv: "mmu_inv V dir m" and v: "level_index 0 v \<in> V" and k: "k < 3"
    and t: "table (mem m) dir k v = Some t" and free: "0 < zone_free (zone (frames m))"
  obtains t' m' where "next_table t (level_index k v) True m = Done (Some t', m')" "mmu_inv V dir m'"
    "table (mem m') dir (Suc k) v = Some t'" "keeps V dir m m'"
    "\<And>w. level_index 0 w \<in> V \<Longrightarrow> pte m' dir w = pte m dir w"
    "zone_free (zone (frames m)) \<le> zone_free (zone (frames m')) + 1"
proof (cases "mem m t (level_index k v) AND MMU_PAGE_FLAG_PRESENT = 0")
  case False
  with that [of _ m] inv t show ?thesis by (simp add: next_table_present keeps_refl)
next
  case absent: True
  obtain p m1 where
    a: "alloc_frame m = Done (p, m1)" "mem m1 = mem m" "zone_inv (zone (frames m1))"
      "placed (zone (frames m1)) = placed (zone (frames m))" "entry_addr p" "free_page m p"
      "\<not> free_page m1 p" "\<And>q. \<not> free_page m q \<Longrightarrow> frame (zone (frames m1)) q = frame (zone (frames m)) q"
      "zone_free (zone (frames m)) = zone_free (zone (frames m1)) + 1"
      "cur_dir m1 = cur_dir m" "kernel_pml m1 = kernel_pml m"
      "\<And>q. frame (zone (frames m1)) q = (if same_page q p
         then map_option taken (frame (zone (frames m)) p) else frame (zone (frames m)) q)"
    by (rule alloc_frame_ok [OF inv free]) (rule that)
  define m' where "m' = set_entry t (level_index k v)
    (word_of_nat p OR MMU_PAGE_FLAG_USER OR MMU_PAGE_FLAG_RW OR MMU_PAGE_FLAG_PRESENT) (zero_page p m1)"
  have n: "next_table t (level_index k v) True m = Done (Some p, m')"
    using absent a(1) by (simp add: next_table_def m'_def)
  have fr: "frames m' = frames m1" by (simp add: m'_def set_entry_def zero_page_def)
  have tp: "t \<noteq> p" using mmu_invD(4) [OF inv _ v t] k a(6) by auto
  have pm: "mem m' = (mem m)(p := (\<lambda>_. 0), t := (mem m t)(level_index k v :=
      word_of_nat p OR MMU_PAGE_FLAG_USER OR MMU_PAGE_FLAG_RW OR MMU_PAGE_FLAG_PRESENT))"
    using tp by (simp add: m'_def set_entry_def zero_page_def a(2))
  note tb = table_new [OF inv v k t absent a(5,6) pm]
  have old: "\<not> free_page m' q" if "\<not> free_page m q" for q
    using a(8) [OF that] that by (simp add: free_page_def fr)
  have new: "\<not> free_page m' p" using a(7) by (simp add: free_page_def fr)
  have notp: "table (mem m) dir j w \<noteq> Some p" if "j \<le> 3" "level_index 0 w \<in> V" for j w
    using mmu_invD(4) [OF inv that] a(6) by auto
  have tab: "PAGE_SIZE dvd u \<and> \<not> free_page m' u"
    if "j \<le> 3" "level_index 0 w \<in> V" "table (mem m') dir j w = Some u" for j w u
    using that tb [OF that(2,1)] new old a(5) mmu_invD(3,4) [OF inv that(1,2)]
    by (auto simp: entry_addr_def split: if_splits)
  have inj: "i = j \<and> agree j w x"
    if "i \<le> 3" "j \<le> 3" "level_index 0 w \<in> V" "level_index 0 x \<in> V"
      "table (mem m') dir i w = Some u" "table (mem m') dir j x = Some u" for i j w x u
    using that tb [OF that(3,1)] tb [OF that(4,2)] notp [OF that(1,3)] notp [OF that(2,4)]
      mmu_invD(5) [OF inv that(1-4)]
    by (auto simp: agree_def split: if_splits)
  have "mmu_inv V dir m'"
    unfolding mmu_inv_def fr using a(3) mmu_invD(2) [OF inv] tab inj by (auto simp: a(4))
  moreover have "table (mem m') dir (Suc k) v = Some p"
    using tb [OF v, of "Suc k"] k by (simp add: agree_def)
  moreover have "keeps V dir m m'"
  proof -
    have "is_table V dir m t" using t v k unfolding is_table_def by (meson less_imp_le)
    then have "free_page m q \<or> is_table V dir m q" if "mem m' q \<noteq> mem m q" for q
      using that a(6) by (auto simp: pm split: if_splits)
    moreover have "took {p} V dir m m'"
    proof -
      have al: "PAGE_SIZE dvd p" using a(5) by (simp add: entry_addr_def)
      have "table (mem m) dir (Suc k) w = None" if "agree (Suc k) v w" for w
        using table_agree [OF that, of "mem m" dir] t absent by simp
      then have "table (mem m') dir j w = table (mem m) dir j w"
        if "level_index 0 w \<in> V" "j \<le> 3" "table (mem m) dir j w = Some q" for j w q
        using tb [OF that(1,2)] that(3) by auto
      then have "is_table V dir m' q \<longleftrightarrow> is_table V dir m q \<or> q \<in> {p}" for q
        using tb \<open>table (mem m') dir (Suc k) v = Some p\<close> v k unfolding is_table_def
        by (metis (no_types, lifting) Suc_leI insertI1 option.inject singletonD)
      moreover have "frame (zone (frames m)) x = frame (zone (frames m)) p" if "same_page x p" for x
        by (rule frame_same_page [OF mmu_invD(1) [OF inv] that])
      ultimately show ?thesis
        using a(6,9,12) al by (simp add: took_def fr same_page_aligned [OF al])
    qed
    ultimately show ?thesis
      using a(4,10,11) by (auto simp add: keeps_def fr) (simp_all add: m'_def set_entry_def zero_page_def)
  qed
  moreover have "pte m' dir w = pte m dir w" if "level_index 0 w \<in> V" for w
  proof (cases "Suc k = 3 \<and> agree (Suc k) v w")
    case True
    moreover have "table (mem m) dir (Suc k) v = None" using t absent by simp
    ultimately have "table (mem m) dir 3 w = None"
      using table_agree [of "Suc k" v w "mem m" dir] by metis
    with True tb [OF that, of 3] tp show ?thesis by (simp add: pte_def pm)
  next
    case False
    with tb [OF that, of 3] have e: "table (mem m') dir 3 w = table (mem m) dir 3 w" by auto
    have "t \<noteq> u \<and> u \<noteq> p" if "table (mem m) dir 3 w = Some u" for u
      using that mmu_invD(5) [OF inv _ _ v \<open>level_index 0 w \<in> V\<close> t, of 3] k
        notp [of 3 w] \<open>level_index 0 w \<in> V\<close> by auto
    then show ?thesis using e by (auto simp: pte_def pm split: option.splits)
  qed
  ultimately show ?thesis using that [OF n] a(9) by (simp add: fr)
qed

section \<open>The page table as a function\<close>

lemma get_page_read:
  "arch_mmu_get_page dir v False m =
     Done (map_option (\<lambda>t. (t, level_index 3 v)) (table (mem m) (arch_mmu_dir dir m) 3 v), m)"
  by (simp add: arch_mmu_get_page_def next_table_def level_indices eval_nat_numeral Let_def)

lemma get_page_create:
  assumes inv: "mmu_inv V dir m" and v: "level_index 0 v \<in> V"
    and d: "arch_mmu_dir d m = dir" and free: "3 \<le> zone_free (zone (frames m))"
  obtains t m' where "arch_mmu_get_page d v True m = Done (Some (t, level_index 3 v), m')"
    "mmu_inv V dir m'" "table (mem m') dir 3 v = Some t" "keeps V dir m m'"
    "\<And>w. level_index 0 w \<in> V \<Longrightarrow> pte m' dir w = pte m dir w"
    "zone_free (zone (frames m)) \<le> zone_free (zone (frames m')) + 3"
proof -
  obtain t1 m1 where 1: "next_table dir (level_index 0 v) True m = Done (Some t1, m1)"
    "mmu_inv V dir m1" "table (mem m1) dir (Suc 0) v = Some t1" "keeps V dir m m1"
    "\<And>w. level_index 0 w \<in> V \<Longrightarrow> pte m1 dir w = pte m dir w"
    "zone_free (zone (frames m)) \<le> zone_free (zone (frames m1)) + 1"
    by (rule next_table_step [OF inv v, of 0 dir]) (use free in auto)
  obtain t2 m2 where 2: "next_table t1 (level_index (Suc 0) v) True m1 = Done (Some t2, m2)"
    "mmu_inv V dir m2" "table (mem m2) dir (Suc (Suc 0)) v = Some t2" "keeps V dir m1 m2"
    "\<And>w. level_index 0 w \<in> V \<Longrightarrow> pte m2 dir w = pte m1 dir w"
    "zone_free (zone (frames m1)) \<le> zone_free (zone (frames m2)) + 1"
    by (rule next_table_step [OF 1(2) v _ 1(3)]) (use free 1(6) in auto)
  obtain t3 m3 where 3: "next_table t2 (level_index (Suc (Suc 0)) v) True m2 = Done (Some t3, m3)"
    "mmu_inv V dir m3" "table (mem m3) dir (Suc (Suc (Suc 0))) v = Some t3" "keeps V dir m2 m3"
    "\<And>w. level_index 0 w \<in> V \<Longrightarrow> pte m3 dir w = pte m2 dir w"
    "zone_free (zone (frames m2)) \<le> zone_free (zone (frames m3)) + 1"
    by (rule next_table_step [OF 2(2) v _ 2(3)]) (use free 1(6) 2(6) in auto)
  have "arch_mmu_get_page d v True m = Done (Some (t3, level_index 3 v), m3)"
    using 1(1) 2(1) 3(1) by (simp add: arch_mmu_get_page_def level_indices d numeral_2_eq_2)
  moreover have "keeps V dir m m3" using keeps_trans 1(4) 2(4) 3(4) by blast
  ultimately show ?thesis using that [of t3 m3] 1(5,6) 2(5,6) 3 by (simp add: numeral_3_eq_3)
qed

lemma set_leaf:
  fixes e :: u64
  assumes inv: "mmu_inv V dir m" and v: "level_index 0 v \<in> V" and t: "table (mem m) dir 3 v = Some t"
  defines "m' \<equiv> set_entry t (level_index 3 v) e m"
  shows "mmu_inv V dir m'" "keeps V dir m m'" "frames m' = frames m" "table (mem m') dir 3 v = Some t"
    "\<And>w. level_index 0 w \<in> V \<Longrightarrow> pte m' dir w = (if agree 4 v w then e else pte m dir w)"
proof -
  have pm: "mem m' = (mem m)(t := (mem m t)(level_index 3 v := e))"
    and fr: "frames m' = frames m" by (simp_all add: m'_def set_entry_def)
  have tb: "table (mem m') dir k w = table (mem m) dir k w"
    if "k \<le> 3" "level_index 0 w \<in> V" for k w
    using that(1)
  proof (induction k)
    case 0
    then show ?case by simp
  next
    case (Suc k)
    have "u \<noteq> t" if "table (mem m) dir k w = Some u" for u
      using that mmu_invD(5) [OF inv _ _ \<open>level_index 0 w \<in> V\<close> v, of k 3] t Suc.prems by auto
    with Suc show ?case by (auto simp: pm split: option.splits)
  qed
  have ist: "is_table V dir m' q = is_table V dir m q" for q
    using tb unfolding is_table_def by metis
  have fp: "free_page m' q = free_page m q" for q by (simp add: free_page_def fr)
  show "frames m' = frames m" by (rule fr)
  show "table (mem m') dir 3 v = Some t" using tb [OF _ v, of 3] t by simp
  show "mmu_inv V dir m'"
    unfolding mmu_inv_def fr fp using tb mmu_invD [OF inv] by (auto simp del: table.simps)
  have "is_table V dir m t" using t v unfolding is_table_def by blast
  moreover have "took {} V dir m m'" by (simp add: took_def ist fr)
  ultimately show "keeps V dir m m'"
    unfolding keeps_def fr by (auto simp: pm) (simp_all add: m'_def set_entry_def)
  fix w assume w: "level_index 0 w \<in> V"
  show "pte m' dir w = (if agree 4 v w then e else pte m dir w)"
  proof (cases "agree 3 v w")
    case True
    then have "table (mem m) dir 3 w = Some t" using table_agree [of 3 v w "mem m" dir] t by simp
    moreover have "agree 4 v w \<longleftrightarrow> level_index 3 v = level_index 3 w"
      using True agree_Suc [of 3] by (simp add: numeral_3_eq_3 eval_nat_numeral)
    ultimately show ?thesis using tb [OF _ w, of 3] by (simp add: pte_def pm)
  next
    case False
    then have "\<not> agree 4 v w" using agree_Suc [of 3 v w] by (simp add: numeral_3_eq_3 eval_nat_numeral)
    moreover have "u \<noteq> t" if "table (mem m) dir 3 w = Some u" for u
      using that mmu_invD(5) [OF inv _ _ v w t, of 3] False by auto
    ultimately show ?thesis using tb [OF _ w, of 3] by (auto simp: pte_def pm split: option.splits)
  qed
qed

text \<open>Two canonical addresses agree on all four indices exactly when they lie in the same page.\<close>

lemma indices_split:
  "n mod (512 * (512 * (512 * 512))) =
     n mod 512 + 512 * (n div 512 mod 512 + 512 * (n div 512 div 512 mod 512
       + 512 * (n div 512 div 512 div 512 mod (512::nat))))"
  by (simp only: mod_mult2_eq) simp

lemma digit_eq:
  "x < 512 \<Longrightarrow> x' < 512 \<Longrightarrow> x + 512 * y = x' + 512 * y' \<longleftrightarrow> x = x' \<and> y = (y' :: nat)"
proof
  assume b: "x < 512" "x' < 512" and e: "x + 512 * y = x' + 512 * y'"
  from e have "(x + 512 * y) mod 512 = (x' + 512 * y') mod 512" by simp
  with b have "x = x'" by simp
  with e show "x = x' \<and> y = y'" by simp
qed simp

lemma agree_4:
  assumes "MMU_IS_CANONICAL v" "MMU_IS_CANONICAL w"
  shows "agree 4 v w \<longleftrightarrow> same_page v w"
proof -
  define P Q where "P = v div 4096" and "Q = w div 4096"
  have i: "level_index 3 v = P mod 512" "level_index 2 v = P div 512 mod 512"
      "level_index 1 v = P div 512 div 512 mod 512" "level_index 0 v = P div 512 div 512 div 512 mod 512"
      "level_index 3 w = Q mod 512" "level_index 2 w = Q div 512 mod 512"
      "level_index 1 w = Q div 512 div 512 mod 512" "level_index 0 w = Q div 512 div 512 div 512 mod 512"
    by (simp_all add: level_index_def P_def Q_def div_mult2_eq [symmetric])
  have "agree 4 v w \<longleftrightarrow> level_index 0 v = level_index 0 w \<and> level_index 1 v = level_index 1 w \<and>
      level_index 2 v = level_index 2 w \<and> level_index 3 v = level_index 3 w"
    by (simp add: eval_nat_numeral agree_Suc) (simp add: agree_def)
  also have "\<dots> \<longleftrightarrow> P mod 68719476736 = Q mod 68719476736"
  proof
    assume "P mod 68719476736 = Q mod 68719476736"
    then have "P mod (512 * (512 * (512 * 512))) = Q mod (512 * (512 * (512 * 512)))" by simp
    note e = this
    from e show "level_index 0 v = level_index 0 w \<and> level_index 1 v = level_index 1 w \<and>
      level_index 2 v = level_index 2 w \<and> level_index 3 v = level_index 3 w"
      unfolding indices_split i
      by (simp only: digit_eq mod_less_divisor zero_less_numeral simp_thms)
  next
    assume "level_index 0 v = level_index 0 w \<and> level_index 1 v = level_index 1 w \<and>
      level_index 2 v = level_index 2 w \<and> level_index 3 v = level_index 3 w"
    then show "P mod 68719476736 = Q mod 68719476736"
      using indices_split [of P] indices_split [of Q] unfolding i by simp
  qed
  also have "\<dots> \<longleftrightarrow> P = Q"
  proof -
    have c: "P div 34359738368 = 0 \<or> P div 34359738368 = 131071"
        "Q div 34359738368 = 0 \<or> Q div 34359738368 = 131071"
      using assms by (simp_all add: MMU_IS_CANONICAL_def P_def Q_def div_mult2_eq [symmetric])
    have "P = Q" if e: "P mod 68719476736 = Q mod 68719476736"
    proof -
      have h: "n mod 68719476736 div 34359738368 = n div 34359738368 mod 2"
          "n div 68719476736 = n div 34359738368 div 2" for n :: nat
        using mod_mult2_eq [of n 34359738368 2] div_mult2_eq [of n 34359738368 2] by simp_all
      have "P div 34359738368 mod 2 = Q div 34359738368 mod 2" using e h(1) by metis
      with c have "P div 34359738368 = Q div 34359738368" by auto
      then have "P div 68719476736 = Q div 68719476736" by (simp only: h(2))
      with e show ?thesis by (metis mult_div_mod_eq)
    qed
    then show ?thesis by blast
  qed
  finally show ?thesis by (simp add: P_def Q_def PAGE_SIZE_def)
qed

section \<open>The operations\<close>

lemma align_div: "PAGE_ALIGN_DOWN v div 2 ^ (12 + n) = v div 2 ^ (12 + n)"
proof -
  have "PAGE_ALIGN_DOWN v div 2 ^ (12 + n) = PAGE_ALIGN_DOWN v div 4096 div 2 ^ n"
    by (simp add: power_add div_mult2_eq)
  also have "\<dots> = v div 4096 div 2 ^ n" by (simp add: PAGE_ALIGN_DOWN_def PAGE_SIZE_def)
  also have "\<dots> = v div 2 ^ (12 + n)" by (simp add: power_add div_mult2_eq)
  finally show ?thesis .
qed

lemma level_index_align: "k \<le> 3 \<Longrightarrow> level_index k (PAGE_ALIGN_DOWN v) = level_index k v"
  using align_div [of v "27 - 9 * k"] by (simp add: level_index_def)

lemma canonical_align: "MMU_IS_CANONICAL (PAGE_ALIGN_DOWN v) = MMU_IS_CANONICAL v"
  using align_div [of v 35] by (simp add: MMU_IS_CANONICAL_def)

lemma same_page_align: "same_page (PAGE_ALIGN_DOWN v) w = same_page v w"
  by (simp add: PAGE_ALIGN_DOWN_def)

lemma map_ok:
  assumes inv: "mmu_inv V dir m" and v: "level_index 0 v \<in> V" "MMU_IS_CANONICAL v"
    and d: "arch_mmu_dir d m = dir" and free: "3 \<le> zone_free (zone (frames m))"
  obtains m' where "arch_mmu_map d v p f m = Done m'" "mmu_inv V dir m'" "keeps V dir m m'"
    "table (mem m') dir 3 v \<noteq> None"
    "\<And>w. level_index 0 w \<in> V \<Longrightarrow> MMU_IS_CANONICAL w \<Longrightarrow>
       pte m' dir w = (if same_page v w then map_entry p f else pte m dir w)"
    "zone_free (zone (frames m)) \<le> zone_free (zone (frames m')) + 3"
proof -
  let ?v = "PAGE_ALIGN_DOWN v"
  have v': "level_index 0 ?v \<in> V" using v by (simp add: level_index_align)
  obtain t m1 where g: "arch_mmu_get_page d ?v True m = Done (Some (t, level_index 3 ?v), m1)"
    "mmu_inv V dir m1" "table (mem m1) dir 3 ?v = Some t" "keeps V dir m m1"
    "\<And>w. level_index 0 w \<in> V \<Longrightarrow> pte m1 dir w = pte m dir w"
    "zone_free (zone (frames m)) \<le> zone_free (zone (frames m1)) + 3"
    by (rule get_page_create [OF inv v' d free]) (rule that)
  note l = set_leaf [OF g(2) v' g(3), where e = "map_entry p f"]
  show ?thesis
  proof (rule that)
    show "arch_mmu_map d v p f m = Done (set_entry t (level_index 3 ?v) (map_entry p f) m1)"
      using v(2) g(1) by (simp add: arch_mmu_map_def)
    show "keeps V dir m (set_entry t (level_index 3 ?v) (map_entry p f) m1)"
      by (rule keeps_trans [OF g(4) l(2)])
    show "pte (set_entry t (level_index 3 ?v) (map_entry p f) m1) dir w =
        (if same_page v w then map_entry p f else pte m dir w)"
      if "level_index 0 w \<in> V" "MMU_IS_CANONICAL w" for w
      using l(5) [OF that(1)] g(5) [OF that(1)] agree_4 [of ?v w] that(2) v(2)
      by (simp add: canonical_align same_page_align)
    have "agree 3 v ?v" by (simp add: agree_def level_index_align)
    then show "table (mem (set_entry t (level_index 3 ?v) (map_entry p f) m1)) dir 3 v \<noteq> None"
      using l(4) table_agree [of 3 v ?v] by (metis option.distinct(1))
  qed (use l g(6) in simp_all)
qed

text \<open>An operation that changes an existing entry.\<close>

lemma set_existing:
  fixes e :: u64
  assumes inv: "mmu_inv V dir m" and v: "level_index 0 v \<in> V" "MMU_IS_CANONICAL v"
    and t: "table (mem m) dir 3 v = Some t"
  defines "m' \<equiv> set_entry t (level_index 3 v) e m"
  shows "mmu_inv V dir m'" "keeps V dir m m'" "frames m' = frames m" "table (mem m') dir 3 v = Some t"
    "level_index 0 w \<in> V \<Longrightarrow> MMU_IS_CANONICAL w \<Longrightarrow>
       pte m' dir w = (if same_page v w then e else pte m dir w)"
  unfolding m'_def using set_leaf [OF inv v(1) t, where e = e] agree_4 v(2) by auto

lemma pte_missing: "table (mem m) dir 3 v = None \<Longrightarrow> pte m dir v = 0"
  by (simp add: pte_def)

lemma pte_page:
  assumes "MMU_IS_CANONICAL v" "MMU_IS_CANONICAL w" "same_page v w"
  shows "pte m dir v = pte m dir w"
proof -
  have "agree 4 v w" using agree_4 [OF assms(1,2)] assms(3) by simp
  then have "agree 3 v w" "level_index 3 v = level_index 3 w" by (auto simp: agree_def)
  then show ?thesis using table_agree [of 3 v w "mem m" dir] by (simp add: pte_def cong: option.case_cong)
qed

lemma unmap_ok:
  assumes inv: "mmu_inv V dir m" and v: "level_index 0 v \<in> V" "MMU_IS_CANONICAL v"
    and d: "arch_mmu_dir d m = dir"
  obtains m' where "arch_mmu_unmap d v m = Done m'" "mmu_inv V dir m'" "keeps V dir m m'"
    "frames m' = frames m" "table (mem m') dir 3 v = table (mem m) dir 3 v"
    "\<And>w. level_index 0 w \<in> V \<Longrightarrow> MMU_IS_CANONICAL w \<Longrightarrow>
       pte m' dir w = (if same_page v w then 0 else pte m dir w)"
proof (cases "table (mem m) dir 3 v")
  case None
  have "pte m dir w = (if same_page v w then 0 else pte m dir w)" if "MMU_IS_CANONICAL w" for w
    using pte_page [OF v(2) that, of m dir] pte_missing [OF None] by auto
  then show ?thesis
    using that [of m] inv v(2) None d by (simp add: arch_mmu_unmap_def get_page_read keeps_refl)
next
  case (Some t)
  have "arch_mmu_unmap d v m = Done (set_entry t (level_index 3 v) 0 m)"
    using v(2) d Some by (simp add: arch_mmu_unmap_def get_page_read)
  from that [OF this] set_existing [OF inv v Some] Some show ?thesis by simp
qed

lemma setflags_ok:
  assumes inv: "mmu_inv V dir m" and v: "level_index 0 v \<in> V" "MMU_IS_CANONICAL v"
    and d: "arch_mmu_dir d m = dir"
  obtains r m' where "arch_mmu_setflags d v f m = Done (r, m')" "mmu_inv V dir m'" "keeps V dir m m'"
    "frames m' = frames m" "table (mem m') dir 3 v = table (mem m) dir 3 v"
    "\<And>w. level_index 0 w \<in> V \<Longrightarrow> MMU_IS_CANONICAL w \<Longrightarrow>
       pte m' dir w = (if same_page v w \<and> r = 0 then setflags_entry f (pte m dir v) else pte m dir w)"
    "r = 0 \<longleftrightarrow> table (mem m) dir 3 v \<noteq> None"
proof (cases "table (mem m) dir 3 v")
  case None
  then show ?thesis
    using that [of 1 m] inv d by (simp add: arch_mmu_setflags_def get_page_read keeps_refl)
next
  case (Some t)
  have p: "pte m dir v = mem m t (level_index 3 v)" using Some by (simp add: pte_def)
  have "arch_mmu_setflags d v f m =
      Done (0, set_entry t (level_index 3 v) (setflags_entry f (pte m dir v)) m)"
    using d Some by (simp add: arch_mmu_setflags_def get_page_read p)
  from that [OF this] set_existing [OF inv v Some] Some show ?thesis by simp
qed

lemma physical_eq:
  assumes "\<not> (addr \<ge> MMU_HHDM_REGION \<and> addr < MMU_HHDM_REGION + MMU_HHDM_SIZE)"
  shows "arch_mmu_physical d addr m = Done (case table (mem m) (arch_mmu_dir d m) 3 addr of
    None \<Rightarrow> 0 | Some t \<Rightarrow> unat (MMU_PAGE_ADDR (pte m (arch_mmu_dir d m) addr)) + addr mod 4096)"
  using assms by (auto simp: arch_mmu_physical_def get_page_read pte_def split: option.splits)

lemma entry_flags_0 [simp]: "entry_flags 0 = 0"
  by (simp add: entry_flags_def translate_flag_def pat_indexes_def mmu_flag_defs)

lemma read_flags_eq: "arch_mmu_read_flags d addr m = Done (entry_flags (pte m (arch_mmu_dir d m) addr))"
  by (simp add: arch_mmu_read_flags_def get_page_read pte_def split: option.split)

subsection \<open>Flags\<close>

lemma page_flag_test:
  "e AND MMU_PAGE_FLAG_PRESENT = 0 \<longleftrightarrow> \<not> bit e 0"
  "e AND MMU_PAGE_FLAG_RW = 0 \<longleftrightarrow> \<not> bit e 1"
  "e AND MMU_PAGE_FLAG_USER = 0 \<longleftrightarrow> \<not> bit e 2"
  "e AND MMU_PAGE_FLAG_WT = 0 \<longleftrightarrow> \<not> bit e 3"
  "e AND MMU_PAGE_FLAG_CD = 0 \<longleftrightarrow> \<not> bit e 4"
  "e AND MMU_PAGE_FLAG_DIRTY = 0 \<longleftrightarrow> \<not> bit e 6"
  "e AND MMU_PAGE_FLAG_SIZE = 0 \<longleftrightarrow> \<not> bit e 7"
  "e AND MMU_PAGE_FLAG_GLOBAL = 0 \<longleftrightarrow> \<not> bit e 8"
  "e AND MMU_PAGE_FLAG_NX = 0 \<longleftrightarrow> \<not> bit e 63"
  using bit_mask_clear [of e 0] bit_mask_clear [of e 1] bit_mask_clear [of e 2] bit_mask_clear [of e 3] bit_mask_clear [of e 4] bit_mask_clear [of e 6] bit_mask_clear [of e 7] bit_mask_clear [of e 8] bit_mask_clear [of e 63]
  by (simp_all add: page_flag_defs)

lemma mmu_flag_test:
  "f AND MMU_FLAG_PRESENT = 0 \<longleftrightarrow> \<not> bit f 0"
  "f AND MMU_FLAG_WRITE = 0 \<longleftrightarrow> \<not> bit f 1"
  "f AND MMU_FLAG_USER = 0 \<longleftrightarrow> \<not> bit f 2"
  "f AND MMU_FLAG_NOEXEC = 0 \<longleftrightarrow> \<not> bit f 3"
  "f AND MMU_FLAG_GLOBAL = 0 \<longleftrightarrow> \<not> bit f 4"
  "f AND MMU_FLAG_WC = 0 \<longleftrightarrow> \<not> bit f 5"
  "f AND MMU_FLAG_WT = 0 \<longleftrightarrow> \<not> bit f 6"
  "f AND MMU_FLAG_UC = 0 \<longleftrightarrow> \<not> bit f 7"
  "f AND MMU_FLAG_DIRTY = 0 \<longleftrightarrow> \<not> bit f 8"
  using bit_mask_clear [of f 0] bit_mask_clear [of f 1] bit_mask_clear [of f 2] bit_mask_clear [of f 3] bit_mask_clear [of f 4] bit_mask_clear [of f 5] bit_mask_clear [of f 6] bit_mask_clear [of f 7] bit_mask_clear [of f 8]
  by (simp_all add: mmu_flag_defs)

lemma bit_of_exp: "k < 64 \<Longrightarrow> x = 2 ^ k \<Longrightarrow> bit (x :: u64) n \<longleftrightarrow> n = k"
  by (auto simp: bit_exp_iff)

lemma page_flag_bit:
  "bit MMU_PAGE_FLAG_PRESENT n \<longleftrightarrow> n = 0"
  "bit MMU_PAGE_FLAG_RW n \<longleftrightarrow> n = 1"
  "bit MMU_PAGE_FLAG_USER n \<longleftrightarrow> n = 2"
  "bit MMU_PAGE_FLAG_WT n \<longleftrightarrow> n = 3"
  "bit MMU_PAGE_FLAG_CD n \<longleftrightarrow> n = 4"
  "bit MMU_PAGE_FLAG_DIRTY n \<longleftrightarrow> n = 6"
  "bit MMU_PAGE_FLAG_SIZE n \<longleftrightarrow> n = 7"
  "bit MMU_PAGE_FLAG_GLOBAL n \<longleftrightarrow> n = 8"
  "bit MMU_PAGE_FLAG_NX n \<longleftrightarrow> n = 63"
  by (rule bit_of_exp, simp, simp add: page_flag_defs)+

lemma mmu_flag_bit:
  "bit MMU_FLAG_PRESENT n \<longleftrightarrow> n = 0"
  "bit MMU_FLAG_WRITE n \<longleftrightarrow> n = 1"
  "bit MMU_FLAG_USER n \<longleftrightarrow> n = 2"
  "bit MMU_FLAG_NOEXEC n \<longleftrightarrow> n = 3"
  "bit MMU_FLAG_GLOBAL n \<longleftrightarrow> n = 4"
  "bit MMU_FLAG_WC n \<longleftrightarrow> n = 5"
  "bit MMU_FLAG_WT n \<longleftrightarrow> n = 6"
  "bit MMU_FLAG_UC n \<longleftrightarrow> n = 7"
  "bit MMU_FLAG_DIRTY n \<longleftrightarrow> n = 8"
  by (rule bit_of_exp, simp, simp add: mmu_flag_defs)+

text \<open>The bits of a stored entry.\<close>

lemma map_entry_bits:
  "bit (map_entry p f) 0 \<longleftrightarrow> bit f 0"
  "bit (map_entry p f) 1 \<longleftrightarrow> bit f 1"
  "bit (map_entry p f) 2 \<longleftrightarrow> bit f 2"
  "bit (map_entry p f) 3 \<longleftrightarrow> bit f 6"
  "bit (map_entry p f) 4 \<longleftrightarrow> bit f 7"
  "bit (map_entry p f) 7 \<longleftrightarrow> bit f 5"
  "bit (map_entry p f) 8 \<longleftrightarrow> bit f 4"
  "bit (map_entry p f) 63 \<longleftrightarrow> bit f 3"
  "\<not> bit (map_entry p f) 6"
  by (simp_all add: map_entry_def bit_or_iff bit_PAGE_ADDR translate_flag_def mmu_flag_test page_flag_bit)

lemma update_flag_bit:
  "bit (update_flag f a b e) n \<longleftrightarrow> (if bit b n then f AND a \<noteq> 0 else bit e n)"
  by (auto simp: update_flag_def bit_or_iff bit_and_iff bit_not_iff dest: bit_imp_le_length)

lemma setflags_entry_bits:
  "bit (setflags_entry f e) 0 \<longleftrightarrow> bit f 0"
  "bit (setflags_entry f e) 1 \<longleftrightarrow> bit f 1"
  "bit (setflags_entry f e) 2 \<longleftrightarrow> bit f 2"
  "bit (setflags_entry f e) 3 \<longleftrightarrow> bit f 6"
  "bit (setflags_entry f e) 4 \<longleftrightarrow> bit f 7"
  "bit (setflags_entry f e) 7 \<longleftrightarrow> bit f 5"
  "bit (setflags_entry f e) 8 \<longleftrightarrow> bit f 4"
  "bit (setflags_entry f e) 63 \<longleftrightarrow> bit f 3"
  "bit (setflags_entry f e) 6 \<longleftrightarrow> bit e 6"
  "MMU_PAGE_ADDR (setflags_entry f e) = MMU_PAGE_ADDR e"
proof -
  show "MMU_PAGE_ADDR (setflags_entry f e) = MMU_PAGE_ADDR e"
    by (rule bit_word_eqI)
      (auto simp: bit_PAGE_ADDR setflags_entry_def update_flag_bit page_flag_bit)
qed (simp_all add: setflags_entry_def update_flag_bit page_flag_bit mmu_flag_test)

lemma low_byte_bits: "bit (f AND 0xFF) n \<longleftrightarrow> n < 8 \<and> bit (f :: u64) n"
proof -
  have e: "(0xFF :: u64) = mask 8" by (simp add: mask_eq_exp_minus_1)
  show ?thesis unfolding e by (auto simp: bit_simps)
qed

text \<open>At most one of the caching flags.\<close>

definition one_caching :: "u64 \<Rightarrow> bool" where
  "one_caching f \<longleftrightarrow> \<not> (bit f 5 \<and> bit f 6) \<and> \<not> (bit f 5 \<and> bit f 7) \<and> \<not> (bit f 6 \<and> bit f 7)"

lemma translate_flag_bit: "bit (translate_flag e a b) n \<longleftrightarrow> e AND a \<noteq> 0 \<and> bit b n"
  by (simp add: translate_flag_def)

lemma pat_bit:
  assumes "one_caching f" "bit e 7 = bit f 5" "bit e 3 = bit f 6" "bit e 4 = bit f 7"
  shows "bit (pat_indexes ! ((if e AND MMU_PAGE_FLAG_SIZE \<noteq> 0 then 4 else 0)
      + (if e AND MMU_PAGE_FLAG_CD \<noteq> 0 then 2 else 0)
      + (if e AND MMU_PAGE_FLAG_WT \<noteq> 0 then 1 else 0))) n \<longleftrightarrow>
    bit f 5 \<and> n = 5 \<or> bit f 6 \<and> n = 6 \<or> bit f 7 \<and> n = 7"
  using assms
  by (cases "bit f 5"; cases "bit f 6"; cases "bit f 7")
    (simp_all add: page_flag_test mmu_flag_bit pat_indexes_def one_caching_def MMU_FLAG_WB_def)

lemma entry_flags_eq:
  assumes c: "one_caching f" "bit e 7 = bit f 5" "bit e 3 = bit f 6" "bit e 4 = bit f 7"
    and b: "\<not> bit e 6" "bit e 0 = bit f 0" "bit e 1 = bit f 1" "bit e 2 = bit f 2"
      "bit e 63 = bit f 3" "bit e 8 = bit f 4"
  shows "entry_flags e = f AND 0xFF"
proof (rule bit_word_eqI)
  fix n :: nat assume "n < LENGTH(64)"
  have e: "bit (entry_flags e) n \<longleftrightarrow> bit f 0 \<and> n = 0 \<or> bit f 1 \<and> n = 1 \<or> bit f 2 \<and> n = 2 \<or>
      bit f 3 \<and> n = 3 \<or> bit f 4 \<and> n = 4 \<or> bit f 5 \<and> n = 5 \<or> bit f 6 \<and> n = 6 \<or> bit f 7 \<and> n = 7"
    unfolding entry_flags_def bit_or_iff translate_flag_bit pat_bit [OF c]
    unfolding page_flag_test mmu_flag_bit using b by blast
  show "bit (entry_flags e) n = bit (f AND 0xFF) n"
  proof (cases "n < 8")
    case True
    then consider "n = 0" | "n = 1" | "n = 2" | "n = 3" | "n = 4" | "n = 5" | "n = 6" | "n = 7" by linarith
    then show ?thesis unfolding e low_byte_bits by cases simp_all
  next
    case False
    then show ?thesis unfolding e low_byte_bits by simp
  qed
qed

section \<open>Properties\<close>

definition in_hhdm :: "nat \<Rightarrow> bool" where
  "in_hhdm a \<longleftrightarrow> a \<ge> MMU_HHDM_REGION \<and> a < MMU_HHDM_REGION + MMU_HHDM_SIZE"

lemma physical_aligned:
  "PAGE_SIZE dvd w \<Longrightarrow> \<not> in_hhdm w \<Longrightarrow>
   arch_mmu_physical d w m = Done (unat (MMU_PAGE_ADDR (pte m (arch_mmu_dir d m) w)))"
  by (auto simp: physical_eq in_hhdm_def pte_def PAGE_SIZE_def split: option.splits elim!: dvdE)

lemma dir_keeps: "keeps V dir m m' \<Longrightarrow> arch_mmu_dir d m' = arch_mmu_dir d m"
  by (simp add: keeps_def arch_mmu_dir_def split: option.split)

text \<open>A machine with an empty directory at 8192 and four free frames behind it.\<close>

definition example_machine :: machine where
  "example_machine = \<lparr>mem = (\<lambda>_ _. 0),
     frames = \<lparr>zone = [\<lparr>s_start = 8192, s_size = 20480, s_bmap = [1], s_ffb = 0, s_nfree = 4,
         s_pages = [\<lparr>pg_flags = 0, pg_refcount = 1\<rparr>, \<lparr>pg_flags = 1, pg_refcount = 0\<rparr>,
           \<lparr>pg_flags = 1, pg_refcount = 0\<rparr>, \<lparr>pg_flags = 1, pg_refcount = 0\<rparr>,
           \<lparr>pg_flags = 1, pg_refcount = 0\<rparr>]\<rparr>],
       pmm_total_blocks = 5, pmm_used_blocks = 1, pmm_internal_memory = 0\<rparr>,
     cur_dir = 8192, kernel_pml = 0\<rparr>"

lemma example_machine_facts:
  "mmu_inv V 8192 example_machine" "zone_free (zone (frames example_machine)) = 4"
  "arch_mmu_dir None example_machine = 8192"
proof -
  have bits: "pbits [1] n \<longleftrightarrow> n = 0" if "n < 8" for n
    using that by (simp add: pbits_def bit_1_iff)
  have five: "(i < 5) = (i = 0 \<or> i = Suc 0 \<or> i = 2 \<or> i = 3 \<or> i = 4)" for i :: nat by auto
  have "free_count [1] 5 = 4" by (simp add: free_count_def upt_rec bits)
  then have z: "zone_inv (zone (frames example_machine))"
    by (auto simp: zone_inv_def sec_inv_def example_machine_def PAGE_SIZE_def five bits
        pg_free_def PAGE_FLAG_FREE_def)
  have t: "table (mem example_machine) 8192 k v = (if k = 0 then Some 8192 else None)" for k v
    by (induction k) (simp_all add: example_machine_def)
  have "\<not> free_page example_machine 8192"
    by (simp add: free_page_def example_machine_def section_has_def pg_free_def)
  with z t show "mmu_inv V 8192 example_machine"
    by (auto simp: mmu_inv_def agree_def PAGE_SIZE_def split: if_splits)
      (simp add: placed_def example_machine_def)
qed (simp_all add: zone_free_def example_machine_def arch_mmu_dir_def)

text \<open>
  C7. With three frames free, mapping a page succeeds. Afterwards every address in the page
  translates to the same offset in the given frame, all other pages of the directory translate
  and are protected as before, and no memory but the tables of the directory and frames that were
  free has changed; the invariant of the directory and of the allocator is kept.
\<close>

theorem arch_mmu_map_effect:
  assumes "mmu_inv V dir m" "arch_mmu_dir d m = dir" "MMU_PML4_INDEX v \<in> V" "MMU_IS_CANONICAL v"
    "entry_addr p" "3 \<le> zone_free (zone (frames m))"
  shows "\<exists>m'. arch_mmu_map d v p f m = Done m' \<and> mmu_inv V dir m' \<and> keeps V dir m m' \<and>
    (\<forall>w. MMU_PML4_INDEX w \<in> V \<longrightarrow> MMU_IS_CANONICAL w \<longrightarrow> \<not> in_hhdm w \<longrightarrow>
      (if same_page v w then arch_mmu_physical d w m' = Done (p + w mod 4096)
       else arch_mmu_read_flags d w m' = arch_mmu_read_flags d w m \<and>
         (PAGE_SIZE dvd w \<longrightarrow> arch_mmu_physical d w m' = arch_mmu_physical d w m)))"
proof -
  have v: "level_index 0 v \<in> V" using assms(3) by (simp add: level_indices)
  obtain m' where m': "arch_mmu_map d v p f m = Done m'" "mmu_inv V dir m'" "keeps V dir m m'"
    "table (mem m') dir 3 v \<noteq> None"
    "\<And>w. level_index 0 w \<in> V \<Longrightarrow> MMU_IS_CANONICAL w \<Longrightarrow>
       pte m' dir w = (if same_page v w then map_entry p f else pte m dir w)"
    "zone_free (zone (frames m)) \<le> zone_free (zone (frames m')) + 3"
    by (rule map_ok [OF assms(1) v assms(4,2,6)]) (rule that)
  have d: "arch_mmu_dir d m' = dir" using dir_keeps [OF m'(3)] assms(2) by simp
  have "if same_page v w then arch_mmu_physical d w m' = Done (p + w mod 4096)
       else arch_mmu_read_flags d w m' = arch_mmu_read_flags d w m \<and>
         (PAGE_SIZE dvd w \<longrightarrow> arch_mmu_physical d w m' = arch_mmu_physical d w m)"
    if w: "MMU_PML4_INDEX w \<in> V" "MMU_IS_CANONICAL w" "\<not> in_hhdm w" for w
  proof -
    have e: "pte m' dir w = (if same_page v w then map_entry p f else pte m dir w)"
      using m'(5) w(1,2) by (simp add: level_indices)
    have "table (mem m') dir 3 w \<noteq> None" if "same_page v w"
      using m'(4) table_agree [of 3 v w "mem m'" dir] agree_4 [OF assms(4) w(2)] that
      by (simp add: agree_def)
    then show ?thesis
      using w(3) e assms(2,5) d
      by (auto simp: read_flags_eq physical_aligned physical_eq in_hhdm_def map_entry_addr)
  qed
  with m' show ?thesis by blast
qed

theorem arch_mmu_map_effect_witness:
  "\<exists>m'. arch_mmu_map None 0x400123 0x7000 7 example_machine = Done m' \<and>
     arch_mmu_physical None 0x400456 m' = Done 0x7456 \<and>
     arch_mmu_physical None 0x401000 m' = arch_mmu_physical None 0x401000 example_machine"
proof -
  have c: "MMU_IS_CANONICAL 0x400123" "MMU_IS_CANONICAL 0x400456" "MMU_IS_CANONICAL 0x401000"
    by (simp_all add: MMU_IS_CANONICAL_def)
  have e: "entry_addr 0x7000" by (simp add: entry_addr_def PAGE_SIZE_def)
  from arch_mmu_map_effect [OF example_machine_facts(1) [of UNIV] example_machine_facts(3) _ c(1) e, of 7]
  obtain m' where m': "arch_mmu_map None 0x400123 0x7000 7 example_machine = Done m'"
    "\<forall>w. MMU_IS_CANONICAL w \<longrightarrow> \<not> in_hhdm w \<longrightarrow>
      (if same_page 0x400123 w then arch_mmu_physical None w m' = Done (0x7000 + w mod 4096)
       else arch_mmu_read_flags None w m' = arch_mmu_read_flags None w example_machine \<and>
         (PAGE_SIZE dvd w \<longrightarrow> arch_mmu_physical None w m' = arch_mmu_physical None w example_machine))"
    by (auto simp: example_machine_facts(2))
  show ?thesis
    using m'(1) m'(2) [THEN spec, of "0x400456"] m'(2) [THEN spec, of "0x401000"] c
    by (simp add: in_hhdm_def MMU_HHDM_REGION_def PAGE_SIZE_def)
qed

text \<open>
  C23. Unmapping a page leaves it without a frame and without access rights, and changes neither
  the other pages of the directory nor the allocator; unmapping a page that has no table changes
  nothing. The translation of an address inside the unmapped page is then its offset, and not 0
  as the description of \<^verbatim>\<open>arch_mmu_physical\<close> says.
\<close>

theorem arch_mmu_unmap_effect:
  assumes "mmu_inv V dir m" "arch_mmu_dir d m = dir" "MMU_PML4_INDEX v \<in> V" "MMU_IS_CANONICAL v"
    "\<not> in_hhdm v"
  shows "\<exists>m'. arch_mmu_unmap d v m = Done m' \<and> mmu_inv V dir m' \<and> keeps V dir m m' \<and> frames m' = frames m \<and>
    arch_mmu_read_flags d v m' = Done 0 \<and>
    arch_mmu_physical d v m' = Done (if table (mem m) dir 3 v = None then 0 else v mod 4096) \<and>
    (\<forall>w. MMU_PML4_INDEX w \<in> V \<longrightarrow> MMU_IS_CANONICAL w \<longrightarrow> \<not> in_hhdm w \<longrightarrow> \<not> same_page v w \<longrightarrow>
      arch_mmu_read_flags d w m' = arch_mmu_read_flags d w m \<and>
      (PAGE_SIZE dvd w \<longrightarrow> arch_mmu_physical d w m' = arch_mmu_physical d w m))"
proof -
  have v: "level_index 0 v \<in> V" using assms(3) by (simp add: level_indices)
  obtain m' where m': "arch_mmu_unmap d v m = Done m'" "mmu_inv V dir m'" "keeps V dir m m'"
    "frames m' = frames m" "table (mem m') dir 3 v = table (mem m) dir 3 v"
    "\<And>w. level_index 0 w \<in> V \<Longrightarrow> MMU_IS_CANONICAL w \<Longrightarrow>
       pte m' dir w = (if same_page v w then 0 else pte m dir w)"
    by (rule unmap_ok [OF assms(1) v assms(4,2)]) (rule that)
  have d: "arch_mmu_dir d m' = dir" using dir_keeps [OF m'(3)] assms(2) by simp
  have "pte m' dir v = 0" using m'(6) [OF v assms(4)] by simp
  then have "arch_mmu_read_flags d v m' = Done 0"
    "arch_mmu_physical d v m' = Done (if table (mem m) dir 3 v = None then 0 else v mod 4096)"
    using assms(5) d m'(5) by (auto simp: read_flags_eq physical_eq in_hhdm_def)
  moreover have "arch_mmu_read_flags d w m' = arch_mmu_read_flags d w m \<and>
      (PAGE_SIZE dvd w \<longrightarrow> arch_mmu_physical d w m' = arch_mmu_physical d w m)"
    if w: "MMU_PML4_INDEX w \<in> V" "MMU_IS_CANONICAL w" "\<not> in_hhdm w" "\<not> same_page v w" for w
    using m'(6) [of w] w d assms(2) by (simp add: read_flags_eq physical_aligned level_indices)
  ultimately show ?thesis using m'(1-4) by blast
qed

theorem arch_mmu_unmap_effect_witness:
  "\<exists>m'. arch_mmu_unmap None 0x400123 example_machine = Done m' \<and>
     arch_mmu_read_flags None 0x400123 m' = Done 0"
proof -
  have c: "MMU_IS_CANONICAL 0x400123" "\<not> in_hhdm 0x400123"
    by (simp_all add: MMU_IS_CANONICAL_def in_hhdm_def MMU_HHDM_REGION_def)
  from arch_mmu_unmap_effect [OF example_machine_facts(1) [of UNIV] example_machine_facts(3) _ c]
  show ?thesis by blast
qed

text \<open>
  C24. The flags of a mapping can be read back: after \<open>arch_mmu_map\<close> with at most one caching flag,
  \<open>arch_mmu_read_flags\<close> returns the eight flags that were given, and after \<open>arch_mmu_setflags\<close> it
  returns the new ones, while the page still translates to the same frame.
\<close>

theorem arch_mmu_flags_roundtrip:
  assumes "mmu_inv V dir m" "arch_mmu_dir d m = dir" "MMU_PML4_INDEX v \<in> V" "MMU_IS_CANONICAL v"
    "entry_addr p" "3 \<le> zone_free (zone (frames m))" "\<not> in_hhdm v" "one_caching f" "one_caching g"
  shows "\<exists>m1 m2. arch_mmu_map d v p f m = Done m1 \<and> arch_mmu_read_flags d v m1 = Done (f AND 0xFF) \<and>
    arch_mmu_setflags d v g m1 = Done (0, m2) \<and> arch_mmu_read_flags d v m2 = Done (g AND 0xFF) \<and>
    arch_mmu_physical d v m2 = Done (p + v mod 4096)"
proof -
  have v: "level_index 0 v \<in> V" using assms(3) by (simp add: level_indices)
  obtain m1 where m1: "arch_mmu_map d v p f m = Done m1" "mmu_inv V dir m1" "keeps V dir m m1"
    "table (mem m1) dir 3 v \<noteq> None"
    "\<And>w. level_index 0 w \<in> V \<Longrightarrow> MMU_IS_CANONICAL w \<Longrightarrow>
       pte m1 dir w = (if same_page v w then map_entry p f else pte m dir w)"
    "zone_free (zone (frames m)) \<le> zone_free (zone (frames m1)) + 3"
    by (rule map_ok [OF assms(1) v assms(4,2,6)]) (rule that)
  have d1: "arch_mmu_dir d m1 = dir" using dir_keeps [OF m1(3)] assms(2) by simp
  obtain r m2 where m2: "arch_mmu_setflags d v g m1 = Done (r, m2)" "mmu_inv V dir m2" "keeps V dir m1 m2"
    "frames m2 = frames m1" "table (mem m2) dir 3 v = table (mem m1) dir 3 v"
    "\<And>w. level_index 0 w \<in> V \<Longrightarrow> MMU_IS_CANONICAL w \<Longrightarrow>
       pte m2 dir w = (if same_page v w \<and> r = 0 then setflags_entry g (pte m1 dir v) else pte m1 dir w)"
    "r = 0 \<longleftrightarrow> table (mem m1) dir 3 v \<noteq> None"
    by (rule setflags_ok [OF m1(2) v assms(4) d1]) (rule that)
  have d2: "arch_mmu_dir d m2 = dir" using dir_keeps [OF m2(3)] d1 by simp
  have r: "r = 0" using m2(7) m1(4) by simp
  have p1: "pte m1 dir v = map_entry p f" and p2: "pte m2 dir v = setflags_entry g (map_entry p f)"
    using m1(5) [OF v assms(4)] m2(6) [OF v assms(4)] r by simp_all
  have "entry_flags (map_entry p f) = f AND 0xFF"
    by (rule entry_flags_eq [OF assms(8)]) (rule map_entry_bits)+
  moreover have "entry_flags (setflags_entry g (map_entry p f)) = g AND 0xFF"
    by (rule entry_flags_eq [OF assms(9)]) (unfold setflags_entry_bits, simp_all only: map_entry_bits not_False_eq_True)
  moreover have "arch_mmu_physical d v m2 = Done (p + v mod 4096)"
    using assms(5,7) m1(4) m2(5) d2 p2
    by (auto simp: physical_eq in_hhdm_def setflags_entry_bits map_entry_addr)
  ultimately show ?thesis using m1(1) m2(1) p1 p2 r d1 d2
    by (intro exI [of _ m1] exI [of _ m2]) (simp add: read_flags_eq)
qed

theorem arch_mmu_flags_roundtrip_witness:
  "\<exists>m1 m2. arch_mmu_map None 0x400000 0x7000 7 example_machine = Done m1 \<and>
     arch_mmu_read_flags None 0x400000 m1 = Done 7 \<and>
     arch_mmu_setflags None 0x400000 5 m1 = Done (0, m2) \<and> arch_mmu_read_flags None 0x400000 m2 = Done 5"
proof -
  have c: "MMU_IS_CANONICAL 0x400000" "\<not> in_hhdm 0x400000" "entry_addr 0x7000" "one_caching 7" "one_caching 5"
    by (simp_all add: MMU_IS_CANONICAL_def in_hhdm_def MMU_HHDM_REGION_def entry_addr_def PAGE_SIZE_def
        one_caching_def bit_numeral_rec)
  from arch_mmu_flags_roundtrip [OF example_machine_facts(1) [of UNIV] example_machine_facts(3) _ c(1,3) _ c(2,4,5)]
  show ?thesis by (auto simp: example_machine_facts(2))
qed

end
