(* ===== verification/Mmu_Destroy.thy ===== *)
theory Mmu_Destroy
  imports Mmu
begin

text \<open>
  The end of a page directory: \<open>arch_mmu_destroy\<close> gives back exactly the frames of the tables of
  the lower half. Together with the theory of the other operations this shows that a directory
  takes no frame for good, whatever was mapped in it.
\<close>

section \<open>Freeing a directory\<close>

text \<open>The three nested loops of \<open>arch_mmu_destroy\<close> as one, by the number of levels.\<close>

fun destroy_level :: "nat \<Rightarrow> nat \<Rightarrow> nat \<Rightarrow> machine \<Rightarrow> machine outcome" where
  "destroy_level 0 n t m = Done m"
| "destroy_level (Suc l) n t m = ofold (\<lambda>k m.
     if mem m t k AND MMU_PAGE_FLAG_PRESENT = 0 then Done m
     else
       obind (destroy_level l 512 (unat (MMU_PAGE_ADDR (mem m t k))) m) (\<lambda>m1.
       obind (free_frame (unat (MMU_PAGE_ADDR (mem m1 t k))) m1) (\<lambda>m2.
       Done (set_entry t k 0 m2)))) [0..<n] m"

lemma destroy_levels:
  "arch_mmu_destroy dir m = obind (destroy_level 3 256 dir m) (free_frame dir)"
proof -
  have pd: "destroy_level (Suc 0) 512 pd m = destroy_pd pd m" for pd m
    unfolding destroy_pd_def destroy_level.simps obind.simps ..
  have "destroy_level (Suc (Suc 0)) 512 pdpt m = destroy_pdpt pdpt m" for pdpt m
    unfolding destroy_pdpt_def pd [symmetric] destroy_level.simps(2) [of "Suc 0"] ..
  then have "destroy_level 3 256 dir m = ofold (\<lambda>i m.
       if mem m dir i AND MMU_PAGE_FLAG_PRESENT = 0 then Done m
       else
         obind (destroy_pdpt (unat (MMU_PAGE_ADDR (mem m dir i))) m) (\<lambda>m1.
         obind (free_frame (unat (MMU_PAGE_ADDR (mem m1 dir i))) m1) (\<lambda>m2.
         Done (set_entry dir i 0 m2)))) [0..<256] m"
    unfolding numeral_3_eq_3 by (simp only: destroy_level.simps)
  then show ?thesis by (simp add: arch_mmu_destroy_def)
qed

text \<open>
  The entries of a table that refer to a table below it, the tables below it, and that they form
  a tree.
\<close>

definition child :: "(nat \<Rightarrow> nat \<Rightarrow> u64) \<Rightarrow> nat \<Rightarrow> nat \<Rightarrow> nat option" where
  "child pm t k =
     (if pm t k AND MMU_PAGE_FLAG_PRESENT = 0 then None else Some (unat (MMU_PAGE_ADDR (pm t k))))"

fun below :: "nat \<Rightarrow> nat \<Rightarrow> (nat \<Rightarrow> nat \<Rightarrow> u64) \<Rightarrow> nat \<Rightarrow> nat set" where
  "below 0 n pm t = {}"
| "below (Suc l) n pm t =
     (\<Union>k < n. case child pm t k of None \<Rightarrow> {} | Some c \<Rightarrow> insert c (below l 512 pm c))"

definition branch :: "nat \<Rightarrow> (nat \<Rightarrow> nat \<Rightarrow> u64) \<Rightarrow> nat \<Rightarrow> nat \<Rightarrow> nat set" where
  "branch l pm t k = (case child pm t k of None \<Rightarrow> {} | Some c \<Rightarrow> insert c (below l 512 pm c))"

fun tree :: "nat \<Rightarrow> nat \<Rightarrow> (nat \<Rightarrow> nat \<Rightarrow> u64) \<Rightarrow> nat \<Rightarrow> bool" where
  "tree 0 n pm t = True"
| "tree (Suc l) n pm t =
     ((\<forall>k < n. \<forall>c. child pm t k = Some c \<longrightarrow> tree l 512 pm c \<and> c \<notin> below l 512 pm c) \<and>
      (\<forall>j < n. \<forall>k < n. j \<noteq> k \<longrightarrow> branch l pm t j \<inter> branch l pm t k = {}) \<and>
      (\<forall>k < n. t \<notin> branch l pm t k))"

lemma below_Suc: "below (Suc l) n pm t = (\<Union>k < n. branch l pm t k)"
  by (simp add: branch_def)

lemma child_below: "k < n \<Longrightarrow> child pm t k = Some c \<Longrightarrow> q = c \<or> q \<in> below l 512 pm c \<Longrightarrow> q \<in> below (Suc l) n pm t"
  unfolding below_Suc branch_def by force

lemma below_cong:
  "(\<And>q. q = t \<or> q \<in> below l n pm t \<Longrightarrow> pm' q = pm q) \<Longrightarrow> below l n pm' t = below l n pm t"
proof (induction l arbitrary: n t)
  case (Suc l)
  have c: "child pm' t k = child pm t k" for k using Suc.prems [of t] by (simp add: child_def)
  have "below l 512 pm' c = below l 512 pm c" if "k < n" "child pm t k = Some c" for k c
    by (rule Suc.IH, rule Suc.prems) (rule disjI2, rule child_below [OF that])
  then have "branch l pm' t k = branch l pm t k" if "k < n" for k
    using that by (auto simp: branch_def c split: option.splits)
  then show ?case unfolding below_Suc by simp
qed simp

lemma tree_cong:
  "(\<And>q. q = t \<or> q \<in> below l n pm t \<Longrightarrow> pm' q = pm q) \<Longrightarrow> tree l n pm' t = tree l n pm t"
proof (induction l arbitrary: n t)
  case (Suc l)
  have c: "child pm' t k = child pm t k" for k using Suc.prems [of t] by (simp add: child_def)
  have e: "pm' q = pm q" if "k < n" "child pm t k = Some c" "q = c \<or> q \<in> below l 512 pm c" for k c q
    by (rule Suc.prems, rule disjI2, rule child_below [OF that])
  have b: "below l 512 pm' c = below l 512 pm c" "tree l 512 pm' c = tree l 512 pm c"
    if "k < n" "child pm t k = Some c" for k c
    using below_cong [OF e [OF that]] Suc.IH [OF e [OF that]] by simp_all
  then have "branch l pm' t k = branch l pm t k" if "k < n" for k
    using that by (auto simp: branch_def c split: option.splits)
  with b show ?case by (simp add: c)
qed simp

text \<open>The machine after the frames in \<open>S\<close> were given back.\<close>

definition freed :: "nat set \<Rightarrow> machine \<Rightarrow> machine \<Rightarrow> bool" where
  "freed S m m' \<longleftrightarrow> zone_inv (zone (frames m')) \<and> placed (zone (frames m')) = placed (zone (frames m)) \<and>
     (\<forall>x. frame (zone (frames m')) x =
       (if PAGE_ALIGN_DOWN x \<in> S then map_option given (frame (zone (frames m)) x)
        else frame (zone (frames m)) x)) \<and>
     finite S \<and> zone_free (zone (frames m')) = zone_free (zone (frames m)) + card S \<and>
     cur_dir m' = cur_dir m \<and> kernel_pml m' = kernel_pml m"

lemma freed_empty: "zone_inv (zone (frames m)) \<Longrightarrow> freed {} m m"
  by (simp add: freed_def)

lemma freed_trans:
  assumes "freed S m m1" "freed T m1 m2" "S \<inter> T = {}"
  shows "freed (S \<union> T) m m2"
  using assms unfolding freed_def by (auto simp: card_Un_disjoint)

text \<open>A frame with one reference.\<close>

definition held_once :: "machine \<Rightarrow> nat \<Rightarrow> bool" where
  "held_once m t \<longleftrightarrow> PAGE_SIZE dvd t \<and> (\<exists>pg. frame (zone (frames m)) t = Some pg \<and> pg_refcount pg = 1)"

lemma free_frame_ok:
  assumes "zone_inv (zone (frames m))" "held_once m t"
  obtains m' where "free_frame t m = Done m'" "freed {t} m m'" "mem m' = mem m"
proof -
  from assms(2) obtain pg where t: "PAGE_SIZE dvd t" "frame (zone (frames m)) t = Some pg" "pg_refcount pg = 1"
    by (auto simp: held_once_def)
  obtain f where f: "pmm_release (frames m) t = Done f" "zone_inv (zone f)"
    "placed (zone f) = placed (zone (frames m))"
    "frame (zone f) = (\<lambda>x. if same_page x t then Some (if pg_refcount pg = 1 then given pg
       else pg\<lparr>pg_refcount := pg_refcount pg - 1\<rparr>) else frame (zone (frames m)) x)"
    "zone_free (zone f) = zone_free (zone (frames m)) + of_bool (pg_refcount pg = 1)"
    by (rule pmm_release_ok [OF assms(1) t(2)]) (use t(3) that in auto)
  have "same_page x t \<longleftrightarrow> PAGE_ALIGN_DOWN x = t" for x
    using align_self [OF t(1)] by (auto simp: PAGE_ALIGN_DOWN_def)
  moreover have "frame (zone (frames m)) x = Some pg" if "same_page x t" for x
    using frame_same_page [OF assms(1) that] t(2) by simp
  ultimately have "freed {t} m (m\<lparr>frames := f\<rparr>)"
    using f(2-5) t(3) by (auto simp: freed_def)
  moreover have "free_frame t m = Done (m\<lparr>frames := f\<rparr>)"
    using f(1) by (simp add: free_frame_def pmm_freePage_def)
  ultimately show ?thesis using that by simp
qed

lemma freed_held:
  assumes "freed S m m'" "held_once m q" "q \<notin> S"
  shows "held_once m' q"
proof -
  from assms(2) have "PAGE_ALIGN_DOWN q = q" by (simp add: held_once_def align_self)
  with assms show ?thesis by (auto simp: held_once_def freed_def)
qed

lemma freed_set_entry: "freed S m (set_entry t k e m') = freed S m m'"
  by (simp add: freed_def set_entry_def)

lemma freed_zone: "freed S m m' \<Longrightarrow> zone_inv (zone (frames m'))"
  by (simp add: freed_def)

text \<open>One round of the loop over the entries of a table.\<close>

lemma destroy_round:
  assumes inv: "zone_inv (zone (frames s))" and c: "child (mem s) t k = Some c"
    and ok: "\<exists>s1. destroy_level l 512 c s = Done s1 \<and> freed (below l 512 (mem s) c) s s1 \<and>
      (\<forall>q. q \<noteq> c \<longrightarrow> q \<notin> below l 512 (mem s) c \<longrightarrow> mem s1 q = mem s q)"
    and t: "t \<notin> branch l (mem s) t k" and cb: "c \<notin> below l 512 (mem s) c" and h: "held_once s c"
  shows "\<exists>s3. obind (destroy_level l 512 (unat (MMU_PAGE_ADDR (mem s t k))) s) (\<lambda>m1.
       obind (free_frame (unat (MMU_PAGE_ADDR (mem m1 t k))) m1) (\<lambda>m2.
       Done (set_entry t k 0 m2))) = Done s3 \<and>
     freed (branch l (mem s) t k) s s3 \<and>
     (\<forall>q. q \<noteq> t \<longrightarrow> q \<notin> branch l (mem s) t k \<longrightarrow> mem s3 q = mem s q) \<and>
     (\<forall>j. j \<noteq> k \<longrightarrow> mem s3 t j = mem s t j)"
proof -
  from c have ce: "unat (MMU_PAGE_ADDR (mem s t k)) = c" by (simp add: child_def split: if_splits)
  have b: "branch l (mem s) t k = insert c (below l 512 (mem s) c)" using c by (simp add: branch_def)
  from ok obtain s1 where s1: "destroy_level l 512 c s = Done s1" "freed (below l 512 (mem s) c) s s1"
    "\<And>q. q \<noteq> c \<Longrightarrow> q \<notin> below l 512 (mem s) c \<Longrightarrow> mem s1 q = mem s q" by blast
  have t1: "mem s1 t = mem s t" using s1(3) t b by blast
  obtain s2 where s2: "free_frame c s1 = Done s2" "freed {c} s1 s2" "mem s2 = mem s1"
    by (rule free_frame_ok [OF freed_zone [OF s1(2)] freed_held [OF s1(2) h cb]])
  have "freed (branch l (mem s) t k) s s2"
    using freed_trans [OF s1(2) s2(2)] cb by (simp add: b)
  moreover have "mem (set_entry t k 0 s2) q = mem s q" if "q \<noteq> t" "q \<notin> branch l (mem s) t k" for q
    using that s1(3) [of q] b s2(3) by (simp add: set_entry_def)
  moreover have "mem (set_entry t k 0 s2) t j = mem s t j" if "j \<noteq> k" for j
    using that s2(3) t1 by (simp add: set_entry_def)
  ultimately show ?thesis using s1(1) s2(1)
    by (intro exI [of _ "set_entry t k 0 s2"]) (simp add: ce t1 freed_set_entry)
qed

lemma destroy_level_ok:
  "zone_inv (zone (frames m)) \<Longrightarrow> tree l n (mem m) t \<Longrightarrow> \<forall>q \<in> below l n (mem m) t. held_once m q \<Longrightarrow>
   \<exists>m'. destroy_level l n t m = Done m' \<and> freed (below l n (mem m) t) m m' \<and>
     (\<forall>q. q \<noteq> t \<longrightarrow> q \<notin> below l n (mem m) t \<longrightarrow> mem m' q = mem m q)"
proof (induction l arbitrary: n t m)
  case 0
  then show ?case by (simp add: freed_empty)
next
  case (Suc l)
  let ?B = "branch l (mem m) t" and ?U = "\<lambda>i. \<Union>k < i. branch l (mem m) t k"
  define P where "P = (\<lambda>i s. freed (?U i) m s \<and> (\<forall>q. q \<noteq> t \<longrightarrow> q \<notin> ?U i \<longrightarrow> mem s q = mem m q) \<and>
      (\<forall>k \<ge> i. mem s t k = mem m t k))"
  have tr: "\<And>k c. k < n \<Longrightarrow> child (mem m) t k = Some c \<Longrightarrow> tree l 512 (mem m) c \<and> c \<notin> below l 512 (mem m) c"
    "\<And>j k. j < n \<Longrightarrow> k < n \<Longrightarrow> j \<noteq> k \<Longrightarrow> ?B j \<inter> ?B k = {}" "\<And>k. k < n \<Longrightarrow> t \<notin> ?B k"
    using Suc.prems(2) by auto
  have "P 0 m" using Suc.prems(1) by (simp add: P_def freed_empty)
  moreover have "\<exists>s'. (if mem s t i AND MMU_PAGE_FLAG_PRESENT = 0 then Done s
     else
       obind (destroy_level l 512 (unat (MMU_PAGE_ADDR (mem s t i))) s) (\<lambda>m1.
       obind (free_frame (unat (MMU_PAGE_ADDR (mem m1 t i))) m1) (\<lambda>m2.
       Done (set_entry t i 0 m2)))) = Done s' \<and> P (Suc i) s'" if i: "i < n" and P: "P i s" for i s
  proof (cases "child (mem m) t i")
    case None
    have "mem s t i = mem m t i" using P by (simp add: P_def)
    moreover have "mem m t i AND MMU_PAGE_FLAG_PRESENT = 0" "?U (Suc i) = ?U i"
      using None by (simp_all add: child_def branch_def lessThan_Suc split: if_splits)
    ultimately show ?thesis using P by (simp add: P_def)
  next
    case (Some c)
    have fr: "freed (?U i) m s" and me: "\<And>q. q \<noteq> t \<Longrightarrow> q \<notin> ?U i \<Longrightarrow> mem s q = mem m q"
      and mt: "\<And>k. i \<le> k \<Longrightarrow> mem s t k = mem m t k" using P by (auto simp: P_def)
    have "?B k \<inter> ?B i = {}" if "k < i" for k using that tr(2) [of k i] i by simp
    then have d: "?U i \<inter> ?B i = {}" by blast
    have b: "?B i = insert c (below l 512 (mem m) c)" using Some by (simp add: branch_def)
    have e: "mem s q = mem m q" if "q = c \<or> q \<in> below l 512 (mem m) c" for q
      using that me [of q] d tr(3) [OF i] b by blast
    have bl: "below l 512 (mem s) c = below l 512 (mem m) c" by (rule below_cong [OF e])
    have "tree l 512 (mem s) c" using tree_cong [OF e] tr(1) [OF i Some] by simp
    moreover have hs: "held_once s q" if "q \<in> ?B i" for q
    proof (rule freed_held [OF fr])
      show "held_once m q" using that Suc.prems(3) i unfolding below_Suc by blast
      show "q \<notin> ?U i" using that d by blast
    qed
    ultimately have ok: "\<exists>s1. destroy_level l 512 c s = Done s1 \<and> freed (below l 512 (mem s) c) s s1 \<and>
      (\<forall>q. q \<noteq> c \<longrightarrow> q \<notin> below l 512 (mem s) c \<longrightarrow> mem s1 q = mem s q)"
      using Suc.IH [OF freed_zone [OF fr]] b bl by blast
    have cs: "child (mem s) t i = Some c" using Some mt [of i] by (simp add: child_def split: if_splits)
    have bs: "branch l (mem s) t i = ?B i" using cs bl b by (simp add: branch_def)
    have "held_once s c" using hs b by blast
    from destroy_round [OF freed_zone [OF fr] cs ok _ _ this] tr(3) [OF i] tr(1) [OF i Some]
    obtain s3 where s3: "obind (destroy_level l 512 (unat (MMU_PAGE_ADDR (mem s t i))) s) (\<lambda>m1.
        obind (free_frame (unat (MMU_PAGE_ADDR (mem m1 t i))) m1) (\<lambda>m2. Done (set_entry t i 0 m2))) = Done s3"
      "freed (?B i) s s3" "\<And>q. q \<noteq> t \<Longrightarrow> q \<notin> ?B i \<Longrightarrow> mem s3 q = mem s q"
      "\<And>j. j \<noteq> i \<Longrightarrow> mem s3 t j = mem s t j" unfolding bs bl by blast
    have "freed (?U (Suc i)) m s3"
      using freed_trans [OF fr s3(2) d] by (simp add: lessThan_Suc Un_commute)
    then have "P (Suc i) s3" unfolding P_def using s3(3,4) me mt by (auto simp: lessThan_Suc)
    moreover have "mem s t i AND MMU_PAGE_FLAG_PRESENT \<noteq> 0" using cs by (simp add: child_def split: if_splits)
    ultimately show ?thesis using s3(1) by auto
  qed
  ultimately have "\<exists>s'. ofold (\<lambda>k m. if mem m t k AND MMU_PAGE_FLAG_PRESENT = 0 then Done m
     else
       obind (destroy_level l 512 (unat (MMU_PAGE_ADDR (mem m t k))) m) (\<lambda>m1.
       obind (free_frame (unat (MMU_PAGE_ADDR (mem m1 t k))) m1) (\<lambda>m2.
       Done (set_entry t k 0 m2)))) [0..<n] m = Done s' \<and> P n s'" by (rule ofold_upt_inv)
  then show ?case unfolding P_def below_Suc destroy_level.simps by blast
qed

text \<open>The address with index \<open>i\<close> at level \<open>k\<close> and the indices of \<open>v\<close> above.\<close>

definition with_index :: "nat \<Rightarrow> nat \<Rightarrow> nat \<Rightarrow> nat" where
  "with_index k i v = v div 2 ^ (48 - 9 * k) * 2 ^ (48 - 9 * k) + i * 2 ^ (39 - 9 * k)"

lemma level_span: "k \<le> 3 \<Longrightarrow> (2::nat) ^ (48 - 9 * k) = 512 * 2 ^ (39 - 9 * k)"
proof -
  assume "k \<le> 3"
  then have "48 - 9 * k = 9 + (39 - 9 * k)" by simp
  then show ?thesis by (simp only: power_add) simp
qed

lemma with_index_at: "k \<le> 3 \<Longrightarrow> i < 512 \<Longrightarrow> level_index k (with_index k i v) = i"
proof -
  assume k: "k \<le> 3" and i: "i < 512"
  have "with_index k i v = (v div 2 ^ (48 - 9 * k) * 512 + i) * 2 ^ (39 - 9 * k)"
    unfolding with_index_def level_span [OF k] by (simp add: algebra_simps)
  then show ?thesis using i by (simp add: level_index_def)
qed

lemma with_index_above: "k \<le> 3 \<Longrightarrow> i < 512 \<Longrightarrow> agree k v (with_index k i v)"
  unfolding agree_def
proof (intro allI impI)
  fix j assume k: "k \<le> 3" and i: "i < 512" and j: "j < k"
  define a b where "a = 48 - 9 * k" and "b = 39 - 9 * j - a"
  have ab: "39 - 9 * j = a + b" using k j by (auto simp: a_def b_def)
  have "(2::nat) ^ a = 512 * 2 ^ (39 - 9 * k)" unfolding a_def by (rule level_span [OF k])
  then have "i * 2 ^ (39 - 9 * k) < 2 ^ a" using i by simp
  then have "with_index k i v div 2 ^ a = v div 2 ^ a" by (simp add: with_index_def a_def [symmetric])
  then have "with_index k i v div 2 ^ (a + b) = v div 2 ^ (a + b)"
    by (simp only: power_add div_mult2_eq)
  then show "level_index j v = level_index j (with_index k i v)" by (simp add: level_index_def ab)
qed

lemma table_child:
  "table pm dir k v = Some t \<Longrightarrow> table pm dir (Suc k) v = child pm t (level_index k v)"
  by (simp add: child_def Let_def)

lemma branch_step:
  assumes "k \<le> 3" "table pm dir k v = Some t" "i < 512" "q \<in> branch l pm t i"
  obtains w c where "agree k v w" "level_index k w = i" "table pm dir (Suc k) w = Some c"
    "q = c \<or> q \<in> below l 512 pm c"
proof -
  from assms(4) obtain c where c: "child pm t i = Some c" "q = c \<or> q \<in> below l 512 pm c"
    by (auto simp: branch_def split: option.splits)
  define w where "w = with_index k i v"
  have w: "agree k v w" "level_index k w = i"
    using assms(1,3) by (simp_all add: w_def with_index_at with_index_above)
  have "table pm dir k w = Some t" using table_agree [OF w(1)] assms(2) by metis
  then have "table pm dir (Suc k) w = Some c" using table_child c(1) w(2) by metis
  from that [OF w this c(2)] show ?thesis .
qed

lemma branch_table:
  "k + Suc l = 3 \<Longrightarrow> table pm dir k v = Some t \<Longrightarrow> i < 512 \<Longrightarrow> q \<in> branch l pm t i \<Longrightarrow>
   \<exists>k' w. k < k' \<and> k' \<le> 3 \<and> agree k v w \<and> level_index k w = i \<and> table pm dir k' w = Some q"
proof (induction l arbitrary: k v t i)
  case 0
  have "k \<le> 3" using 0(1) by simp
  from branch_step [OF this 0(2-4)] obtain w where
    "agree k v w" "level_index k w = i" "table pm dir (Suc k) w = Some q" by auto
  with 0 show ?case by (intro exI [of _ "Suc k"] exI [of _ w]) simp
next
  case (Suc l)
  have "k \<le> 3" using Suc.prems(1) by simp
  from branch_step [OF this Suc.prems(2-4)] obtain w c where
    w: "agree k v w" "level_index k w = i" "table pm dir (Suc k) w = Some c"
      "q = c \<or> q \<in> below (Suc l) 512 pm c" .
  from w(4) show ?case
  proof
    assume "q = c"
    with w Suc.prems(1) show ?thesis by (intro exI [of _ "Suc k"] exI [of _ w]) simp
  next
    assume "q \<in> below (Suc l) 512 pm c"
    then obtain j where "j < 512" "q \<in> branch l pm c j" unfolding below_Suc by blast
    with Suc.IH [OF _ w(3)] Suc.prems(1) obtain k' x where
      x: "Suc k < k'" "k' \<le> 3" "agree (Suc k) w x" "table pm dir k' x = Some q" by force
    then have "agree k v x" "level_index k x = i" using w by (auto simp: agree_Suc agree_def)
    with x show ?thesis by (intro exI [of _ k'] exI [of _ x]) simp
  qed
qed

text \<open>The tables of a directory form a tree, and it holds all of them.\<close>

lemma inv_tree:
  "mmu_inv V dir m \<Longrightarrow> k + l = 3 \<Longrightarrow> table (mem m) dir k v = Some t \<Longrightarrow> n \<le> 512 \<Longrightarrow>
   (\<And>w. agree k v w \<Longrightarrow> k = 0 \<longrightarrow> level_index 0 w < n \<Longrightarrow> level_index 0 w \<in> V) \<Longrightarrow>
   level_index 0 v \<in> V \<Longrightarrow> tree l n (mem m) t"
proof (induction l arbitrary: k v t n)
  case (Suc l)
  let ?B = "branch l (mem m) t"
  have k: "k \<le> 3" using Suc.prems(2) by simp
  have br: "\<exists>k' w. k < k' \<and> k' \<le> 3 \<and> agree k v w \<and> level_index k w = i \<and>
      level_index 0 w \<in> V \<and> table (mem m) dir k' w = Some q" if "i < n" "q \<in> ?B i" for i q
    using branch_table [OF Suc.prems(2,3) _ that(2)] that(1) Suc.prems(4,5) by fastforce
  have "tree l 512 (mem m) c \<and> c \<notin> below l 512 (mem m) c" if "i < n" "child (mem m) t i = Some c" for i c
  proof -
    define w where "w = with_index k i v"
    have i: "i < 512" using that(1) Suc.prems(4) by simp
    have w: "agree k v w" "level_index k w = i"
      using k i by (simp_all add: w_def with_index_at with_index_above)
    then have V: "level_index 0 w \<in> V" using Suc.prems(5) [OF w(1)] that(1) by auto
    have "table (mem m) dir k w = Some t" using table_agree [OF w(1)] Suc.prems(3) by metis
    then have c: "table (mem m) dir (Suc k) w = Some c" using table_child that(2) w(2) by metis
    have ag: "level_index 0 x \<in> V" if "agree (Suc k) w x" for x
      using that V by (auto simp: agree_def)
    have "tree l 512 (mem m) c"
      by (rule Suc.IH [OF Suc.prems(1) _ c _ _ V]) (use Suc.prems(2) ag in auto)
    moreover have "c \<notin> below l 512 (mem m) c"
    proof
      assume "c \<in> below l 512 (mem m) c"
      then obtain l' j where "l = Suc l'" "j < 512" "c \<in> branch l' (mem m) c j"
        by (cases l) (auto simp: below_Suc simp del: below.simps(2))
      with branch_table [OF _ c] Suc.prems(2) obtain k' x where
        "Suc k < k'" "k' \<le> 3" "agree (Suc k) w x" "table (mem m) dir k' x = Some c" by force
      then show False using mmu_invD(5) [OF Suc.prems(1) _ _ V ag c, of k' x] by auto
    qed
    ultimately show ?thesis ..
  qed
  moreover have "?B i \<inter> ?B j = {}" if ij: "i < n" "j < n" "i \<noteq> j" for i j
  proof (rule ccontr)
    assume "?B i \<inter> ?B j \<noteq> {}"
    then obtain q where "q \<in> ?B i" "q \<in> ?B j" by blast
    from br [OF ij(1) this(1)] br [OF ij(2) this(2)] obtain k1 w1 k2 w2 where
      w: "k < k1" "k1 \<le> 3" "level_index k w1 = i" "level_index 0 w1 \<in> V" "table (mem m) dir k1 w1 = Some q"
        "k2 \<le> 3" "level_index k w2 = j" "level_index 0 w2 \<in> V" "table (mem m) dir k2 w2 = Some q" by blast
    then have "k1 = k2" "agree k2 w1 w2" using mmu_invD(5) [OF Suc.prems(1)] by blast+
    with w ij(3) show False by (auto simp: agree_def)
  qed
  moreover have "t \<notin> ?B i" if "i < n" for i
    using br [OF that, of t] mmu_invD(5) [OF Suc.prems(1) k _ Suc.prems(6) _ Suc.prems(3)] by auto
  ultimately show ?case unfolding tree.simps by blast
qed simp

lemma table_below:
  assumes "k \<le> 3" "level_index 0 v < 256" "table pm dir k v = Some q"
  shows "k = 0 \<and> q = dir \<or> k \<noteq> 0 \<and> q \<in> below 3 256 pm dir \<and> below (3 - k) 512 pm q \<subseteq> below 3 256 pm dir"
  using assms(1,3)
proof (induction k arbitrary: q)
  case (Suc k)
  then obtain t where t: "table pm dir k v = Some t" "child pm t (level_index k v) = Some q"
    by (auto simp: child_def Let_def split: option.splits if_splits)
  have k: "3 - k = Suc (3 - Suc k)" using Suc.prems(1) by simp
  show ?case
  proof (cases "k = 0")
    case True
    with t have "t = dir" by simp
    then have "x \<in> below (Suc 2) 256 pm dir" if "x = q \<or> x \<in> below 2 512 pm q" for x
      using child_below [OF _ t(2) that] assms(2) True by simp
    then show ?thesis using True by (auto simp: numeral_3_eq_3 numeral_2_eq_2)
  next
    case False
    with Suc.IH [OF _ t(1)] Suc.prems(1) have "below (3 - k) 512 pm t \<subseteq> below 3 256 pm dir" by simp
    moreover have "level_index k v < 512" by (simp add: level_index_def)
    then have "x \<in> below (3 - k) 512 pm t" if "x = q \<or> x \<in> below (3 - Suc k) 512 pm q" for x
      unfolding k by (rule child_below [OF _ t(2) that])
    ultimately show ?thesis by blast
  qed
qed simp

lemma tables_eq:
  "{q. is_table {..<256} dir m q} = insert dir (below 3 256 (mem m) dir)"
proof (intro equalityI subsetI)
  fix q assume "q \<in> {q. is_table {..<256} dir m q}"
  then obtain k v where "k \<le> 3" "level_index 0 v < 256" "table (mem m) dir k v = Some q"
    by (auto simp: is_table_def)
  from table_below [OF this] show "q \<in> insert dir (below 3 256 (mem m) dir)" by blast
next
  fix q assume q: "q \<in> insert dir (below 3 256 (mem m) dir)"
  have d: "table (mem m) dir 0 0 = Some dir" by simp
  show "q \<in> {q. is_table {..<256} dir m q}"
  proof (cases "q = dir")
    case True
    have "level_index 0 0 \<in> {..<256}" by (simp add: level_index_def)
    with True d show ?thesis unfolding is_table_def by blast
  next
    case False
    then obtain i where "i < 256" "q \<in> branch 2 (mem m) dir i"
      using q below_Suc [of 2 256 "mem m" dir] by (auto simp del: below.simps)
    with branch_table [OF _ d, of 2 i] show ?thesis by (force simp: is_table_def)
  qed
qed

lemma destroy_ok:
  assumes inv: "mmu_inv {..<256} dir m" and held: "\<forall>q. is_table {..<256} dir m q \<longrightarrow> held_once m q"
  obtains m' where "arch_mmu_destroy dir m = Done m'" "freed {q. is_table {..<256} dir m q} m m'"
proof -
  have v: "level_index 0 0 \<in> {..<256}" by (simp add: level_index_def)
  have "tree 3 256 (mem m) dir"
    by (rule inv_tree [OF inv, of 0 3 0]) (use v in auto)
  moreover have h: "\<forall>q \<in> insert dir (below 3 256 (mem m) dir). held_once m q"
    using held tables_eq [of dir m] by blast
  ultimately obtain m1 where m1: "destroy_level 3 256 dir m = Done m1"
    "freed (below 3 256 (mem m) dir) m m1"
    using destroy_level_ok [OF mmu_invD(1) [OF inv]] by blast
  have d: "dir \<notin> below 3 256 (mem m) dir"
    using \<open>tree 3 256 (mem m) dir\<close> unfolding numeral_3_eq_3 tree.simps(2) [of "Suc (Suc 0)"] below_Suc
    by blast
  obtain m2 where m2: "free_frame dir m1 = Done m2" "freed {dir} m1 m2"
    by (rule free_frame_ok [OF freed_zone [OF m1(2)] freed_held [OF m1(2) _ d]]) (use h in auto)
  have "freed {q. is_table {..<256} dir m q} m m2"
    using freed_trans [OF m1(2) m2(2)] d by (simp add: tables_eq)
  with that m1(1) m2(1) show ?thesis by (simp add: destroy_levels)
qed

section \<open>The life of a directory\<close>

datatype mmu_op = Map nat nat u64 | Unmap nat | Setflags nat u64

fun mmu_exec :: "nat \<Rightarrow> mmu_op \<Rightarrow> machine \<Rightarrow> machine outcome" where
  "mmu_exec dir (Map v p f) m = arch_mmu_map (Some dir) v p f m"
| "mmu_exec dir (Unmap v) m = arch_mmu_unmap (Some dir) v m"
| "mmu_exec dir (Setflags v f) m = obind (arch_mmu_setflags (Some dir) v f m) (\<lambda>(r, m'). Done m')"

fun user_op :: "mmu_op \<Rightarrow> bool" where
  "user_op (Map v p f) = (v < 2 ^ 47)"
| "user_op (Unmap v) = (v < 2 ^ 47)"
| "user_op (Setflags v f) = (v < 2 ^ 47)"

lemma user_addr: "v < 2 ^ 47 \<Longrightarrow> level_index 0 v \<in> {..<256} \<and> MMU_IS_CANONICAL v"
  by (simp add: level_index_def MMU_IS_CANONICAL_def less_mult_imp_div_less)

text \<open>The tables of the directory are exactly the frames taken since the machine was \<open>m0\<close>.\<close>

abbreviation user_tables :: "nat \<Rightarrow> machine \<Rightarrow> nat set" where
  "user_tables dir m \<equiv> {q. is_table {..<256} dir m q}"

definition since :: "nat \<Rightarrow> machine \<Rightarrow> machine \<Rightarrow> bool" where
  "since dir m0 m \<longleftrightarrow> mmu_inv {..<256} dir m \<and> finite (user_tables dir m) \<and>
     (\<forall>q \<in> user_tables dir m. free_page m0 q \<and> PAGE_SIZE dvd q) \<and>
     (\<forall>x. frame (zone (frames m)) x =
       (if PAGE_ALIGN_DOWN x \<in> user_tables dir m then map_option taken (frame (zone (frames m0)) x)
        else frame (zone (frames m0)) x)) \<and>
     zone_free (zone (frames m0)) = zone_free (zone (frames m)) + card (user_tables dir m)"

lemma since_took:
  assumes s: "since dir m0 m" and t: "took S {..<256} dir m m'" and i: "mmu_inv {..<256} dir m'"
  shows "since dir m0 m'"
proof -
  let ?T = "{q. is_table {..<256} dir m q}"
  have T: "{q. is_table {..<256} dir m' q} = ?T \<union> S" using t by (auto simp: took_def)
  have S: "free_page m0 q \<and> PAGE_SIZE dvd q \<and> q \<notin> ?T" if "q \<in> S" for q
  proof -
    have q: "free_page m q" "PAGE_SIZE dvd q" using that t by (auto simp: took_def)
    then have "PAGE_ALIGN_DOWN q \<notin> ?T"
      using s by (auto simp: since_def free_page_def split: if_splits)
    with q s show ?thesis by (auto simp: since_def free_page_def align_self)
  qed
  then have "?T \<inter> S = {}" by blast
  with s t S i show ?thesis
    unfolding since_def T by (auto simp: took_def card_Un_disjoint)
qed

lemma since_keeps:
  "since dir m0 m \<Longrightarrow> keeps {..<256} dir m m' \<Longrightarrow> mmu_inv {..<256} dir m' \<Longrightarrow> since dir m0 m'"
  by (auto simp: keeps_def intro: since_took)

lemma since_inv: "since dir m0 m \<Longrightarrow> mmu_inv {..<256} dir m"
  by (simp add: since_def)

lemma dir_Some: "arch_mmu_dir (Some dir) m = dir"
  by (simp add: arch_mmu_dir_def)

lemma exec_ok:
  assumes s: "since dir m0 m" and op: "user_op op" and free: "3 \<le> zone_free (zone (frames m))"
  shows "\<exists>m'. mmu_exec dir op m = Done m' \<and> since dir m0 m' \<and>
    zone_free (zone (frames m)) \<le> zone_free (zone (frames m')) + 3"
proof (cases op)
  case (Map v p f)
  with op have v: "level_index 0 v \<in> {..<256}" "MMU_IS_CANONICAL v" using user_addr by auto
  obtain m' where
    "arch_mmu_map (Some dir) v p f m = Done m'" "mmu_inv {..<256} dir m'" "keeps {..<256} dir m m'"
    "zone_free (zone (frames m)) \<le> zone_free (zone (frames m')) + 3"
    by (rule map_ok [OF since_inv [OF s] v dir_Some free]) (rule that)
  with Map since_keeps [OF s] show ?thesis by auto
next
  case (Unmap v)
  with op have v: "level_index 0 v \<in> {..<256}" "MMU_IS_CANONICAL v" using user_addr by auto
  obtain m' where
    "arch_mmu_unmap (Some dir) v m = Done m'" "mmu_inv {..<256} dir m'" "keeps {..<256} dir m m'"
    "frames m' = frames m" by (rule unmap_ok [OF since_inv [OF s] v dir_Some]) (rule that)
  with Unmap since_keeps [OF s] show ?thesis by auto
next
  case (Setflags v f)
  with op have v: "level_index 0 v \<in> {..<256}" "MMU_IS_CANONICAL v" using user_addr by auto
  obtain r m' where
    "arch_mmu_setflags (Some dir) v f m = Done (r, m')" "mmu_inv {..<256} dir m'" "keeps {..<256} dir m m'"
    "frames m' = frames m" by (rule setflags_ok [OF since_inv [OF s] v dir_Some]) (rule that)
  with Setflags since_keeps [OF s] show ?thesis by auto
qed

lemma execs_ok:
  "since dir m0 m \<Longrightarrow> \<forall>op \<in> set ops. user_op op \<Longrightarrow> 3 * length ops \<le> zone_free (zone (frames m)) \<Longrightarrow>
   \<exists>m'. ofold (mmu_exec dir) ops m = Done m' \<and> since dir m0 m'"
proof (induction ops arbitrary: m)
  case (Cons op ops)
  then obtain m1 where m1: "mmu_exec dir op m = Done m1" "since dir m0 m1"
    "zone_free (zone (frames m)) \<le> zone_free (zone (frames m1)) + 3"
    using exec_ok [OF Cons.prems(1), of op] by auto
  with Cons.IH [OF m1(2)] Cons.prems show ?case by auto
qed simp

text \<open>A fresh directory with the kernel half copied into it.\<close>

lemma new_dir_ok:
  assumes z: "zone_inv (zone (frames m))" "\<forall>(a, n) \<in> set (placed (zone (frames m))). a + n \<le> 2 ^ 52"
    and free: "0 < zone_free (zone (frames m))"
  obtains dir m1 where "arch_mmu_new_dir m = Done (dir, m1)"
    "since dir m (arch_mmu_copy_kernel dir m1)"
    "zone_free (zone (frames m)) = zone_free (zone (frames (arch_mmu_copy_kernel dir m1))) + 1"
proof -
  have e: "mmu_inv {} 0 m" using z by (simp add: mmu_inv_def)
  obtain p m1 where a: "alloc_frame m = Done (p, m1)" "mem m1 = mem m" "zone_inv (zone (frames m1))"
    "placed (zone (frames m1)) = placed (zone (frames m))" "entry_addr p" "free_page m p"
    "\<not> free_page m1 p" "\<And>q. \<not> free_page m q \<Longrightarrow> frame (zone (frames m1)) q = frame (zone (frames m)) q"
    "zone_free (zone (frames m)) = zone_free (zone (frames m1)) + 1"
    "cur_dir m1 = cur_dir m" "kernel_pml m1 = kernel_pml m"
    "\<And>q. frame (zone (frames m1)) q = (if same_page q p
       then map_option taken (frame (zone (frames m)) p) else frame (zone (frames m)) q)"
    by (rule alloc_frame_ok [OF e free]) (rule that)
  define m2 where "m2 = arch_mmu_copy_kernel p (zero_page p m1)"
  have fr: "frames m2 = frames m1" by (simp add: m2_def arch_mmu_copy_kernel_def zero_page_def)
  have "mem m2 p i = 0" if "i < 256" for i
    using that by (simp add: m2_def arch_mmu_copy_kernel_def zero_page_def)
  then have t: "table (mem m2) p k v = (if k = 0 then Some p else None)" if "level_index 0 v < 256" for k v
    using that by (induction k) (auto simp: Let_def split: if_splits)
  then have T: "{q. is_table {..<256} p m2 q} = {p}"
    by (auto simp: is_table_def split: if_splits) (metis user_addr lessThan_iff zero_less_numeral zero_less_power le0)
  have al: "PAGE_SIZE dvd p" using a(5) by (simp add: entry_addr_def)
  have "mmu_inv {..<256} p m2"
    using a(3,4,7) z(2) t al by (auto simp: mmu_inv_def fr free_page_def agree_def split: if_splits)
  moreover have "frame (zone (frames m)) x = frame (zone (frames m)) p" if "same_page x p" for x
    by (rule frame_same_page [OF z(1) that])
  ultimately have "since p m m2"
    using a(6,9,12) al by (simp add: since_def T fr same_page_aligned [OF al])
  with that [of p "zero_page p m1"] a(1,9) show ?thesis
    by (simp add: arch_mmu_new_dir_def m2_def [symmetric] fr)
qed

lemma given_taken:
  assumes "zone_inv z" "frame z x = Some pg" "pg_free pg"
  shows "given (taken pg) = pg"
proof -
  have "pg_refcount pg = 0" using frame_page_inv [OF assms(1,2)] assms(3) by blast
  moreover have "(pg_flags pg AND NOT PAGE_FLAG_FREE) OR PAGE_FLAG_FREE = pg_flags pg"
  proof (rule bit_word_eqI)
    fix n assume "n < LENGTH(8)"
    moreover have "bit (pg_flags pg) 0"
      using assms(3) bit_mask_test [of "pg_flags pg" 0] by (simp add: pg_free_def PAGE_FLAG_FREE_def)
    ultimately show "bit ((pg_flags pg AND NOT PAGE_FLAG_FREE) OR PAGE_FLAG_FREE) n = bit (pg_flags pg) n"
      by (cases "n = 0") (simp_all add: bit_simps PAGE_FLAG_FREE_def)
  qed
  ultimately show ?thesis by (simp add: given_def taken_def)
qed

lemma since_destroy:
  assumes z: "zone_inv (zone (frames m0))" and s: "since dir m0 m"
  obtains m' where "arch_mmu_destroy dir m = Done m'" "zone_inv (zone (frames m'))"
    "frame (zone (frames m')) = frame (zone (frames m0))"
    "zone_free (zone (frames m')) = zone_free (zone (frames m0))"
proof -
  have "held_once m q" if "is_table {..<256} dir m q" for q
    using that s by (auto simp: since_def held_once_def align_self free_page_def taken_def)
  then obtain m' where m': "arch_mmu_destroy dir m = Done m'" "freed (user_tables dir m) m m'"
    using destroy_ok [OF since_inv [OF s]] by blast
  have "frame (zone (frames m')) x = frame (zone (frames m0)) x" for x
  proof (cases "PAGE_ALIGN_DOWN x \<in> user_tables dir m")
    case True
    then have "free_page m0 (PAGE_ALIGN_DOWN x)" using s by (simp add: since_def)
    then obtain pg where "frame (zone (frames m0)) x = Some pg" "pg_free pg"
      using frame_same_page [OF z, of "PAGE_ALIGN_DOWN x" x] by (auto simp: free_page_def same_page_align)
    with True s m'(2) given_taken [OF z] show ?thesis by (simp add: freed_def since_def)
  next
    case False
    with s m'(2) show ?thesis by (simp add: freed_def since_def)
  qed
  then have "frame (zone (frames m')) = frame (zone (frames m0))" by (rule ext)
  moreover have "zone_free (zone (frames m')) = zone_free (zone (frames m0))"
    using m'(2) s by (simp add: freed_def since_def)
  ultimately show ?thesis by (rule that [OF m'(1) freed_zone [OF m'(2)]])
qed

text \<open>
  C3. A page directory that is created, used for any sequence of mappings, unmappings and flag
  changes in the user half and then destroyed leaves the allocator as it was: every page
  descriptor and the number of free frames are the same as before. No step stops the machine when
  three frames per operation and one for the directory are free.
\<close>

theorem directory_lifecycle:
  assumes "zone_inv (zone (frames m))" "\<forall>(a, n) \<in> set (placed (zone (frames m))). a + n \<le> 2 ^ 52"
    "\<forall>op \<in> set ops. user_op op" "3 * length ops < zone_free (zone (frames m))"
  shows "\<exists>dir m1 m'. arch_mmu_new_dir m = Done (dir, m1) \<and>
    obind (ofold (mmu_exec dir) ops (arch_mmu_copy_kernel dir m1)) (arch_mmu_destroy dir) = Done m' \<and>
    zone_inv (zone (frames m')) \<and> frame (zone (frames m')) = frame (zone (frames m)) \<and>
    zone_free (zone (frames m')) = zone_free (zone (frames m))"
proof -
  have "0 < zone_free (zone (frames m))" using assms(4) by simp
  then obtain dir m1 where m1: "arch_mmu_new_dir m = Done (dir, m1)"
    "since dir m (arch_mmu_copy_kernel dir m1)"
    "zone_free (zone (frames m)) = zone_free (zone (frames (arch_mmu_copy_kernel dir m1))) + 1"
    by (rule new_dir_ok [OF assms(1,2)]) (rule that)
  from execs_ok [OF m1(2) assms(3)] assms(4) m1(3) obtain m2 where
    m2: "ofold (mmu_exec dir) ops (arch_mmu_copy_kernel dir m1) = Done m2" "since dir m m2" by auto
  obtain m' where "arch_mmu_destroy dir m2 = Done m'" "zone_inv (zone (frames m'))"
    "frame (zone (frames m')) = frame (zone (frames m))"
    "zone_free (zone (frames m')) = zone_free (zone (frames m))"
    by (rule since_destroy [OF assms(1) m2(2)]) (rule that)
  with m1(1) m2(1) show ?thesis by simp
qed

theorem directory_lifecycle_witness:
  "\<exists>dir m1 m'. arch_mmu_new_dir example_machine = Done (dir, m1) \<and>
    obind (ofold (mmu_exec dir) [Map 0x400000 0x7000 7] (arch_mmu_copy_kernel dir m1))
      (arch_mmu_destroy dir) = Done m' \<and> zone_free (zone (frames m')) = 4"
proof -
  have "zone_inv (zone (frames example_machine))" by (rule mmu_invD(1) [OF example_machine_facts(1)])
  moreover have "\<forall>(a, n) \<in> set (placed (zone (frames example_machine))). a + n \<le> 2 ^ 52"
    by (simp add: example_machine_def placed_def)
  ultimately show ?thesis
    using directory_lifecycle [of example_machine "[Map 0x400000 0x7000 7]"] example_machine_facts(2)
    by (simp del: ofold.simps mmu_exec.simps) blast
qed

end
