(* ===== verification/Mmu_Hhdm.thy ===== *)
theory Mmu_Hhdm
  imports Mmu
begin

text \<open>
  The direct map of physical memory (the \<open>HHDM\<close> region) that \<open>arch_mmu_init\<close> builds out of 2 MiB
  pages, and the translation that the processor performs. The theory shows that the direct map
  translates every address of the region to its physical address, and what \<open>arch_mmu_unmap\<close> does
  with an address of the region, which has no page table.
\<close>

section \<open>Definitions\<close>

definition MMU_KERNEL_REGION :: nat where "MMU_KERNEL_REGION = 0xFFFFF00000000000"

text \<open>
  \<open>pdpt\<close> is the physical address of \<^verbatim>\<open>__mmu_hhdm_pdpt\<close> and \<open>pd\<close> that of \<^verbatim>\<open>__mmu_hhdm_pd\<close>, 128 tables one
  after another. Loading the directory register and the feature registers is left out.
\<close>

definition hhdm_entry :: "nat \<Rightarrow> nat \<Rightarrow> u64" where
  "hhdm_entry i j = word_of_nat (i * 2 ^ 30 + j * 2 ^ 21)
     OR MMU_PAGE_FLAG_SIZE OR MMU_PAGE_FLAG_RW OR MMU_PAGE_FLAG_PRESENT"

definition dir_entry :: "nat \<Rightarrow> u64" where
  "dir_entry t = word_of_nat t OR MMU_PAGE_FLAG_RW OR MMU_PAGE_FLAG_PRESENT"

definition hhdm_round :: "nat \<Rightarrow> nat \<Rightarrow> nat \<Rightarrow> machine \<Rightarrow> machine" where
  "hhdm_round pdpt pd i m =
     fold (\<lambda>j. set_entry (pd + i * 4096) j (hhdm_entry i j)) [0..<512]
       (set_entry pdpt i (dir_entry (pd + i * 4096)) m)"

definition arch_mmu_init :: "nat \<Rightarrow> nat \<Rightarrow> machine \<Rightarrow> machine" where
  "arch_mmu_init pdpt pd m =
     (let m1 = fold (hhdm_round pdpt pd) [0..<128] m;
          m2 = set_entry (kernel_pml m1) (MMU_PML4_INDEX MMU_HHDM_REGION) (dir_entry pdpt) m1
      in set_entry (kernel_pml m2) (MMU_PML4_INDEX MMU_KERNEL_REGION) (dir_entry pdpt) m2)"

text \<open>
  The processor's walk: four levels of tables, where an entry of the third level with the size
  bit maps 2 MiB.
\<close>

definition hw_translate :: "(nat \<Rightarrow> nat \<Rightarrow> u64) \<Rightarrow> nat \<Rightarrow> nat \<Rightarrow> nat option" where
  "hw_translate pm cr3 v =
     (case table pm cr3 2 v of None \<Rightarrow> None
      | Some pd \<Rightarrow>
          let e = pm pd (level_index 2 v) in
          if e AND MMU_PAGE_FLAG_PRESENT = 0 then None
          else if e AND MMU_PAGE_FLAG_SIZE \<noteq> 0 then Some (unat (MMU_PAGE_ADDR e) + v mod 2 ^ 21)
          else
            let l = pm (unat (MMU_PAGE_ADDR e)) (level_index 3 v) in
            if l AND MMU_PAGE_FLAG_PRESENT = 0 then None
            else Some (unat (MMU_PAGE_ADDR l) + v mod 2 ^ 12))"

section \<open>The direct map\<close>

lemma set_entry_sel [simp]:
  "mem (set_entry t i e m) = (mem m)(t := (mem m t)(i := e))"
  "frames (set_entry t i e m) = frames m" "kernel_pml (set_entry t i e m) = kernel_pml m"
  by (simp_all add: set_entry_def)

lemma fold_entries [simp]:
  "mem (fold (\<lambda>j. set_entry t j (f j)) [0..<n] m) =
     (mem m)(t := (\<lambda>j. if j < n then f j else mem m t j))"
  "frames (fold (\<lambda>j. set_entry t j (f j)) [0..<n] m) = frames m"
  "kernel_pml (fold (\<lambda>j. set_entry t j (f j)) [0..<n] m) = kernel_pml m"
  by (induction n) (auto simp: fun_eq_iff)

text \<open>The static tables: pages apart from each other.\<close>

definition hhdm_tables :: "nat \<Rightarrow> nat \<Rightarrow> nat \<Rightarrow> bool" where
  "hhdm_tables pml pdpt pd \<longleftrightarrow> entry_addr pdpt \<and> PAGE_SIZE dvd pd \<and> pd + 128 * 4096 \<le> 2 ^ 52 \<and>
     pml \<noteq> pdpt \<and> \<not> (pd \<le> pdpt \<and> pdpt < pd + 128 * 4096) \<and> \<not> (pd \<le> pml \<and> pml < pd + 128 * 4096)"

lemma hhdm_rounds:
  assumes t: "hhdm_tables pml pdpt pd"
  shows "n \<le> 128 \<Longrightarrow> kernel_pml (fold (hhdm_round pdpt pd) [0..<n] m) = kernel_pml m \<and>
    frames (fold (hhdm_round pdpt pd) [0..<n] m) = frames m \<and>
    mem (fold (hhdm_round pdpt pd) [0..<n] m) pml = mem m pml \<and>
    (\<forall>i < n. mem (fold (hhdm_round pdpt pd) [0..<n] m) pdpt i = dir_entry (pd + i * 4096)) \<and>
    (\<forall>i < n. \<forall>j < 512. mem (fold (hhdm_round pdpt pd) [0..<n] m) (pd + i * 4096) j = hhdm_entry i j)"
proof (induction n)
  case 0
  then show ?case by simp
next
  case (Suc n)
  define m1 where "m1 = fold (hhdm_round pdpt pd) [0..<n] m"
  have f: "fold (hhdm_round pdpt pd) [0..<Suc n] m = hhdm_round pdpt pd n m1" by (simp add: m1_def)
  have d: "pdpt \<noteq> pd + i * 4096" "pml \<noteq> pd + i * 4096" "pml \<noteq> pdpt" if "i < Suc n" for i
    using t Suc.prems that by (auto simp: hhdm_tables_def)
  show ?case using Suc d unfolding f m1_def [symmetric]
    by (auto simp: hhdm_round_def less_Suc_eq)
qed

lemma to_hhdm: "p < 2 ^ 39 \<Longrightarrow> TO_HHDM p = 33554431 * 2 ^ 39 + p"
proof -
  assume p: "p < 2 ^ 39"
  have "\<not> bit p n \<or> \<not> bit (33554431 * 2 ^ 39 :: nat) n" for n
  proof (cases "n < 39")
    case True
    have e: "(33554431 * 2 ^ 39 :: nat) = push_bit 39 33554431" by (simp only: push_bit_eq_mult)
    show ?thesis unfolding e bit_push_bit_iff using True by linarith
  next
    case False
    then have "(2::nat) ^ 39 \<le> 2 ^ n" by (intro power_increasing) auto
    with p have "p < 2 ^ n" by linarith
    then show ?thesis by (simp add: bit_iff_odd)
  qed
  then have "p + 33554431 * 2 ^ 39 = p OR (33554431 * 2 ^ 39)" by (rule disjunctive_add)
  then show ?thesis by (simp add: TO_HHDM_def MMU_HHDM_REGION_def)
qed

lemma hhdm_indices:
  assumes "p < 2 ^ 37"
  shows "level_index 0 (TO_HHDM p) = 511" "level_index 1 (TO_HHDM p) = p div 2 ^ 30"
    "level_index 2 (TO_HHDM p) = p div 2 ^ 21 mod 512" "level_index 3 (TO_HHDM p) = p div 2 ^ 12 mod 512"
    "TO_HHDM p mod 2 ^ 21 = p mod 2 ^ 21"
proof -
  have t: "TO_HHDM p = 33554431 * 2 ^ 39 + p" using assms by (intro to_hhdm) simp
  have d: "(33554431 * 2 ^ 39 + p) div 2 ^ 39 = 33554431 + p div 2 ^ 39"
    "(33554431 * 2 ^ 39 + p) div 2 ^ 30 = 33554431 * 512 + p div 2 ^ 30"
    "(33554431 * 2 ^ 39 + p) div 2 ^ 21 = 33554431 * 512 * 512 + p div 2 ^ 21"
    "(33554431 * 2 ^ 39 + p) div 2 ^ 12 = 33554431 * 512 * 512 * 512 + p div 2 ^ 12" by simp_all
  have l: "level_index 0 v = v div 2 ^ 39 mod 512" "level_index 1 v = v div 2 ^ 30 mod 512"
    "level_index 2 v = v div 2 ^ 21 mod 512" "level_index 3 v = v div 2 ^ 12 mod 512" for v
    by (simp_all add: level_index_def)
  have m: "(c * 512 + x) mod 512 = x mod 512" for c x :: nat by simp
  show "level_index 0 (TO_HHDM p) = 511" unfolding l t d using assms by simp
  have "p div 2 ^ 30 < 2 ^ 7" using assms by (simp add: less_mult_imp_div_less)
  then show "level_index 1 (TO_HHDM p) = p div 2 ^ 30" unfolding l t d m by simp
  show "level_index 2 (TO_HHDM p) = p div 2 ^ 21 mod 512" unfolding l t d m by (rule refl)
  show "level_index 3 (TO_HHDM p) = p div 2 ^ 12 mod 512" unfolding l t d m by (rule refl)
  have "(2::nat) ^ 39 = 2 ^ 18 * 2 ^ 21" by simp
  then show "TO_HHDM p mod 2 ^ 21 = p mod 2 ^ 21"
    unfolding t by (metis mod_mult_self3 mult.assoc)
qed

lemma hhdm_entry_facts:
  assumes "i < 128" "j < 512"
  shows "unat (MMU_PAGE_ADDR (hhdm_entry i j)) = i * 2 ^ 30 + j * 2 ^ 21"
    "hhdm_entry i j AND MMU_PAGE_FLAG_PRESENT \<noteq> 0" "hhdm_entry i j AND MMU_PAGE_FLAG_SIZE \<noteq> 0"
proof -
  have "PAGE_SIZE dvd i * 2 ^ 30 + j * 2 ^ 21"
    by (intro dvd_add dvd_mult) (simp_all add: PAGE_SIZE_def)
  moreover have "i * 2 ^ 30 + j * 2 ^ 21 < 2 ^ 52" using assms by simp
  ultimately have e: "entry_addr (i * 2 ^ 30 + j * 2 ^ 21)" by (simp add: entry_addr_def)
  show "unat (MMU_PAGE_ADDR (hhdm_entry i j)) = i * 2 ^ 30 + j * 2 ^ 21"
    unfolding hhdm_entry_def PAGE_ADDR_or addr_of_nat [OF e] PAGE_ADDR_flags or.right_neutral
    by (rule unat_entry_addr [OF e])
  show "hhdm_entry i j AND MMU_PAGE_FLAG_PRESENT \<noteq> 0" "hhdm_entry i j AND MMU_PAGE_FLAG_SIZE \<noteq> 0"
    by (simp_all add: page_flag_test hhdm_entry_def bit_or_iff page_flag_bit)
qed

lemma dir_entry_facts:
  assumes "entry_addr p"
  shows "unat (MMU_PAGE_ADDR (dir_entry p)) = p" "dir_entry p AND MMU_PAGE_FLAG_PRESENT \<noteq> 0"
  using assms
  by (simp_all add: dir_entry_def PAGE_ADDR_or addr_of_nat unat_entry_addr page_flag_test bit_or_iff page_flag_bit)

text \<open>The walk for an address of the direct map reaches the entry of its 2 MiB block.\<close>

lemma hhdm_walk:
  assumes t: "hhdm_tables (kernel_pml m) pdpt pd" and p: "p < 2 ^ 37"
  defines "m' \<equiv> arch_mmu_init pdpt pd m"
  shows "table (mem m') (kernel_pml m) 2 (TO_HHDM p) = Some (pd + p div 2 ^ 30 * 4096)"
    "mem m' (pd + p div 2 ^ 30 * 4096) (level_index 2 (TO_HHDM p)) =
       hhdm_entry (p div 2 ^ 30) (p div 2 ^ 21 mod 512)"
proof -
  define i where "i = p div 2 ^ 30"
  have i: "i < 128" using p by (simp add: i_def less_mult_imp_div_less)
  define m1 where "m1 = fold (hhdm_round pdpt pd) [0..<128] m"
  have r: "kernel_pml m1 = kernel_pml m" "mem m1 pdpt i = dir_entry (pd + i * 4096)"
    "\<And>j. j < 512 \<Longrightarrow> mem m1 (pd + i * 4096) j = hhdm_entry i j"
    using hhdm_rounds [OF t order_refl, of m] i unfolding m1_def [symmetric] by blast+
  have ix: "MMU_PML4_INDEX MMU_HHDM_REGION = 511" "MMU_PML4_INDEX MMU_KERNEL_REGION = 480"
    by (simp_all add: MMU_PML4_INDEX_def MMU_HHDM_REGION_def MMU_KERNEL_REGION_def)
  have d: "kernel_pml m \<noteq> pdpt" "kernel_pml m \<noteq> pd + i * 4096"
    using t i by (auto simp: hhdm_tables_def)
  have e: "entry_addr (pd + i * 4096)" "entry_addr pdpt"
    using t i by (auto simp: hhdm_tables_def entry_addr_def PAGE_SIZE_def)
  have m': "mem m' = (mem m1)(kernel_pml m := (mem m1 (kernel_pml m))(511 := dir_entry pdpt, 480 := dir_entry pdpt))"
    unfolding m'_def arch_mmu_init_def m1_def [symmetric] Let_def ix by (simp add: r(1))
  show "mem m' (pd + p div 2 ^ 30 * 4096) (level_index 2 (TO_HHDM p)) =
      hhdm_entry (p div 2 ^ 30) (p div 2 ^ 21 mod 512)"
    unfolding i_def [symmetric] hhdm_indices(3) [OF p] m' using d r(3) by simp
  have "table (mem m') (kernel_pml m) 1 (TO_HHDM p) = Some pdpt"
    using dir_entry_facts [OF e(2)] hhdm_indices(1) [OF p] by (simp add: m')
  moreover have "mem m' pdpt (level_index 1 (TO_HHDM p)) = dir_entry (pd + i * 4096)"
    unfolding hhdm_indices(2) [OF p] i_def [symmetric] m' using d r(2) by simp
  ultimately show "table (mem m') (kernel_pml m) 2 (TO_HHDM p) = Some (pd + p div 2 ^ 30 * 4096)"
    unfolding i_def [symmetric] using dir_entry_facts [OF e(1)]
    by (simp add: numeral_2_eq_2)
qed

lemma block_split: "p div 2 ^ 21 * 2 ^ 21 = p div 2 ^ 30 * 2 ^ 30 + p div 2 ^ 21 mod 512 * (2 ^ 21 :: nat)"
proof -
  define q where "q = p div 2 ^ 21"
  have "p div 2 ^ 30 = q div 512" unfolding q_def by (simp flip: div_mult2_eq)
  moreover have "(x * 512 + y) * 2 ^ 21 = x * 2 ^ 30 + y * (2 ^ 21 :: nat)" for x y
    by (simp add: add_mult_distrib)
  from this [of "q div 512" "q mod 512"] have "q * 2 ^ 21 = q div 512 * 2 ^ 30 + q mod 512 * 2 ^ 21"
    unfolding div_mult_mod_eq .
  ultimately show ?thesis unfolding q_def [symmetric] by (simp only:)
qed

section \<open>Properties\<close>

text \<open>
  C25. After \<open>arch_mmu_init\<close> the processor translates every address \<open>TO_HHDM p\<close> of the direct map to the
  physical address \<open>p\<close>, for the first 128 GiB of physical memory.
\<close>

theorem hhdm_direct_map:
  assumes "hhdm_tables (kernel_pml m) pdpt pd" "p < 2 ^ 37"
  shows "hw_translate (mem (arch_mmu_init pdpt pd m)) (kernel_pml m) (TO_HHDM p) = Some p"
proof -
  let ?i = "p div 2 ^ 30" and ?j = "p div 2 ^ 21 mod 512"
  have b: "?i < 128" "?j < 512" using assms(2) by (simp_all add: less_mult_imp_div_less)
  have "p = ?i * 2 ^ 30 + ?j * 2 ^ 21 + p mod 2 ^ 21"
    using div_mult_mod_eq [of p "2 ^ 21"] unfolding block_split by (rule sym)
  then show ?thesis
    using hhdm_walk [OF assms] hhdm_entry_facts [OF b] hhdm_indices(5) [OF assms(2)]
    by (simp add: hw_translate_def Let_def)
qed

theorem hhdm_direct_map_witness:
  "hw_translate (mem (arch_mmu_init 0x2000 0x10000 example_machine)) 0 (TO_HHDM 0x7654321) = Some 0x7654321"
proof -
  have "hhdm_tables (kernel_pml example_machine) 0x2000 0x10000"
    by (simp add: hhdm_tables_def example_machine_def entry_addr_def PAGE_SIZE_def)
  from hhdm_direct_map [OF this, of "0x7654321"] show ?thesis by (simp add: example_machine_def)
qed

text \<open>
  C26. The direct map consists of 2 MiB pages without page tables, which \<open>arch_mmu_unmap\<close> does not
  take into account: given the address of a page in the direct map, as \<open>vmm_destroyRange\<close> gives
  it, it takes the first page of the 2 MiB block for a page table and overwrites one of its words
  with 0, and the page stays mapped.
\<close>

theorem unmap_in_hhdm_overwrites:
  assumes "hhdm_tables (kernel_pml m) pdpt pd" "p < 2 ^ 37"
  defines "m1 \<equiv> arch_mmu_init pdpt pd m"
  shows "arch_mmu_unmap (Some (kernel_pml m)) (TO_HHDM p) m1 =
    Done (set_entry (p div 2 ^ 21 * 2 ^ 21) (p div 2 ^ 12 mod 512) 0 m1)"
proof -
  let ?i = "p div 2 ^ 30" and ?j = "p div 2 ^ 21 mod 512"
  have b: "?i < 128" "?j < 512" using assms(2) by (simp_all add: less_mult_imp_div_less)
  have "table (mem m1) (kernel_pml m) 3 (TO_HHDM p) = Some (p div 2 ^ 21 * 2 ^ 21)"
    using hhdm_walk [OF assms(1,2)] hhdm_entry_facts [OF b]
    unfolding m1_def [symmetric] block_split by (simp add: numeral_3_eq_3 numeral_2_eq_2)
  moreover have "MMU_IS_CANONICAL (TO_HHDM p)"
  proof -
    have "TO_HHDM p = 33554431 * 2 ^ 39 + p" using assms(2) by (intro to_hhdm) simp
    then have "TO_HHDM p div 2 ^ 47 = 131071" using assms(2) by simp
    then show ?thesis by (simp add: MMU_IS_CANONICAL_def)
  qed
  ultimately show ?thesis
    by (simp add: arch_mmu_unmap_def get_page_read arch_mmu_dir_def hhdm_indices(4) [OF assms(2)])
qed

theorem unmap_in_hhdm_overwrites_witness:
  "arch_mmu_unmap (Some 0) (TO_HHDM 0x7654000) (arch_mmu_init 0x2000 0x10000 example_machine) =
     Done (set_entry 0x7600000 0x54 0 (arch_mmu_init 0x2000 0x10000 example_machine))"
proof -
  have "hhdm_tables (kernel_pml example_machine) 0x2000 0x10000"
    by (simp add: hhdm_tables_def example_machine_def entry_addr_def PAGE_SIZE_def)
  from unmap_in_hhdm_overwrites [OF this, of "0x7654000"] show ?thesis
    by (simp add: example_machine_def)
qed

end
