(* ===== verification/Vmm_Range.thy ===== *)
theory Vmm_Range
  imports Mmu
begin

text \<open>
  The ranges of an address space, \<^verbatim>\<open>hexahedron/mm/vmmrange.c\<close>: the search for a hole, the insertion of
  a range and the lookup. The linked list of ranges is a list in the order of its links, and a
  range is a value; the pages from which the structures are allocated are not part of the
  model. Addresses are natural numbers below \<open>2 ^ 64\<close>, and sums wrap there.

  The theory shows that a search returns the lowest hole at or above its hint, and on which
  ranges an insertion keeps the list ordered and disjoint and on which it stops the machine.
\<close>

section \<open>Definitions\<close>

text \<open>A file mapping: the file and the offset in it.\<close>

type_synonym vmm_file = "nat \<times> nat"

text \<open>
  \<open>vr_file\<close> is \<open>None\<close> until the code sets it: the memory then holds what a former range left there.
\<close>

record vmm_range =
  vr_start :: nat
  vr_end :: nat
  vr_flags :: u64
  vr_mmu :: u64
  vr_file :: "vmm_file option"

record vmm_metrics =
  anon_usage :: u64
  file_usage :: u64
  anon_resident :: u64
  file_resident :: u64
  stack :: u64

record vmm_space =
  sp_start :: nat
  sp_end :: nat
  sp_ranges :: "vmm_range list"
  sp_metrics :: vmm_metrics

definition VM_FLAG_ALLOC :: u64 where "VM_FLAG_ALLOC = 0x1"
definition VM_FLAG_FIXED :: u64 where "VM_FLAG_FIXED = 0x2"
definition VM_FLAG_FILE :: u64 where "VM_FLAG_FILE = 0x4"
definition VM_FLAG_SHARED :: u64 where "VM_FLAG_SHARED = 0x8"
definition VM_FLAG_DEVICE :: u64 where "VM_FLAG_DEVICE = 0x10"
definition VM_FLAG_FAKE_ME_NOT :: u64 where "VM_FLAG_FAKE_ME_NOT = 0x20"
definition VM_FLAG_REPLACE :: u64 where "VM_FLAG_REPLACE = 0x40"

definition RANGE_IN_RANGE :: "nat \<Rightarrow> nat \<Rightarrow> nat \<Rightarrow> nat \<Rightarrow> bool" where
  "RANGE_IN_RANGE a1 b1 a2 b2 \<longleftrightarrow> a1 \<ge> a2 \<and> b1 \<le> b2"

text \<open>\<open>PAGE_ALIGN_UP\<close> on a 64-bit value, and a 64-bit sum.\<close>

definition align_up64 :: "nat \<Rightarrow> nat" where
  "align_up64 x = PAGE_ALIGN_DOWN ((x + (PAGE_SIZE - 1)) mod 2 ^ 64)"

definition add64 :: "nat \<Rightarrow> nat \<Rightarrow> nat" where
  "add64 a b = (a + b) mod 2 ^ 64"

text \<open>The loop over the ranges and the space behind the last one; 0 means that nothing was found.\<close>

fun find_hole :: "nat \<Rightarrow> nat \<Rightarrow> vmm_range list \<Rightarrow> nat \<Rightarrow> nat" where
  "find_hole space_end sz [] cand =
     (if cand \<le> space_end \<and> sz \<le> space_end - cand then cand else 0)"
| "find_hole space_end sz (r # rs) cand =
     (if cand \<le> vr_start r \<and> sz \<le> vr_start r - cand then cand
      else find_hole space_end sz rs (if cand < vr_end r then align_up64 (vr_end r) else cand))"

definition vmm_findFree :: "vmm_space \<Rightarrow> nat \<Rightarrow> nat \<Rightarrow> nat" where
  "vmm_findFree space address sz =
     (if sz = 0 then 0
      else
        let address1 = (if address = 0 \<or> address < sp_start space then sp_start space else address)
        in find_hole (sp_end space) (align_up64 sz) (sp_ranges space) (align_up64 address1))"

text \<open>The walk over the ranges; the last range must end below the new one.\<close>

fun insert_walk :: "vmm_range \<Rightarrow> vmm_range list \<Rightarrow> vmm_range list outcome" where
  "insert_walk rg [] = Fault"
| "insert_walk rg [r] = oassert (vr_end r \<le> vr_start rg) (Done [r, rg])"
| "insert_walk rg (r # r2 # rs) =
     (if RANGE_IN_RANGE (vr_start rg) (vr_end rg) (vr_end r) (vr_start r2)
      then Done (r # rg # r2 # rs)
      else obind (insert_walk rg (r2 # rs)) (\<lambda>rs'. Done (r # rs')))"

definition vmm_insertRange :: "vmm_space \<Rightarrow> vmm_range \<Rightarrow> vmm_space outcome" where
  "vmm_insertRange space range0 =
     (let rg = range0\<lparr>vr_end := align_up64 (vr_end range0), vr_start := PAGE_ALIGN_DOWN (vr_start range0)\<rparr> in
      oassert (vr_end rg > vr_start rg) (
      oassert (RANGE_IN_RANGE (vr_start rg) (vr_end rg) (sp_start space) (sp_end space)) (
      case sp_ranges space of
        [] \<Rightarrow> Done (space\<lparr>sp_ranges := [rg]\<rparr>)
      | r # rs \<Rightarrow>
          if vr_end rg < vr_start r then Done (space\<lparr>sp_ranges := rg # r # rs\<rparr>)
          else obind (insert_walk rg (r # rs)) (\<lambda>rs'. Done (space\<lparr>sp_ranges := rs'\<rparr>)))))"

fun get_range :: "vmm_range list \<Rightarrow> nat \<Rightarrow> nat \<Rightarrow> vmm_range option" where
  "get_range [] start stop = None"
| "get_range (r # rs) start stop =
     (if RANGE_IN_RANGE start stop (vr_start r) (vr_end r) then Some r else get_range rs start stop)"

definition vmm_getRange :: "vmm_space \<Rightarrow> nat \<Rightarrow> nat \<Rightarrow> vmm_range option" where
  "vmm_getRange space start sz = get_range (sp_ranges space) start (add64 start sz)"

text \<open>A new range with its file not set.\<close>

definition vmm_createRange :: "nat \<Rightarrow> nat \<Rightarrow> u64 \<Rightarrow> u64 \<Rightarrow> vmm_range" where
  "vmm_createRange start stop vmm_flags mmu_flags =
     \<lparr>vr_start = start, vr_end = stop, vr_flags = vmm_flags, vr_mmu = mmu_flags, vr_file = None\<rparr>"

section \<open>Ordered, disjoint ranges\<close>

text \<open>The ranges of a space whose bounds are page aligned and below the top of the address space.\<close>

definition ranges_inv :: "nat \<Rightarrow> nat \<Rightarrow> vmm_range list \<Rightarrow> bool" where
  "ranges_inv lo hi rs \<longleftrightarrow> sorted_wrt (\<lambda>r s. vr_end r \<le> vr_start s) rs \<and>
     (\<forall>r \<in> set rs. lo \<le> vr_start r \<and> vr_start r < vr_end r \<and> vr_end r \<le> hi \<and>
        PAGE_SIZE dvd vr_start r \<and> PAGE_SIZE dvd vr_end r)"

definition space_inv :: "vmm_space \<Rightarrow> bool" where
  "space_inv sp \<longleftrightarrow> PAGE_SIZE dvd sp_start sp \<and> PAGE_SIZE dvd sp_end sp \<and> sp_end sp \<le> 2 ^ 64 - PAGE_SIZE \<and>
     ranges_inv (sp_start sp) (sp_end sp) (sp_ranges sp)"

text \<open>A hole: an aligned interval of the space that no range meets.\<close>

definition hole :: "nat \<Rightarrow> vmm_range list \<Rightarrow> nat \<Rightarrow> nat \<Rightarrow> bool" where
  "hole hi rs a n \<longleftrightarrow> a + n \<le> hi \<and> (\<forall>r \<in> set rs. a + n \<le> vr_start r \<or> vr_end r \<le> a)"

lemma ranges_inv_Cons:
  "ranges_inv lo hi (r # rs) \<longleftrightarrow> (\<forall>s \<in> set rs. vr_end r \<le> vr_start s) \<and>
     lo \<le> vr_start r \<and> vr_start r < vr_end r \<and> vr_end r \<le> hi \<and>
     PAGE_SIZE dvd vr_start r \<and> PAGE_SIZE dvd vr_end r \<and> ranges_inv lo hi rs"
  by (auto simp: ranges_inv_def)

lemma align_up64_aligned:
  assumes "PAGE_SIZE dvd x" "x \<le> 2 ^ 64 - PAGE_SIZE"
  shows "align_up64 x = x"
proof -
  from assms(1) obtain k where k: "x = PAGE_SIZE * k" by (elim dvdE)
  have "x + (PAGE_SIZE - 1) < 2 ^ 64" using assms(2) by (simp add: PAGE_SIZE_def)
  moreover have "PAGE_ALIGN_DOWN (x + (PAGE_SIZE - 1)) = x"
    by (simp add: PAGE_ALIGN_DOWN_def k PAGE_SIZE_def)
  ultimately show ?thesis by (simp add: align_up64_def)
qed

lemma find_hole_spec:
  assumes "ranges_inv lo hi rs" "hi \<le> 2 ^ 64 - PAGE_SIZE" "0 < n"
  shows "(\<exists>a \<ge> cand. hole hi rs a n \<and> find_hole hi n rs cand = a \<and> (\<forall>b \<ge> cand. hole hi rs b n \<longrightarrow> a \<le> b)) \<or>
    (find_hole hi n rs cand = 0 \<and> (\<forall>b \<ge> cand. \<not> hole hi rs b n))"
  using assms(1)
proof (induction rs arbitrary: cand)
  case Nil
  show ?case by (auto simp: hole_def)
next
  case (Cons r rs)
  have r: "\<forall>s \<in> set rs. vr_end r \<le> vr_start s" "vr_start r < vr_end r" "vr_end r \<le> hi"
    "PAGE_SIZE dvd vr_end r" "ranges_inv lo hi rs" using Cons.prems by (auto simp: ranges_inv_Cons)
  show ?case
  proof (cases "cand \<le> vr_start r \<and> n \<le> vr_start r - cand")
    case True
    then have "hole hi (r # rs) cand n" using r by (fastforce simp: hole_def)
    with True show ?thesis by auto
  next
    case False
    define c where "c = (if cand < vr_end r then vr_end r else cand)"
    have c: "find_hole hi n (r # rs) cand = find_hole hi n rs c"
      using False r(3) assms(2) align_up64_aligned [OF r(4)] by (auto simp: c_def)
    have "hole hi (r # rs) b n \<longleftrightarrow> c \<le> b \<and> hole hi rs b n" if "cand \<le> b" for b
      using that False r assms(3) unfolding hole_def c_def by auto
    moreover have "cand \<le> c" by (simp add: c_def)
    ultimately show ?thesis
      unfolding c using Cons.IH [OF r(5), of c] by (metis order_trans)
  qed
qed

section \<open>Insertion\<close>

definition disjoint_range :: "vmm_range \<Rightarrow> vmm_range \<Rightarrow> bool" where
  "disjoint_range r s \<longleftrightarrow> vr_end r \<le> vr_start s \<or> vr_end s \<le> vr_start r"

text \<open>The place of a range in an ordered list.\<close>

definition place :: "vmm_range \<Rightarrow> vmm_range list \<Rightarrow> vmm_range list" where
  "place rg rs = takeWhile (\<lambda>r. vr_end r \<le> vr_start rg) rs @ rg # dropWhile (\<lambda>r. vr_end r \<le> vr_start rg) rs"

lemma set_place [simp]: "set (place rg rs) = insert rg (set rs)"
proof -
  have "set (takeWhile (\<lambda>r. vr_end r \<le> vr_start rg) rs) \<union> set (dropWhile (\<lambda>r. vr_end r \<le> vr_start rg) rs) = set rs"
    by (metis set_append takeWhile_dropWhile_id)
  then show ?thesis by (auto simp: place_def)
qed

lemma place_inv:
  assumes "ranges_inv lo hi rs" "lo \<le> vr_start rg" "vr_start rg < vr_end rg" "vr_end rg \<le> hi"
    "PAGE_SIZE dvd vr_start rg" "PAGE_SIZE dvd vr_end rg" "\<forall>r \<in> set rs. disjoint_range rg r"
  shows "ranges_inv lo hi (place rg rs)"
  using assms
proof (induction rs)
  case Nil
  then show ?case by (simp add: place_def ranges_inv_def)
next
  case (Cons r rs)
  have r: "\<forall>s \<in> set rs. vr_end r \<le> vr_start s" "vr_start r < vr_end r" "ranges_inv lo hi rs"
    using Cons.prems(1) by (auto simp: ranges_inv_Cons)
  show ?case
  proof (cases "vr_end r \<le> vr_start rg")
    case True
    then have "place rg (r # rs) = r # place rg rs" by (simp add: place_def)
    then show ?thesis using Cons True by (auto simp: ranges_inv_Cons)
  next
    case False
    then have "place rg (r # rs) = rg # r # rs" by (simp add: place_def)
    moreover have "vr_end rg \<le> vr_start r" using False Cons.prems(7) by (simp add: disjoint_range_def)
    ultimately show ?thesis using Cons.prems r by (auto simp: ranges_inv_Cons)
  qed
qed

lemma insert_walk_eq:
  assumes "ranges_inv lo hi (r # rs)" "vr_start rg < vr_end rg"
  shows "insert_walk rg (r # rs) =
    (if vr_end r \<le> vr_start rg \<and> (\<forall>s \<in> set rs. disjoint_range rg s) then Done (place rg (r # rs)) else Panic)"
  using assms(1)
proof (induction rs arbitrary: r)
  case Nil
  then show ?case by (simp add: place_def oassert_def)
next
  case (Cons r2 rs)
  have r: "vr_end r \<le> vr_start r2" "ranges_inv lo hi (r2 # rs)" "vr_start r2 < vr_end r2"
    "\<forall>s \<in> set rs. vr_end r2 \<le> vr_start s" "vr_start r < vr_end r"
    using Cons.prems by (auto simp: ranges_inv_Cons)
  have far: "disjoint_range rg s" if "s \<in> set rs" "vr_end rg \<le> vr_start r2" for s
    using that r by (auto simp: disjoint_range_def)
  consider (here) "vr_end r \<le> vr_start rg" "vr_end rg \<le> vr_start r2"
    | (later) "vr_end r2 \<le> vr_start rg" | (bad) "vr_end r > vr_start rg" 
    | (mid) "vr_end r \<le> vr_start rg" "vr_end rg > vr_start r2" "vr_end r2 > vr_start rg" by linarith
  then show ?case
  proof cases
    case here
    then show ?thesis
      using r far assms(2) by (auto simp: RANGE_IN_RANGE_def place_def disjoint_range_def)
  next
    case later
    then have "\<not> RANGE_IN_RANGE (vr_start rg) (vr_end rg) (vr_end r) (vr_start r2)"
      using r assms(2) by (auto simp: RANGE_IN_RANGE_def)
    with later r show ?thesis
      by (auto simp: Cons.IH [OF r(2)] place_def disjoint_range_def)
  next
    case bad
    then show ?thesis using r by (simp add: Cons.IH [OF r(2)] RANGE_IN_RANGE_def)
  next
    case mid
    then show ?thesis
      using r by (auto simp: Cons.IH [OF r(2)] RANGE_IN_RANGE_def disjoint_range_def)
  qed
qed

text \<open>An aligned, nonempty range inside the space.\<close>

definition fits :: "vmm_space \<Rightarrow> vmm_range \<Rightarrow> bool" where
  "fits sp rg \<longleftrightarrow> sp_start sp \<le> vr_start rg \<and> vr_start rg < vr_end rg \<and> vr_end rg \<le> sp_end sp \<and>
     PAGE_SIZE dvd vr_start rg \<and> PAGE_SIZE dvd vr_end rg"

lemma insertRange_eq:
  assumes inv: "space_inv sp" and rg: "fits sp rg"
  shows "vmm_insertRange sp rg =
    (if (\<forall>r \<in> set (sp_ranges sp). disjoint_range rg r) \<and>
        (sp_ranges sp \<noteq> [] \<longrightarrow> vr_end rg \<noteq> vr_start (hd (sp_ranges sp)))
     then Done (sp\<lparr>sp_ranges := place rg (sp_ranges sp)\<rparr>) else Panic)"
proof -
  have e: "align_up64 (vr_end rg) = vr_end rg" "PAGE_ALIGN_DOWN (vr_start rg) = vr_start rg"
    using inv rg by (auto simp: space_inv_def fits_def align_self intro!: align_up64_aligned)
  have x: "rg\<lparr>vr_end := vr_end rg, vr_start := vr_start rg\<rparr> = rg" by simp
  have "vmm_insertRange sp rg = (case sp_ranges sp of
        [] \<Rightarrow> Done (sp\<lparr>sp_ranges := [rg]\<rparr>)
      | r # rs \<Rightarrow>
          if vr_end rg < vr_start r then Done (sp\<lparr>sp_ranges := rg # r # rs\<rparr>)
          else obind (insert_walk rg (r # rs)) (\<lambda>rs'. Done (sp\<lparr>sp_ranges := rs'\<rparr>)))"
    using rg unfolding vmm_insertRange_def Let_def e x by (simp add: fits_def RANGE_IN_RANGE_def)
  moreover have "\<dots> = (if (\<forall>r \<in> set (sp_ranges sp). disjoint_range rg r) \<and>
        (sp_ranges sp \<noteq> [] \<longrightarrow> vr_end rg \<noteq> vr_start (hd (sp_ranges sp)))
     then Done (sp\<lparr>sp_ranges := place rg (sp_ranges sp)\<rparr>) else Panic)"
  proof (cases "sp_ranges sp")
    case Nil
    then show ?thesis by (simp add: place_def)
  next
    case (Cons r rs)
    have ri: "ranges_inv (sp_start sp) (sp_end sp) (r # rs)" using inv Cons by (simp add: space_inv_def)
    then have r: "\<forall>s \<in> set rs. vr_end r \<le> vr_start s" "vr_start r < vr_end r" by (auto simp: ranges_inv_Cons)
    have lt: "vr_start rg < vr_end rg" using rg by (simp add: fits_def)
    show ?thesis
    proof (cases "vr_end rg < vr_start r")
      case True
      then have "disjoint_range rg s" if "s \<in> set (r # rs)" for s
        using that r by (auto simp: disjoint_range_def)
      with True Cons r lt show ?thesis by (auto simp: place_def)
    next
      case False
      with Cons r lt show ?thesis
        by (auto simp: insert_walk_eq [OF ri lt] disjoint_range_def)
    qed
  qed
  ultimately show ?thesis by simp
qed

lemma inserted_inv:
  assumes "space_inv sp" "fits sp rg" "\<forall>r \<in> set (sp_ranges sp). disjoint_range rg r"
  shows "space_inv (sp\<lparr>sp_ranges := place rg (sp_ranges sp)\<rparr>)"
  using assms place_inv [of "sp_start sp" "sp_end sp" "sp_ranges sp" rg]
  by (simp add: space_inv_def fits_def)

section \<open>Properties\<close>


definition example_space :: vmm_space where
  "example_space = \<lparr>sp_start = 0, sp_end = 0x800000000000,
     sp_ranges = [\<lparr>vr_start = 0x400000, vr_end = 0x402000, vr_flags = 1, vr_mmu = 7, vr_file = None\<rparr>,
       \<lparr>vr_start = 0x403000, vr_end = 0x404000, vr_flags = 1, vr_mmu = 5, vr_file = None\<rparr>],
     sp_metrics = \<lparr>anon_usage = 0x3000, file_usage = 0, anon_resident = 0, file_resident = 0, stack = 0\<rparr>\<rparr>"

lemma example_space_inv: "space_inv example_space"
  by (simp add: space_inv_def ranges_inv_def example_space_def PAGE_SIZE_def)


text \<open>
  C28. The insertion of a range inside the space returns exactly when the range meets no other and
  does not end where the first range begins; then the ranges stay ordered, aligned and disjoint
  and are the old ones and the new one. In the excluded case, a hole that the search for free
  space returns, it stops the machine.
\<close>

theorem vmm_insertRange_effect:
  assumes "space_inv sp" "fits sp rg"
  shows "if (\<forall>r \<in> set (sp_ranges sp). disjoint_range rg r) \<and>
        (sp_ranges sp \<noteq> [] \<longrightarrow> vr_end rg \<noteq> vr_start (hd (sp_ranges sp)))
    then \<exists>sp'. vmm_insertRange sp rg = Done sp' \<and> space_inv sp' \<and>
      set (sp_ranges sp') = insert rg (set (sp_ranges sp)) \<and> sp_metrics sp' = sp_metrics sp
    else vmm_insertRange sp rg = Panic"
  using insertRange_eq [OF assms] inserted_inv [OF assms] by auto

theorem vmm_insertRange_effect_witness:
  "(\<exists>sp'. vmm_insertRange example_space (vmm_createRange 0x402000 0x403000 1 7) = Done sp' \<and> space_inv sp') \<and>
   vmm_insertRange example_space (vmm_createRange 0x3FF000 0x400000 1 7) = Panic"
proof -
  have f: "fits example_space (vmm_createRange 0x402000 0x403000 1 7)"
    "fits example_space (vmm_createRange 0x3FF000 0x400000 1 7)"
    by (simp_all add: fits_def example_space_def vmm_createRange_def PAGE_SIZE_def)
  show ?thesis
    using vmm_insertRange_effect [OF example_space_inv f(1)] vmm_insertRange_effect [OF example_space_inv f(2)]
    by (auto simp: example_space_def vmm_createRange_def disjoint_range_def split: if_splits)
qed

end
