(* ===== verification/Vmm.thy ===== *)
theory Vmm
  imports Vmm_Range
begin

text \<open>
  The virtual memory manager, \<^verbatim>\<open>hexahedron/mm/vmm.c\<close> and the freeing part of \<^verbatim>\<open>vmmrange.c\<close>: changing and
  freeing parts of an address space, mapping, unmapping and the validation of user pointers. Each
  operation holds the mutex of the space and is one step.
\<close>

section \<open>Definitions\<close>

definition MMU_KERNELSPACE_START :: nat where "MMU_KERNELSPACE_START = 0xFFFFF00000000000"
definition MMU_KERNELSPACE_END :: nat where "MMU_KERNELSPACE_END = 0xFFFFFFFFFFFFF000"
definition MMU_USERSPACE_START :: nat where "MMU_USERSPACE_START = 0x0000000000000000"
definition MMU_USERSPACE_END :: nat where "MMU_USERSPACE_END = 0x0000800000000000"

definition VMM_PTR_USER :: u32 where "VMM_PTR_USER = 0x01"
definition VMM_PTR_STRICT :: u32 where "VMM_PTR_STRICT = 0x02"

datatype vm_op = VM_OP_SET_FLAGS | VM_OP_FREE

text \<open>
  What the operations on one space change besides its ranges: the machine, the reference counts of
  files, and the metrics of the space.
\<close>

record vctx =
  c_mach :: machine
  c_files :: "nat \<Rightarrow> int"
  c_metrics :: vmm_metrics

text \<open>The pages of the loop \<^verbatim>\<open>for (i = a; i < b; i += PAGE_SIZE)\<close>.\<close>

definition page_addrs :: "nat \<Rightarrow> nat \<Rightarrow> nat list" where
  "page_addrs a b = map (\<lambda>k. a + k * PAGE_SIZE) [0..<(b - a + (PAGE_SIZE - 1)) div PAGE_SIZE]"

abbreviation has_flag :: "vmm_range \<Rightarrow> u64 \<Rightarrow> bool" where
  "has_flag r f \<equiv> vr_flags r AND f \<noteq> 0"

definition free_backing :: "vmm_range \<Rightarrow> nat \<Rightarrow> vctx \<Rightarrow> vctx outcome" where
  "free_backing r i c =
     (if has_flag r VM_FLAG_FILE then
        Done (c\<lparr>c_metrics := (c_metrics c)\<lparr>file_resident := file_resident (c_metrics c) - 4096,
                                          file_usage := file_usage (c_metrics c) - 4096\<rparr>\<rparr>)
      else if has_flag r VM_FLAG_DEVICE then Done c
      else if has_flag r VM_FLAG_ALLOC then
        let c1 = c\<lparr>c_metrics := (c_metrics c)\<lparr>anon_usage := anon_usage (c_metrics c) - 4096\<rparr>\<rparr> in
        obind (arch_mmu_physical None i (c_mach c1)) (\<lambda>pg.
        if pg \<noteq> 0 then
          obind (free_frame pg (c_mach c1)) (\<lambda>m.
          Done (c1\<lparr>c_metrics := (c_metrics c1)\<lparr>anon_resident := anon_resident (c_metrics c1) - 4096\<rparr>,
                   c_mach := m\<rparr>))
        else Done c1)
      else Done c)"

definition free_one :: "vmm_range \<Rightarrow> nat \<Rightarrow> vctx \<Rightarrow> vctx outcome" where
  "free_one r i c =
     obind (free_backing r i c) (\<lambda>c1.
     obind (arch_mmu_unmap None i (c_mach c1)) (\<lambda>m. Done (c1\<lparr>c_mach := m\<rparr>)))"

definition vmm_freePages :: "vmm_range \<Rightarrow> nat \<Rightarrow> nat \<Rightarrow> vctx \<Rightarrow> vctx outcome" where
  "vmm_freePages r offset npages =
     ofold (free_one r) (page_addrs (vr_start r + offset) (vr_start r + offset + npages * PAGE_SIZE))"

text \<open>A reference to a file that is not set is a wild pointer.\<close>

definition ref_file :: "int \<Rightarrow> vmm_range \<Rightarrow> vctx \<Rightarrow> vctx outcome" where
  "ref_file d r c = (case vr_file r of None \<Rightarrow> Fault
     | Some (node, off) \<Rightarrow> Done (c\<lparr>c_files := (c_files c)(node := c_files c node + d)\<rparr>))"

text \<open>
  \<open>vmm_destroyRange\<close> without the unlinking, which the callers below do on the list, and without
  the pool of range structures.
\<close>

definition vmm_destroyRange :: "vmm_range \<Rightarrow> vctx \<Rightarrow> vctx outcome" where
  "vmm_destroyRange r c =
     obind (vmm_freePages r 0 ((vr_end r - vr_start r) div PAGE_SIZE) c) (\<lambda>c1.
     if has_flag r VM_FLAG_FILE then ref_file (-1) r c1 else Done c1)"

definition set_flags_pages :: "u64 \<Rightarrow> nat \<Rightarrow> nat \<Rightarrow> vctx \<Rightarrow> vctx outcome" where
  "set_flags_pages f a b =
     ofold (\<lambda>i c. obind (arch_mmu_setflags None i f (c_mach c)) (\<lambda>(r, m). Done (c\<lparr>c_mach := m\<rparr>)))
       (page_addrs a b)"

definition file_at :: "vmm_range \<Rightarrow> nat \<Rightarrow> vmm_file option" where
  "file_at r d = (if has_flag r VM_FLAG_FILE then map_option (\<lambda>(node, off). (node, off + d)) (vr_file r) else None)"

definition hold_split :: "vmm_range \<Rightarrow> vctx \<Rightarrow> vctx outcome" where
  "hold_split r c = (if has_flag r VM_FLAG_FILE then ref_file 1 r c else Done c)"

text \<open>
  The loop of \<open>__vmm_update\<close> from the range \<open>r\<close> on; \<open>lo\<close> and \<open>hi\<close> are \<open>start\<close> and \<open>end\<close>, and \<open>np\<close> is
  \<^verbatim>\<open>size / PAGE_SIZE\<close>.
\<close>

fun update_ranges ::
  "vm_op \<Rightarrow> u64 \<Rightarrow> nat \<Rightarrow> nat \<Rightarrow> nat \<Rightarrow> vmm_range list \<Rightarrow> vctx \<Rightarrow> (vmm_range list \<times> vctx) outcome" where
  "update_ranges op f lo hi np [] c = Done ([], c)"
| "update_ranges op f lo hi np (r # rs) c =
     (if \<not> vr_start r < hi then Done (r # rs, c)
      else if vr_start r \<ge> lo \<and> vr_end r \<le> hi then
        (case op of
           VM_OP_SET_FLAGS \<Rightarrow>
             obind (set_flags_pages f (vr_start r) (vr_end r) c) (\<lambda>c1.
             obind (update_ranges op f lo hi np rs c1) (\<lambda>(rs', c2). Done (r\<lparr>vr_mmu := f\<rparr> # rs', c2)))
         | VM_OP_FREE \<Rightarrow>
             obind (vmm_destroyRange r c) (\<lambda>c1. update_ranges op f lo hi np rs c1))
      else if vr_start r < lo \<and> hi < vr_end r then
        (if op = VM_OP_SET_FLAGS \<and> vr_mmu r = f then
           obind (update_ranges op f lo hi np rs c) (\<lambda>(rs', c1). Done (r # rs', c1))
         else
           let new_range = vmm_createRange hi (vr_end r) (vr_flags r) (vr_mmu r) in
           case op of
             VM_OP_FREE \<Rightarrow>
               obind (vmm_freePages r (lo - vr_start r) np c) (\<lambda>c1.
               obind (update_ranges op f lo hi np rs c1) (\<lambda>(rs', c2).
               Done (r\<lparr>vr_end := lo\<rparr> # new_range # rs', c2)))
           | VM_OP_SET_FLAGS \<Rightarrow>
               let new_range2 = vmm_createRange lo hi (vr_flags r) (vr_mmu r) in
               obind (hold_split r c) (\<lambda>c1.
               obind (hold_split r c1) (\<lambda>c2.
               obind (set_flags_pages f lo hi c2) (\<lambda>c3.
               obind (update_ranges op f lo hi np rs c3) (\<lambda>(rs', c4).
               Done (r\<lparr>vr_end := lo\<rparr> # new_range2\<lparr>vr_file := file_at r (lo - vr_start r), vr_mmu := f\<rparr>
                     # new_range\<lparr>vr_file := file_at r (hi - vr_start r)\<rparr> # rs', c4))))))
      else if vr_start r < lo \<and> vr_end r > lo \<and> vr_end r \<le> hi then
        (if op = VM_OP_SET_FLAGS \<and> vr_mmu r = f then
           obind (update_ranges op f lo hi np rs c) (\<lambda>(rs', c1). Done (r # rs', c1))
         else case op of
             VM_OP_FREE \<Rightarrow>
               obind (vmm_freePages r (lo - vr_start r) ((vr_end r - lo) div PAGE_SIZE) c) (\<lambda>c1.
               obind (update_ranges op f lo hi np rs c1) (\<lambda>(rs', c2). Done (r\<lparr>vr_end := lo\<rparr> # rs', c2)))
           | VM_OP_SET_FLAGS \<Rightarrow>
               let new_range = vmm_createRange lo hi (vr_flags r) (vr_mmu r) in
               obind (hold_split r c) (\<lambda>c1.
               obind (set_flags_pages f lo hi c1) (\<lambda>c2.
               obind (update_ranges op f lo hi np rs c2) (\<lambda>(rs', c3).
               Done (r\<lparr>vr_end := lo\<rparr> # new_range\<lparr>vr_file := file_at r (lo - vr_start r), vr_mmu := f\<rparr> # rs', c3)))))
      else if vr_start r \<ge> lo \<and> vr_start r < hi \<and> vr_end r > hi then
        (if op = VM_OP_SET_FLAGS \<and> vr_mmu r = f then
           obind (update_ranges op f lo hi np rs c) (\<lambda>(rs', c1). Done (r # rs', c1))
         else case op of
             VM_OP_FREE \<Rightarrow>
               obind (vmm_freePages r 0 ((hi - vr_start r) div PAGE_SIZE) c) (\<lambda>c1.
               obind (update_ranges op f lo hi np rs c1) (\<lambda>(rs', c2). Done (r\<lparr>vr_start := hi\<rparr> # rs', c2)))
           | VM_OP_SET_FLAGS \<Rightarrow>
               let new_range = vmm_createRange (vr_start r) hi (vr_flags r) (vr_mmu r);
                   r1 = r\<lparr>vr_start := hi,
                          vr_file := (if has_flag r VM_FLAG_FILE then file_at r (hi - vr_start r) else vr_file r)\<rparr> in
               obind (hold_split r c) (\<lambda>c1.
               obind (set_flags_pages f (vr_start r) hi c1) (\<lambda>c2.
               obind (update_ranges op f lo hi np rs c2) (\<lambda>(rs', c3).
               Done (new_range\<lparr>vr_file := file_at r 0, vr_mmu := f\<rparr> # r1 # rs', c3)))))
      else obind (update_ranges op f lo hi np rs c) (\<lambda>(rs', c1). Done (r # rs', c1)))"

text \<open>The kernel space and the space of the current context.\<close>

record vmm =
  v_mach :: machine
  v_files :: "nat \<Rightarrow> int"
  v_kernel :: vmm_space
  v_user :: vmm_space

datatype space_id = Kernel | User

fun get_space :: "space_id \<Rightarrow> vmm \<Rightarrow> vmm_space" where
  "get_space Kernel v = v_kernel v"
| "get_space User v = v_user v"

fun set_space :: "space_id \<Rightarrow> vmm_space \<Rightarrow> vmm \<Rightarrow> vmm" where
  "set_space Kernel sp v = v\<lparr>v_kernel := sp\<rparr>"
| "set_space User sp v = v\<lparr>v_user := sp\<rparr>"

definition vmm_getSpaceForAddress :: "nat \<Rightarrow> vmm \<Rightarrow> space_id option" where
  "vmm_getSpaceForAddress addr v =
     (if addr \<ge> sp_start (v_kernel v) then Some Kernel
      else if \<not> (addr \<ge> sp_start (v_user v) \<and> addr < sp_end (v_user v)) then None
      else Some User)"

definition vmm_update_space :: "space_id \<Rightarrow> nat \<Rightarrow> nat \<Rightarrow> vm_op \<Rightarrow> u64 \<Rightarrow> vmm \<Rightarrow> vmm outcome" where
  "vmm_update_space sid start sz op f v =
     oassert (start mod PAGE_SIZE = 0) (
     oassert (sz mod PAGE_SIZE = 0) (
     let sp = get_space sid v in
     obind (update_ranges op f start (add64 start sz) (sz div PAGE_SIZE) (sp_ranges sp)
       \<lparr>c_mach = v_mach v, c_files = v_files v, c_metrics = sp_metrics sp\<rparr>) (\<lambda>(rs, c).
     Done (set_space sid (sp\<lparr>sp_ranges := rs, sp_metrics := c_metrics c\<rparr>)
       (v\<lparr>v_mach := c_mach c, v_files := c_files c\<rparr>)))))"

definition page_size_up :: "nat \<Rightarrow> nat" where
  "page_size_up sz = (if sz mod 4096 \<noteq> 0 then align_up64 sz else sz)"

definition vmm_update :: "nat \<Rightarrow> nat \<Rightarrow> vm_op \<Rightarrow> u64 \<Rightarrow> vmm \<Rightarrow> ((errno + unit) \<times> vmm) outcome" where
  "vmm_update start0 sz0 op f v =
     (let start = PAGE_ALIGN_DOWN start0; sz = page_size_up sz0 in
      case vmm_getSpaceForAddress start v of
        None \<Rightarrow> Done (Inl EINVAL, v)
      | Some sid \<Rightarrow> obind (vmm_update_space sid start sz op f v) (\<lambda>v'. Done (Inr (), v')))"

definition vmm_unmap :: "nat \<Rightarrow> nat \<Rightarrow> vmm \<Rightarrow> vmm outcome" where
  "vmm_unmap addr sz0 v =
     (let sz = page_size_up sz0 in
      oassert (addr mod 4096 = 0) (
      case vmm_getSpaceForAddress addr v of
        None \<Rightarrow> Panic
      | Some sid \<Rightarrow>
          obind (vmm_update_space sid addr sz VM_OP_SET_FLAGS 0 v) (\<lambda>v1.
          vmm_update_space sid addr sz VM_OP_FREE 0 v1)))"

text \<open>The loop that backs the pages of a new range.\<close>

definition back_page :: "u64 \<Rightarrow> nat \<Rightarrow> machine \<Rightarrow> machine outcome" where
  "back_page prot i m = obind (alloc_frame m) (\<lambda>(p, m1). arch_mmu_map None i p prot m1)"

text \<open>
  The remaining argument is the file of a file mapping. \<open>file_mmap_prepare\<close> is an operation of the
  driver of the file; its result is only logged. The result is \<open>None\<close> for a null pointer.
\<close>

definition vmm_map :: "nat \<Rightarrow> nat \<Rightarrow> u64 \<Rightarrow> u64 \<Rightarrow> vmm_file \<Rightarrow> vmm \<Rightarrow> (nat option \<times> vmm) outcome" where
  "vmm_map addr0 sz0 vm_flags prot vfile v =
     (let addr1 = PAGE_ALIGN_DOWN addr0; sz = page_size_up sz0;
          addr = (if addr1 = 0 \<and> vm_flags AND VM_FLAG_FIXED = 0 then MMU_KERNELSPACE_START else addr1) in
      case vmm_getSpaceForAddress addr v of
        None \<Rightarrow> Done (None, v)
      | Some sid \<Rightarrow>
          let start0 = vmm_findFree (get_space sid v) addr sz in
          if start0 = 0 \<and> \<not> (addr = 0 \<and> vm_flags AND VM_FLAG_FIXED \<noteq> 0) then Done (None, v)
          else if start0 \<noteq> addr \<and> vm_flags AND VM_FLAG_FIXED \<noteq> 0 then Done (None, v)
          else
            obind (if start0 \<noteq> addr \<and> vm_flags AND VM_FLAG_REPLACE \<noteq> 0 then
                obind (vmm_update_space sid addr sz VM_OP_SET_FLAGS 0 v) (\<lambda>v1.
                obind (vmm_update_space sid addr sz VM_OP_FREE 0 v1) (\<lambda>v2. Done (addr, v2)))
              else Done (start0, v)) (\<lambda>(start, v3).
            let rg = (vmm_createRange start (add64 start sz) vm_flags prot)
                  \<lparr>vr_file := (if vm_flags AND VM_FLAG_FILE \<noteq> 0 then Some vfile else None)\<rparr> in
            obind (vmm_insertRange (get_space sid v3) rg) (\<lambda>sp1.
            let w = word_of_nat sz;
                sp2 = (if vm_flags AND VM_FLAG_FILE \<noteq> 0
                  then sp1\<lparr>sp_metrics := (sp_metrics sp1)\<lparr>file_usage := file_usage (sp_metrics sp1) + w\<rparr>\<rparr>
                  else if vm_flags AND VM_FLAG_ALLOC \<noteq> 0
                  then sp1\<lparr>sp_metrics := (sp_metrics sp1)\<lparr>anon_usage := anon_usage (sp_metrics sp1) + w\<rparr>\<rparr>
                  else sp1) in
            obind (if vm_flags AND VM_FLAG_ALLOC \<noteq> 0 \<and> (sid = Kernel \<or> vm_flags AND VM_FLAG_FAKE_ME_NOT \<noteq> 0) then
                oassert (vm_flags AND VM_FLAG_FILE = 0) (
                obind (ofold (back_page prot) (page_addrs (vr_start rg) (vr_end rg)) (v_mach v3)) (\<lambda>m.
                Done (sp2\<lparr>sp_metrics := (sp_metrics sp2)\<lparr>anon_resident := anon_resident (sp_metrics sp2) + w\<rparr>\<rparr>,
                      v3\<lparr>v_mach := m\<rparr>)))
              else Done (sp2, v3)) (\<lambda>(sp3, v4).
            let v5 = set_space sid sp3 v4 in
            Done (Some (vr_start rg),
              if vm_flags AND VM_FLAG_FILE \<noteq> 0
              then v5\<lparr>v_files := (v_files v5)(fst vfile := v_files v5 (fst vfile) + 1)\<rparr> else v5)))))"

text \<open>The loop of \<open>vmm_validate\<close> over the pages of the buffer.\<close>

definition page_allowed :: "vmm_space \<Rightarrow> u32 \<Rightarrow> nat \<Rightarrow> bool" where
  "page_allowed sp flags i =
     (case vmm_getRange sp i PAGE_SIZE of
        None \<Rightarrow> False
      | Some r \<Rightarrow>
          \<not> ((flags AND VMM_PTR_USER = 0 \<and> vr_mmu r AND MMU_FLAG_USER \<noteq> 0) \<or>
             (flags AND VMM_PTR_USER \<noteq> 0 \<and> flags AND VMM_PTR_STRICT \<noteq> 0 \<and> vr_mmu r AND MMU_FLAG_USER = 0)))"

definition vmm_validate :: "nat \<Rightarrow> nat \<Rightarrow> u32 \<Rightarrow> vmm \<Rightarrow> bool" where
  "vmm_validate start0 sz0 flags v =
     (if start0 = 0 then False
      else
        let start = PAGE_ALIGN_DOWN start0; sz = page_size_up sz0 in
        case vmm_getSpaceForAddress start v of
          None \<Rightarrow> False
        | Some sid \<Rightarrow>
            let sp = get_space sid v in
            if \<not> RANGE_IN_RANGE start (add64 start sz) (sp_start sp) (sp_end sp) then False
            else list_all (page_allowed sp flags) (page_addrs start (add64 start sz)))"

text \<open>A context that dies: all its ranges, then its directory.\<close>

definition vmm_destroyContext :: "nat \<Rightarrow> vmm_range list \<Rightarrow> vctx \<Rightarrow> vctx outcome" where
  "vmm_destroyContext dir rs c =
     (let old = cur_dir (c_mach c) in
      obind (ofold vmm_destroyRange rs (c\<lparr>c_mach := (c_mach c)\<lparr>cur_dir := dir\<rparr>\<rparr>)) (\<lambda>c1.
      obind (arch_mmu_destroy dir ((c_mach c1)\<lparr>cur_dir := old\<rparr>)) (\<lambda>m.
      Done (c1\<lparr>c_mach := m\<rparr>))))"

end
