(* ===== verification/Vmm_Free.thy ===== *)
theory Vmm_Free
  imports Vmm
begin

text \<open>
  Freeing a part of an address space: the operation \<open>VM_OP_FREE\<close> of \<open>__vmm_update\<close> removes exactly
  the requested addresses from the ranges, unmaps exactly the pages of the ranges in the request,
  and gives back one reference for every frame that was mapped there, so that no frame is freed
  while it is still mapped.
\<close>

section \<open>Pages\<close>

definition user_page :: "nat \<Rightarrow> bool" where
  "user_page i \<longleftrightarrow> i < 2 ^ 47 \<and> PAGE_SIZE dvd i"

lemma page_addrs_set:
  assumes "PAGE_SIZE dvd a" "PAGE_SIZE dvd b" "a \<le> b"
  shows "set (page_addrs a b) = {i. a \<le> i \<and> i < b \<and> PAGE_SIZE dvd i}" "distinct (page_addrs a b)"
proof -
  from assms obtain j k where jk: "a = PAGE_SIZE * j" "b = PAGE_SIZE * k" by (auto elim!: dvdE)
  with assms(3) have le: "j \<le> k" by (simp add: PAGE_SIZE_def)
  have n: "(b - a + (PAGE_SIZE - 1)) div PAGE_SIZE = k - j"
    unfolding jk by (simp add: PAGE_SIZE_def flip: diff_mult_distrib2)
  show "distinct (page_addrs a b)"
    by (auto simp: page_addrs_def distinct_map inj_on_def PAGE_SIZE_def)
  have "i \<in> set (page_addrs a b)" if i: "a \<le> i" "i < b" "PAGE_SIZE dvd i" for i
  proof -
    from i(3) obtain l where l: "i = PAGE_SIZE * l" by (elim dvdE)
    with i jk have "j \<le> l" "l < k" by (simp_all add: PAGE_SIZE_def)
    then have "i = a + (l - j) * PAGE_SIZE" "l - j < k - j"
      by (simp_all add: l jk PAGE_SIZE_def flip: diff_mult_distrib2)
    then show ?thesis unfolding page_addrs_def n by auto
  qed
  moreover have "a \<le> i \<and> i < b \<and> PAGE_SIZE dvd i" if "i \<in> set (page_addrs a b)" for i
  proof -
    from that obtain q where q: "q < k - j" "i = a + q * PAGE_SIZE"
      unfolding page_addrs_def n by auto
    then have "j + q < k" "i = PAGE_SIZE * (j + q)" using le by (simp_all add: jk algebra_simps)
    then show ?thesis using q jk by (simp add: PAGE_SIZE_def)
  qed
  ultimately show "set (page_addrs a b) = {i. a \<le> i \<and> i < b \<and> PAGE_SIZE dvd i}" by blast
qed

lemma user_page_addr: "user_page i \<Longrightarrow> level_index 0 i \<in> {..<256} \<and> MMU_IS_CANONICAL i \<and> \<not> in_hhdm i"
  by (simp add: user_page_def level_index_def MMU_IS_CANONICAL_def in_hhdm_def MMU_HHDM_REGION_def
      less_mult_imp_div_less)

text \<open>The frame of a page, 0 if it has none.\<close>

definition phys :: "machine \<Rightarrow> nat \<Rightarrow> nat" where
  "phys m i = unat (MMU_PAGE_ADDR (pte m (cur_dir m) i))"

text \<open>
  The current directory, and the pages \<open>A\<close> of anonymous memory: every frame has at least as many
  references as such pages map it, and one more if it is a table.
\<close>

abbreviation cur_table :: "machine \<Rightarrow> nat \<Rightarrow> bool" where
  "cur_table m \<equiv> is_table {..<256} (cur_dir m) m"

definition vm_ok :: "nat list \<Rightarrow> machine \<Rightarrow> bool" where
  "vm_ok A m \<longleftrightarrow> mmu_inv {..<256} (cur_dir m) m \<and> distinct A \<and> (\<forall>i \<in> set A. user_page i) \<and>
     (\<forall>x. x \<noteq> 0 \<longrightarrow> length (filter (\<lambda>i. phys m i = x) A) + of_bool (cur_table m x) \<le> page_refs (frames m) x)"

lemma phys_aligned: "PAGE_SIZE dvd phys m i"
proof -
  have "take_bit 12 (unat (MMU_PAGE_ADDR e)) = 0" for e
    by (rule bit_eqI) (simp add: bit_take_bit_iff bit_unsigned_iff bit_PAGE_ADDR)
  then show ?thesis by (simp add: phys_def PAGE_SIZE_def dvd_eq_mod_eq_0 take_bit_eq_mod)
qed

lemma physical_user:
  "user_page i \<Longrightarrow> arch_mmu_physical None i m = Done (phys m i)"
  using user_page_addr [of i] by (simp add: physical_aligned user_page_def phys_def arch_mmu_dir_def)

lemma refs_frame:
  "0 < page_refs p x \<Longrightarrow> \<exists>pg. PAGE_SIZE dvd x \<and> frame (zone p) x = Some pg \<and> pg_refcount pg = page_refs p x"
  by (auto simp: page_refs_def split: if_splits option.splits)

lemma mmu_inv_frames:
  assumes inv: "mmu_inv V dir m" and mem: "mem m' = mem m" and z: "zone_inv (zone (frames m'))"
    "placed (zone (frames m')) = placed (zone (frames m))"
    and free: "\<And>t. is_table V dir m t \<Longrightarrow> \<not> free_page m' t"
  shows "mmu_inv V dir m'"
proof -
  have "\<not> free_page m' t" if "k \<le> 3" "level_index 0 v \<in> V" "table (mem m) dir k v = Some t" for k v t
    using free [of t] that unfolding is_table_def by blast
  then show ?thesis
    unfolding mmu_inv_def mem z(2) using z(1) mmu_invD [OF inv] by blast
qed

text \<open>A release that takes a reference which no table needs.\<close>

lemma release_inv:
  assumes inv: "mmu_inv V dir m" and x: "0 < page_refs (frames m) x"
    and tab: "is_table V dir m x \<Longrightarrow> 1 < page_refs (frames m) x"
  obtains m' where "free_frame x m = Done m'" "mmu_inv V dir m'" "mem m' = mem m" "cur_dir m' = cur_dir m"
    "kernel_pml m' = kernel_pml m"
    "page_refs (frames m') = (page_refs (frames m))(x := page_refs (frames m) x - 1)"
    "placed (zone (frames m')) = placed (zone (frames m))"
proof -
  from refs_frame [OF x] obtain pg where pg: "PAGE_SIZE dvd x" "frame (zone (frames m)) x = Some pg"
    "pg_refcount pg = page_refs (frames m) x" by blast
  obtain f where f: "pmm_release (frames m) x = Done f" "zone_inv (zone f)"
    "placed (zone f) = placed (zone (frames m))"
    "frame (zone f) = (\<lambda>y. if same_page y x then Some (if pg_refcount pg = 1 then given pg
       else pg\<lparr>pg_refcount := pg_refcount pg - 1\<rparr>) else frame (zone (frames m)) y)"
    "zone_free (zone f) = zone_free (zone (frames m)) + of_bool (pg_refcount pg = 1)"
    by (rule pmm_release_ok [OF mmu_invD(1) [OF inv] pg(2)]) (use pg(3) x that in auto)
  define m' where "m' = m\<lparr>frames := f\<rparr>"
  have r: "page_refs f y = (if y = x then page_refs (frames m) x - 1 else page_refs (frames m) y)" for y
  proof (cases "PAGE_SIZE dvd y")
    case True
    then have "same_page y x \<longleftrightarrow> y = x" using pg(1) by (rule aligned_same_page)
    with f(4) pg True show ?thesis by (auto simp: page_refs_def given_def)
  next
    case False
    with pg(1) show ?thesis by (auto simp: page_refs_def)
  qed
  have nf: "\<not> pg_free pg" using frame_page_inv [OF mmu_invD(1) [OF inv] pg(2)] pg(3) x by simp
  have "\<not> free_page m' t" if t: "is_table V dir m t" for t
  proof (cases "t = x")
    case True
    with t tab pg(3) have "pg_refcount pg \<noteq> 1" by auto
    with True f(4) nf show ?thesis by (simp add: free_page_def m'_def pg_free_def)
  next
    case False
    have "PAGE_SIZE dvd t" "\<not> free_page m t" using mmu_invD(3,4) [OF inv] t unfolding is_table_def by blast+
    moreover from this(1) have "\<not> same_page t x" using False pg(1) by (simp add: aligned_same_page)
    ultimately show ?thesis using f(4) by (simp add: free_page_def m'_def)
  qed
  then have "mmu_inv V dir m'"
    by (intro mmu_inv_frames [OF inv]) (simp_all add: m'_def f(2,3))
  moreover have "free_frame x m = Done m'" using f(1) by (simp add: free_frame_def pmm_freePage_def m'_def)
  ultimately show ?thesis using that [of m'] r f(3) by (simp add: m'_def fun_eq_iff)
qed

lemma keeps_same_frames:
  assumes "keeps V dir m m'" "frames m' = frames m"
  shows "is_table V dir m' = is_table V dir m"
proof -
  from assms obtain S where "took S V dir m m'" by (auto simp: keeps_def)
  then have "S = {}" and "\<forall>q. is_table V dir m' q \<longleftrightarrow> is_table V dir m q \<or> q \<in> S"
    using assms(2) by (auto simp: took_def)
  then show ?thesis by auto
qed

section \<open>Freeing pages\<close>

definition anon :: "vmm_range \<Rightarrow> bool" where
  "anon r \<longleftrightarrow> \<not> has_flag r VM_FLAG_FILE \<and> \<not> has_flag r VM_FLAG_DEVICE \<and> has_flag r VM_FLAG_ALLOC"

text \<open>The machine after the pages in \<open>P\<close> were unmapped.\<close>

definition unmapped :: "nat set \<Rightarrow> machine \<Rightarrow> machine \<Rightarrow> bool" where
  "unmapped P m m' \<longleftrightarrow> cur_dir m' = cur_dir m \<and>
     (\<forall>w. user_page w \<longrightarrow> pte m' (cur_dir m) w = (if w \<in> P then 0 else pte m (cur_dir m) w))"

lemma unmap_page:
  assumes ok: "vm_ok A m" and i: "user_page i"
  obtains m' where "arch_mmu_unmap None i m = Done m'" "vm_ok A m'" "unmapped {i} m m'" "frames m' = frames m"
proof -
  have inv: "mmu_inv {..<256} (cur_dir m) m" using ok by (simp add: vm_ok_def)
  have u: "level_index 0 i \<in> {..<256}" "MMU_IS_CANONICAL i" using user_page_addr [OF i] by auto
  obtain m' where m': "arch_mmu_unmap None i m = Done m'" "mmu_inv {..<256} (cur_dir m) m'"
    "keeps {..<256} (cur_dir m) m m'" "frames m' = frames m"
    "table (mem m') (cur_dir m) 3 i = table (mem m) (cur_dir m) 3 i"
    "\<And>w. level_index 0 w \<in> {..<256} \<Longrightarrow> MMU_IS_CANONICAL w \<Longrightarrow>
       pte m' (cur_dir m) w = (if same_page i w then 0 else pte m (cur_dir m) w)"
    by (rule unmap_ok [OF inv u, of None]) (use that in \<open>auto simp: arch_mmu_dir_def\<close>)
  have d: "cur_dir m' = cur_dir m" using m'(3) by (simp add: keeps_def)
  have p: "pte m' (cur_dir m) w = (if w = i then 0 else pte m (cur_dir m) w)" if "user_page w" for w
    using m'(6) [of w] user_page_addr [OF that] that i aligned_same_page [of i w] by (auto simp: user_page_def)
  have t: "cur_table m' = cur_table m" using keeps_same_frames [OF m'(3,4)] d by simp
  have le: "length (filter (\<lambda>j. phys m' j = x) A) \<le> length (filter (\<lambda>j. phys m j = x) A)" if "x \<noteq> 0" for x
  proof -
    have "phys m j = x" if "j \<in> set A" "phys m' j = x" for j
      using that ok p [of j] \<open>x \<noteq> 0\<close> d by (auto simp: vm_ok_def phys_def split: if_splits)
    then have "filter (\<lambda>j. phys m' j = x) A = filter (\<lambda>j. phys m' j = x) (filter (\<lambda>j. phys m j = x) A)"
      by (auto intro: filter_cong)
    then show ?thesis by (metis length_filter_le)
  qed
  have "length (filter (\<lambda>j. phys m' j = x) A) + of_bool (cur_table m' x) \<le> page_refs (frames m') x"
    if "x \<noteq> 0" for x
  proof -
    have "length (filter (\<lambda>j. phys m j = x) A) + of_bool (cur_table m x) \<le> page_refs (frames m) x"
      using ok that by (simp add: vm_ok_def)
    with le [OF that] show ?thesis unfolding t m'(4) by linarith
  qed
  then have "vm_ok A m'" using ok m'(2) d by (simp add: vm_ok_def)
  with that m'(1,4) p d show ?thesis by (simp add: unmapped_def)
qed

lemma length_filter_remove1:
  "x \<in> set xs \<Longrightarrow> length (filter P xs) = length (filter P (remove1 x xs)) + of_bool (P x)"
  by (induction xs) auto

lemma free_one_ok:
  assumes ok: "vm_ok A (c_mach c)" and i: "user_page i" and r: "anon r \<longleftrightarrow> i \<in> set A"
  shows "\<exists>c'. free_one r i c = Done c' \<and> vm_ok A (c_mach c') \<and> c_files c' = c_files c \<and>
    unmapped {i} (c_mach c) (c_mach c') \<and>
    (\<forall>x \<noteq> 0. page_refs (frames (c_mach c')) x =
       page_refs (frames (c_mach c)) x - of_bool (i \<in> set A \<and> phys (c_mach c) i = x))"
proof (cases "anon r \<and> phys (c_mach c) i \<noteq> 0")
  case False
  then have "\<exists>c1. free_backing r i c = Done c1 \<and> c_mach c1 = c_mach c \<and> c_files c1 = c_files c"
    by (auto simp: free_backing_def anon_def physical_user [OF i] Let_def)
  then obtain c1 where c1: "free_backing r i c = Done c1" "c_mach c1 = c_mach c" "c_files c1 = c_files c" by blast
  obtain m' where "arch_mmu_unmap None i (c_mach c) = Done m'" "vm_ok A m'" "unmapped {i} (c_mach c) m'"
    "frames m' = frames (c_mach c)" by (rule unmap_page [OF ok i])
  with c1 False r show ?thesis by (auto simp: free_one_def)
next
  case True
  define x where "x = phys (c_mach c) i"
  have x: "x \<noteq> 0" "i \<in> set A" using True r by (auto simp: x_def)
  define m where "m = c_mach c"
  have inv: "mmu_inv {..<256} (cur_dir m) m" using ok by (simp add: vm_ok_def m_def)
  have a: "0 < length (filter (\<lambda>j. phys m j = x) A)"
    using x(2) by (auto simp: x_def m_def filter_empty_conv)
  have b: "length (filter (\<lambda>j. phys m j = x) A) + of_bool (cur_table m x) \<le> page_refs (frames m) x"
    using ok x(1) by (simp add: vm_ok_def m_def)
  have pos: "0 < page_refs (frames m) x" using a b by linarith
  have tab: "1 < page_refs (frames m) x" if "cur_table m x"
  proof -
    have "of_bool (cur_table m x) = (1 :: nat)" using that by simp
    with a b show ?thesis by linarith
  qed
  obtain m1 where m1: "free_frame x m = Done m1" "mmu_inv {..<256} (cur_dir m) m1" "mem m1 = mem m"
    "cur_dir m1 = cur_dir m" "kernel_pml m1 = kernel_pml m"
    "page_refs (frames m1) = (page_refs (frames m))(x := page_refs (frames m) x - 1)"
    "placed (zone (frames m1)) = placed (zone (frames m))"
    by (rule release_inv [OF inv pos tab])
  have pt: "pte m1 d j = pte m d j" and ph: "phys m1 j = phys m j" and tb: "cur_table m1 y = cur_table m y"
    for d j y unfolding phys_def pte_def is_table_def m1(3,4) by (rule refl)+
  note len = length_filter_remove1 [OF x(2)]
  have ok1: "vm_ok (remove1 i A) m1"
  proof -
    have "length (filter (\<lambda>j. phys m1 j = y) (remove1 i A)) + of_bool (cur_table m1 y) \<le> page_refs (frames m1) y"
      if "y \<noteq> 0" for y
    proof -
      have "length (filter (\<lambda>j. phys m j = y) A) + of_bool (cur_table m y) \<le> page_refs (frames m) y"
        using ok that by (simp add: vm_ok_def m_def)
      then show ?thesis unfolding m1(6) ph tb using len [of "\<lambda>j. phys m j = y"] by (auto simp: x_def m_def)
    qed
    moreover have "distinct (remove1 i A)" "\<forall>j \<in> set (remove1 i A). user_page j"
      using ok by (auto simp: vm_ok_def dest: notin_set_remove1)
    ultimately show ?thesis using m1(2,4) by (simp add: vm_ok_def)
  qed
  obtain m2 where m2: "arch_mmu_unmap None i m1 = Done m2" "vm_ok (remove1 i A) m2" "unmapped {i} m1 m2"
    "frames m2 = frames m1" by (rule unmap_page [OF ok1 i])
  have "phys m2 i = 0" using m2(3) i by (simp add: unmapped_def phys_def)
  then have "vm_ok A m2"
    using m2(2) ok len unfolding vm_ok_def by auto
  moreover have "unmapped {i} m m2"
    using m2(3) m1(4) pt by (simp add: unmapped_def)
  moreover have "free_one r i c = Done (c\<lparr>c_metrics := (c_metrics c)\<lparr>anon_usage := anon_usage (c_metrics c) - 4096,
      anon_resident := anon_resident (c_metrics c) - 4096\<rparr>, c_mach := m2\<rparr>)"
    using True m1(1) m2(1) by (simp add: free_one_def free_backing_def anon_def physical_user [OF i] Let_def x_def m_def)
  moreover have "\<forall>y \<noteq> 0. page_refs (frames m2) y = page_refs (frames m) y - of_bool (i \<in> set A \<and> phys m i = y)"
    using m1(6) m2(4) x by (auto simp: x_def m_def)
  ultimately show ?thesis unfolding m_def by auto
qed

text \<open>One reference was given back for each of the pages \<open>L\<close> that had a frame.\<close>

definition released :: "nat list \<Rightarrow> machine \<Rightarrow> machine \<Rightarrow> bool" where
  "released L m m' \<longleftrightarrow> (\<forall>x. x \<noteq> 0 \<longrightarrow>
     page_refs (frames m) x = page_refs (frames m') x + length (filter (\<lambda>i. phys m i = x) L))"

lemma released_trans:
  assumes "released L m m1" "released L' m1 m2" "\<And>i. i \<in> set L' \<Longrightarrow> phys m1 i = phys m i"
  shows "released (L @ L') m m2"
proof -
  have "filter (\<lambda>i. phys m1 i = x) L' = filter (\<lambda>i. phys m i = x) L'" for x
    using assms(3) by (auto intro: filter_cong)
  with assms(1,2) show ?thesis by (simp add: released_def)
qed

lemma unmapped_trans:
  assumes "unmapped P m m1" "unmapped Q m1 m2"
  shows "unmapped (P \<union> Q) m m2"
  using assms by (auto simp: unmapped_def)

lemma unmapped_phys: "unmapped P m m' \<Longrightarrow> user_page i \<Longrightarrow> i \<notin> P \<Longrightarrow> phys m' i = phys m i"
  by (simp add: unmapped_def phys_def)

lemma vm_ok_refs:
  assumes "vm_ok A m" "i \<in> set A" "phys m i \<noteq> 0"
  shows "0 < page_refs (frames m) (phys m i)"
proof -
  have "0 < length (filter (\<lambda>j. phys m j = phys m i) A)" using assms(2) by (auto simp: filter_empty_conv)
  moreover have "length (filter (\<lambda>j. phys m j = phys m i) A) \<le> page_refs (frames m) (phys m i)"
    using assms(1,3) unfolding vm_ok_def by (meson add_leD1)
  ultimately show ?thesis by linarith
qed

text \<open>The effect of freeing the pages \<open>ps\<close> of a range.\<close>

definition freed_pages :: "nat list \<Rightarrow> nat list \<Rightarrow> vctx \<Rightarrow> vctx \<Rightarrow> bool" where
  "freed_pages A ps c c' \<longleftrightarrow> vm_ok A (c_mach c') \<and> c_files c' = c_files c \<and>
     unmapped (set ps) (c_mach c) (c_mach c') \<and>
     released (filter (\<lambda>i. i \<in> set A) ps) (c_mach c) (c_mach c')"

lemma free_pages_ok:
  "vm_ok A (c_mach c) \<Longrightarrow> distinct ps \<Longrightarrow> (\<And>i. i \<in> set ps \<Longrightarrow> user_page i \<and> (anon r \<longleftrightarrow> i \<in> set A)) \<Longrightarrow>
   \<exists>c'. ofold (free_one r) ps c = Done c' \<and> freed_pages A ps c c'"
proof (induction ps arbitrary: c)
  case Nil
  then show ?case by (simp add: freed_pages_def unmapped_def released_def)
next
  case (Cons i ps)
  have i: "user_page i" "anon r \<longleftrightarrow> i \<in> set A" using Cons.prems(3) by auto
  from free_one_ok [OF Cons.prems(1) i] obtain c1 where
    c1: "free_one r i c = Done c1" "vm_ok A (c_mach c1)" "c_files c1 = c_files c"
      "unmapped {i} (c_mach c) (c_mach c1)"
      "\<forall>x \<noteq> 0. page_refs (frames (c_mach c1)) x =
         page_refs (frames (c_mach c)) x - of_bool (i \<in> set A \<and> phys (c_mach c) i = x)" by blast
  have r1: "released (filter (\<lambda>i. i \<in> set A) [i]) (c_mach c) (c_mach c1)"
    using c1(5) vm_ok_refs [OF Cons.prems(1), of i] by (auto simp: released_def Suc_leI)
  from Cons.IH [OF c1(2)] Cons.prems(2,3) obtain c' where
    c': "ofold (free_one r) ps c1 = Done c'" "freed_pages A ps c1 c'" by auto
  have "phys (c_mach c1) j = phys (c_mach c) j" if "j \<in> set ps" for j
    using unmapped_phys [OF c1(4), of j] that Cons.prems(2,3) by auto
  then have "released (filter (\<lambda>i. i \<in> set A) [i] @ filter (\<lambda>i. i \<in> set A) ps) (c_mach c) (c_mach c')"
    using c'(2) by (intro released_trans [OF r1]) (auto simp: freed_pages_def)
  moreover have "unmapped ({i} \<union> set ps) (c_mach c) (c_mach c')"
    using unmapped_trans [OF c1(4)] c'(2) by (simp add: freed_pages_def)
  ultimately have "freed_pages A (i # ps) c c'" using c'(2) c1(3) by (auto simp: freed_pages_def)
  with c1(1) c'(1) show ?case by simp
qed

text \<open>The part of a range in the request.\<close>

lemma vmm_freePages_ok:
  assumes ok: "vm_ok A (c_mach c)" and al: "PAGE_SIZE dvd vr_start r + off"
    and pages: "\<And>i. vr_start r + off \<le> i \<Longrightarrow> i < vr_start r + off + n * PAGE_SIZE \<Longrightarrow> PAGE_SIZE dvd i \<Longrightarrow>
      i < 2 ^ 47 \<and> (anon r \<longleftrightarrow> i \<in> set A)"
  shows "\<exists>c'. vmm_freePages r off n c = Done c' \<and>
    freed_pages A (page_addrs (vr_start r + off) (vr_start r + off + n * PAGE_SIZE)) c c'"
proof -
  have b: "PAGE_SIZE dvd vr_start r + off + n * PAGE_SIZE" using al by simp
  note s = page_addrs_set [OF al b]
  show ?thesis unfolding vmm_freePages_def
  proof (rule free_pages_ok [OF ok])
    show "distinct (page_addrs (vr_start r + off) (vr_start r + off + n * PAGE_SIZE))"
      by (rule s(2)) simp
    fix i assume "i \<in> set (page_addrs (vr_start r + off) (vr_start r + off + n * PAGE_SIZE))"
    then show "user_page i \<and> (anon r \<longleftrightarrow> i \<in> set A)" using pages [of i] by (simp add: s(1) user_page_def)
  qed
qed

section \<open>Freeing a part of the ranges\<close>

text \<open>The pages of a range in the request, and what remains of the range.\<close>

definition part :: "nat \<Rightarrow> nat \<Rightarrow> vmm_range \<Rightarrow> nat list" where
  "part lo hi r = page_addrs (max lo (vr_start r)) (min hi (vr_end r))"

definition inside :: "nat \<Rightarrow> nat \<Rightarrow> vmm_range \<Rightarrow> bool" where
  "inside lo hi r \<longleftrightarrow> lo \<le> vr_start r \<and> vr_end r \<le> hi"

definition remain :: "nat \<Rightarrow> nat \<Rightarrow> vmm_range \<Rightarrow> vmm_range list" where
  "remain lo hi r =
     (if vr_start r < lo then [r\<lparr>vr_end := min (vr_end r) lo\<rparr>] else []) @
     (if hi < vr_end r then
        [if vr_start r < lo then vmm_createRange hi (vr_end r) (vr_flags r) (vr_mmu r)
         else r\<lparr>vr_start := max (vr_start r) hi\<rparr>] else [])"

definition free_part :: "nat \<Rightarrow> nat \<Rightarrow> vmm_range \<Rightarrow> vctx \<Rightarrow> vctx outcome" where
  "free_part lo hi r c =
     obind (ofold (free_one r) (part lo hi r) c) (\<lambda>c1.
     if inside lo hi r \<and> has_flag r VM_FLAG_FILE then ref_file (-1) r c1 else Done c1)"

fun free_spec :: "nat \<Rightarrow> nat \<Rightarrow> vmm_range list \<Rightarrow> vctx \<Rightarrow> (vmm_range list \<times> vctx) outcome" where
  "free_spec lo hi [] c = Done ([], c)"
| "free_spec lo hi (r # rs) c =
     obind (free_part lo hi r c) (\<lambda>c1.
     obind (free_spec lo hi rs c1) (\<lambda>(rs', c2). Done (remain lo hi r @ rs', c2)))"

lemma page_addrs_empty: "b \<le> a \<Longrightarrow> page_addrs a b = []"
  by (simp add: page_addrs_def PAGE_SIZE_def)

lemma pages_between:
  assumes "PAGE_SIZE dvd a" "PAGE_SIZE dvd b" "a \<le> b"
  shows "a + (b - a) div PAGE_SIZE * PAGE_SIZE = b"
  using assms by (auto simp: PAGE_SIZE_def elim!: dvdE)

lemma free_part_outside:
  assumes "vr_start r < vr_end r" "lo < hi" "vr_end r \<le> lo \<or> hi \<le> vr_start r"
  shows "free_part lo hi r c = Done c" "remain lo hi r = [r]"
proof -
  have "part lo hi r = []" using assms by (auto simp: part_def page_addrs_empty)
  then show "free_part lo hi r c = Done c" using assms by (auto simp: free_part_def inside_def)
  show "remain lo hi r = [r]" using assms by (auto simp: remain_def min_def max_def)
qed

lemma free_spec_above:
  assumes "ranges_inv L H rs" "lo < hi" "\<forall>r \<in> set rs. hi \<le> vr_start r"
  shows "free_spec lo hi rs c = Done (rs, c)"
  using assms
proof (induction rs)
  case (Cons r rs)
  then have "free_part lo hi r c = Done c" "remain lo hi r = [r]"
    by (auto intro!: free_part_outside simp: ranges_inv_Cons)
  with Cons show ?case by (simp add: ranges_inv_Cons)
qed simp

lemma vmm_freePages_part:
  assumes "PAGE_SIZE dvd a" "PAGE_SIZE dvd b" "a \<le> b" "vr_start r \<le> a"
  shows "vmm_freePages r (a - vr_start r) ((b - a) div PAGE_SIZE) = ofold (free_one r) (page_addrs a b)"
  using pages_between [OF assms(1-3)] assms(4) by (simp add: vmm_freePages_def)

lemma update_free_eq:
  assumes "ranges_inv L H rs" "lo < hi" "PAGE_SIZE dvd lo" "PAGE_SIZE dvd hi"
  shows "update_ranges VM_OP_FREE f lo hi ((hi - lo) div PAGE_SIZE) rs c = free_spec lo hi rs c"
  using assms(1)
proof (induction rs arbitrary: c)
  case Nil
  then show ?case by simp
next
  case (Cons r rs)
  have r: "vr_start r < vr_end r" "PAGE_SIZE dvd vr_start r" "PAGE_SIZE dvd vr_end r" "ranges_inv L H rs"
    "\<forall>s \<in> set rs. vr_end r \<le> vr_start s" using Cons.prems by (auto simp: ranges_inv_Cons)
  have IH: "update_ranges VM_OP_FREE f lo hi ((hi - lo) div PAGE_SIZE) rs = free_spec lo hi rs"
    using Cons.IH [OF r(4)] by (rule ext)
  consider (above) "hi \<le> vr_start r" | (below) "vr_end r \<le> lo"
    | (full) "lo \<le> vr_start r" "vr_end r \<le> hi"
    | (inner) "vr_start r < lo" "hi < vr_end r"
    | (first) "vr_start r < lo" "lo < vr_end r" "vr_end r \<le> hi"
    | (last) "lo \<le> vr_start r" "vr_start r < hi" "hi < vr_end r" by linarith
  then show ?case
  proof cases
    case above
    then have "\<forall>s \<in> set (r # rs). hi \<le> vr_start s" using r by auto
    with free_spec_above [OF Cons.prems assms(2)] above show ?thesis by simp
  next
    case below
    then have "free_part lo hi r c = Done c" "remain lo hi r = [r]"
      using r(1) assms(2) by (auto intro!: free_part_outside)
    then show ?thesis using below r(1) assms(2) by (simp add: IH)
  next
    case full
    have "vmm_freePages r 0 ((vr_end r - vr_start r) div PAGE_SIZE) = ofold (free_one r) (part lo hi r)"
      using vmm_freePages_part [of "vr_start r" "vr_end r" r] r full by (simp add: part_def)
    then have "vmm_destroyRange r c = free_part lo hi r c"
      using full by (simp add: vmm_destroyRange_def free_part_def inside_def)
    moreover have "remain lo hi r = []" using full by (simp add: remain_def)
    ultimately show ?thesis using full r(1) by (simp add: IH)
  next
    case inner
    have "vmm_freePages r (lo - vr_start r) ((hi - lo) div PAGE_SIZE) = ofold (free_one r) (part lo hi r)"
      using vmm_freePages_part [of lo hi r] assms inner by (simp add: part_def)
    moreover have "\<not> inside lo hi r" using inner by (simp add: inside_def)
    ultimately show ?thesis using inner assms(2)
      by (simp add: IH free_part_def remain_def Let_def min_def obind_assoc)
  next
    case first
    have "vmm_freePages r (lo - vr_start r) ((vr_end r - lo) div PAGE_SIZE) = ofold (free_one r) (part lo hi r)"
      using vmm_freePages_part [of lo "vr_end r" r] r assms first by (simp add: part_def)
    moreover have "\<not> inside lo hi r" using first by (simp add: inside_def)
    ultimately show ?thesis using first assms(2)
      by (simp add: IH free_part_def remain_def Let_def min_def obind_assoc)
  next
    case last
    have "vmm_freePages r 0 ((hi - vr_start r) div PAGE_SIZE) = ofold (free_one r) (part lo hi r)"
      using vmm_freePages_part [of "vr_start r" hi r] r assms last by (simp add: part_def)
    moreover have "\<not> inside lo hi r" using last by (simp add: inside_def)
    ultimately show ?thesis using last assms(2)
      by (simp add: IH free_part_def remain_def Let_def max_def obind_assoc)
  qed
qed

subsection \<open>The ranges\<close>

text \<open>The flags of the range that an address lies in.\<close>

definition prot_at :: "vmm_range list \<Rightarrow> nat \<Rightarrow> (u64 \<times> u64) option" where
  "prot_at rs a = map_option (\<lambda>r. (vr_flags r, vr_mmu r)) (find (\<lambda>r. vr_start r \<le> a \<and> a < vr_end r) rs)"

lemma prot_at_append:
  "prot_at (rs @ ss) a = (case prot_at rs a of None \<Rightarrow> prot_at ss a | Some p \<Rightarrow> Some p)"
  by (induction rs) (auto simp: prot_at_def)

lemma remain_within:
  assumes "x \<in> set (remain lo hi r)" "vr_start r < vr_end r" "lo < hi"
    "PAGE_SIZE dvd lo" "PAGE_SIZE dvd hi" "PAGE_SIZE dvd vr_start r" "PAGE_SIZE dvd vr_end r"
  shows "vr_start r \<le> vr_start x" "vr_end x \<le> vr_end r" "vr_start x < vr_end x"
    "PAGE_SIZE dvd vr_start x" "PAGE_SIZE dvd vr_end x"
  using assms by (auto simp: remain_def vmm_createRange_def min_def max_def split: if_splits)

lemma remain_sorted:
  "lo < hi \<Longrightarrow> sorted_wrt (\<lambda>r s. vr_end r \<le> vr_start s) (remain lo hi r)"
  by (auto simp: remain_def vmm_createRange_def min_def)

lemma remain_inv:
  assumes "ranges_inv L H rs" "lo < hi" "PAGE_SIZE dvd lo" "PAGE_SIZE dvd hi"
  shows "ranges_inv L H (concat (map (remain lo hi) rs))"
  using assms(1)
proof (induction rs)
  case Nil
  then show ?case by (simp add: ranges_inv_def)
next
  case (Cons r rs)
  have r: "vr_start r < vr_end r" "PAGE_SIZE dvd vr_start r" "PAGE_SIZE dvd vr_end r" "ranges_inv L H rs"
    "\<forall>s \<in> set rs. vr_end r \<le> vr_start s" "L \<le> vr_start r" "vr_end r \<le> H"
    using Cons.prems by (auto simp: ranges_inv_Cons)
  note w = remain_within [OF _ r(1) assms(2-4) r(2,3)]
  have "vr_end x \<le> vr_start y" if x: "x \<in> set (remain lo hi r)" and y: "y \<in> set (concat (map (remain lo hi) rs))" for x y
  proof -
    from y obtain s where s: "s \<in> set rs" "y \<in> set (remain lo hi s)" by auto
    then have "vr_start s < vr_end s" "PAGE_SIZE dvd vr_start s" "PAGE_SIZE dvd vr_end s"
      using r(4) by (auto simp: ranges_inv_def)
    then have "vr_start s \<le> vr_start y" using remain_within(1) [OF s(2)] assms(2-4) by blast
    with w(2) [OF x] r(5) s(1) show ?thesis by (meson order_trans)
  qed
  with Cons.IH [OF r(4)] remain_sorted [OF assms(2), of r] w r(6,7) show ?case
    unfolding ranges_inv_def by (auto simp: sorted_wrt_append intro: order_trans)
qed

lemma prot_remain_one:
  assumes "vr_start r < vr_end r" "lo < hi"
  shows "prot_at (remain lo hi r) a = (if lo \<le> a \<and> a < hi then None else prot_at [r] a)"
  using assms by (auto simp: prot_at_def remain_def vmm_createRange_def min_def max_def)

lemma prot_remain:
  assumes "ranges_inv L H rs" "lo < hi"
  shows "prot_at (concat (map (remain lo hi) rs)) a = (if lo \<le> a \<and> a < hi then None else prot_at rs a)"
  using assms(1)
proof (induction rs)
  case Nil
  then show ?case by (simp add: prot_at_def)
next
  case (Cons r rs)
  have "vr_start r < vr_end r" "ranges_inv L H rs" using Cons.prems by (auto simp: ranges_inv_Cons)
  with Cons.IH prot_remain_one [of r lo hi a] assms(2) show ?case
    using prot_at_append [of "[r]" rs a] by (simp add: prot_at_append split: option.splits)
qed

subsection \<open>The machine\<close>

definition pages_ok :: "nat list \<Rightarrow> vmm_range list \<Rightarrow> bool" where
  "pages_ok A rs \<longleftrightarrow> (\<forall>r \<in> set rs. \<forall>i. vr_start r \<le> i \<longrightarrow> i < vr_end r \<longrightarrow> PAGE_SIZE dvd i \<longrightarrow>
     i < 2 ^ 47 \<and> (anon r \<longleftrightarrow> i \<in> set A))"

definition files_set :: "vmm_range list \<Rightarrow> bool" where
  "files_set rs \<longleftrightarrow> (\<forall>r \<in> set rs. has_flag r VM_FLAG_FILE \<longrightarrow> vr_file r \<noteq> None)"

text \<open>The number of ranges inside the request that map the file.\<close>

definition dropped_files :: "nat \<Rightarrow> nat \<Rightarrow> vmm_range list \<Rightarrow> nat \<Rightarrow> nat" where
  "dropped_files lo hi rs n = length (filter (\<lambda>r. inside lo hi r \<and> has_flag r VM_FLAG_FILE \<and>
     map_option fst (vr_file r) = Some n) rs)"

lemma part_set:
  assumes "PAGE_SIZE dvd lo" "PAGE_SIZE dvd hi" "PAGE_SIZE dvd vr_start r" "PAGE_SIZE dvd vr_end r"
  shows "set (part lo hi r) = {i. PAGE_SIZE dvd i \<and> lo \<le> i \<and> i < hi \<and> vr_start r \<le> i \<and> i < vr_end r}"
    "distinct (part lo hi r)"
proof -
  have m: "PAGE_SIZE dvd max lo (vr_start r)" "PAGE_SIZE dvd min hi (vr_end r)"
    using assms by (auto simp: max_def min_def)
  show "set (part lo hi r) = {i. PAGE_SIZE dvd i \<and> lo \<le> i \<and> i < hi \<and> vr_start r \<le> i \<and> i < vr_end r}"
  proof (cases "max lo (vr_start r) \<le> min hi (vr_end r)")
    case True
    from page_addrs_set(1) [OF m True] show ?thesis by (auto simp: part_def)
  next
    case False
    then show ?thesis by (auto simp: part_def page_addrs_empty)
  qed
  show "distinct (part lo hi r)"
    by (cases "max lo (vr_start r) \<le> min hi (vr_end r)")
      (auto simp: part_def page_addrs_empty page_addrs_set(2) [OF m])
qed

definition freed_request :: "nat list \<Rightarrow> nat \<Rightarrow> nat \<Rightarrow> vmm_range list \<Rightarrow> vctx \<Rightarrow> vctx \<Rightarrow> bool" where
  "freed_request A lo hi rs c c' \<longleftrightarrow> vm_ok A (c_mach c') \<and>
     unmapped (set (concat (map (part lo hi) rs))) (c_mach c) (c_mach c') \<and>
     released (filter (\<lambda>i. i \<in> set A) (concat (map (part lo hi) rs))) (c_mach c) (c_mach c') \<and>
     (\<forall>n. c_files c' n = c_files c n - int (dropped_files lo hi rs n))"

lemma free_part_ok:
  assumes ok: "vm_ok A (c_mach c)" and al: "PAGE_SIZE dvd lo" "PAGE_SIZE dvd hi"
    "PAGE_SIZE dvd vr_start r" "PAGE_SIZE dvd vr_end r"
    and pg: "pages_ok A [r]" and fs: "files_set [r]"
  shows "\<exists>c'. free_part lo hi r c = Done c' \<and> freed_request A lo hi [r] c c'"
proof -
  note s = part_set [OF al]
  obtain c1 where c1: "ofold (free_one r) (part lo hi r) c = Done c1" "freed_pages A (part lo hi r) c c1"
    using free_pages_ok [OF ok s(2), of r] pg by (auto simp: s(1) pages_ok_def user_page_def)
  show ?thesis
  proof (cases "inside lo hi r \<and> has_flag r VM_FLAG_FILE")
    case True
    then obtain n off where "vr_file r = Some (n, off)" using fs by (auto simp: files_set_def)
    with True c1 show ?thesis
      by (auto simp: free_part_def ref_file_def freed_request_def freed_pages_def dropped_files_def)
  next
    case False
    then have "dropped_files lo hi [r] n = 0" for n by (auto simp: dropped_files_def)
    with False c1 show ?thesis by (auto simp: free_part_def freed_request_def freed_pages_def)
  qed
qed

lemma freed_request_Cons:
  assumes 1: "freed_request A lo hi [r] c c1" and 2: "freed_request A lo hi rs c1 c2"
    and dj: "\<And>i. i \<in> set (concat (map (part lo hi) rs)) \<Longrightarrow> i \<notin> set (part lo hi r) \<and> user_page i"
  shows "freed_request A lo hi (r # rs) c c2"
proof -
  have u: "unmapped (set (part lo hi r)) (c_mach c) (c_mach c1)" using 1 by (simp add: freed_request_def)
  have ph: "phys (c_mach c1) i = phys (c_mach c) i" if "i \<in> set (concat (map (part lo hi) rs))" for i
    using unmapped_phys [OF u, of i] dj [OF that] by simp
  have "released (filter (\<lambda>i. i \<in> set A) (part lo hi r) @ filter (\<lambda>i. i \<in> set A) (concat (map (part lo hi) rs)))
      (c_mach c) (c_mach c2)"
    using 1 2 ph by (intro released_trans [of _ _ "c_mach c1"]) (auto simp: freed_request_def)
  moreover have "unmapped (set (part lo hi r) \<union> set (concat (map (part lo hi) rs))) (c_mach c) (c_mach c2)"
    using 1 2 by (intro unmapped_trans [of _ _ "c_mach c1"]) (auto simp: freed_request_def)
  moreover have "dropped_files lo hi (r # rs) n = dropped_files lo hi [r] n + dropped_files lo hi rs n" for n
    by (simp add: dropped_files_def)
  ultimately show ?thesis using 1 2 by (simp add: freed_request_def)
qed

lemma free_spec_ok:
  assumes "lo < hi" "PAGE_SIZE dvd lo" "PAGE_SIZE dvd hi"
  shows "ranges_inv L H rs \<Longrightarrow> pages_ok A rs \<Longrightarrow> files_set rs \<Longrightarrow> vm_ok A (c_mach c) \<Longrightarrow>
    \<exists>c'. free_spec lo hi rs c = Done (concat (map (remain lo hi) rs), c') \<and> freed_request A lo hi rs c c'"
proof (induction rs arbitrary: c)
  case Nil
  then show ?case by (simp add: freed_request_def unmapped_def released_def dropped_files_def)
next
  case (Cons r rs)
  have r: "PAGE_SIZE dvd vr_start r" "PAGE_SIZE dvd vr_end r" "ranges_inv L H rs"
    "\<forall>s \<in> set rs. vr_end r \<le> vr_start s" using Cons.prems(1) by (auto simp: ranges_inv_Cons)
  have p: "pages_ok A [r]" "pages_ok A rs" "files_set [r]" "files_set rs"
    using Cons.prems(2,3) by (auto simp: pages_ok_def files_set_def)
  from free_part_ok [OF Cons.prems(4) assms(2,3) r(1,2) p(1,3)] obtain c1 where
    c1: "free_part lo hi r c = Done c1" "freed_request A lo hi [r] c c1" by blast
  then have "vm_ok A (c_mach c1)" by (simp add: freed_request_def)
  from Cons.IH [OF r(3) p(2,4) this] obtain c2 where
    c2: "free_spec lo hi rs c1 = Done (concat (map (remain lo hi) rs), c2)" "freed_request A lo hi rs c1 c2" by blast
  have "i \<notin> set (part lo hi r) \<and> user_page i" if i: "i \<in> set (concat (map (part lo hi) rs))" for i
  proof -
    from i obtain s where s: "s \<in> set rs" "i \<in> set (part lo hi s)" by auto
    then have al: "PAGE_SIZE dvd vr_start s" "PAGE_SIZE dvd vr_end s" using r(3) by (auto simp: ranges_inv_def)
    from s(2) have "vr_start s \<le> i \<and> i < vr_end s \<and> PAGE_SIZE dvd i"
      unfolding part_set(1) [OF assms(2,3) al] by simp
    moreover have "vr_end r \<le> vr_start s" using s(1) r(4) by simp
    ultimately show ?thesis
      using s(1) p(2) unfolding part_set(1) [OF assms(2,3) r(1,2)] by (auto simp: pages_ok_def user_page_def)
  qed
  from freed_request_Cons [OF c1(2) c2(2) this] c1(1) c2(1) show ?case by simp
qed

section \<open>Freeing a part of a space\<close>

abbreviation ctx_of :: "vmm \<Rightarrow> vctx" where
  "ctx_of v \<equiv> \<lparr>c_mach = v_mach v, c_files = v_files v, c_metrics = sp_metrics (v_user v)\<rparr>"

text \<open>
  The user space is well-formed, the pages \<open>A\<close> are the pages of its anonymous ranges, and every frame has the
  references that its mappings need.
\<close>

definition user_inv :: "nat list \<Rightarrow> vmm \<Rightarrow> bool" where
  "user_inv A v \<longleftrightarrow> space_inv (v_user v) \<and> sp_end (v_user v) \<le> 2 ^ 47 \<and> vm_ok A (v_mach v) \<and>
     pages_ok A (sp_ranges (v_user v)) \<and> files_set (sp_ranges (v_user v))"

definition example_anon :: vmm_range where
  "example_anon = vmm_createRange 0x400000 0x403000 VM_FLAG_ALLOC 7"

definition example_vmm :: vmm where
  "example_vmm = \<lparr>v_mach = example_machine, v_files = (\<lambda>_. 0),
     v_kernel = \<lparr>sp_start = MMU_KERNELSPACE_START, sp_end = MMU_KERNELSPACE_END, sp_ranges = [],
       sp_metrics = \<lparr>anon_usage = 0, file_usage = 0, anon_resident = 0, file_resident = 0, stack = 0\<rparr>\<rparr>,
     v_user = \<lparr>sp_start = MMU_USERSPACE_START, sp_end = MMU_USERSPACE_END, sp_ranges = [example_anon],
       sp_metrics = \<lparr>anon_usage = 0x3000, file_usage = 0, anon_resident = 0, file_resident = 0, stack = 0\<rparr>\<rparr>\<rparr>"

lemma three_pages:
  assumes "(0x400000 :: nat) \<le> i" "i < 0x403000" "4096 dvd i"
  shows "i = 0x400000 \<or> i = 0x401000 \<or> i = 0x402000"
proof -
  from assms(3) obtain k where k: "i = 4096 * k" by (elim dvdE)
  with assms have "1024 \<le> k" "k < 1027" by simp_all
  then have "k = 1024 \<or> k = 1025 \<or> k = 1026" by auto
  with k show ?thesis by auto
qed

lemma example_user_inv: "user_inv [0x400000, 0x401000, 0x402000] example_vmm"
proof -
  have t: "table (mem example_machine) 8192 k v = (if k = 0 then Some 8192 else None)" for k v
    by (induction k) (simp_all add: example_machine_def)
  have d: "cur_dir example_machine = 8192" by (simp add: example_machine_def)
  have ph: "phys example_machine i = 0" for i
    by (simp add: phys_def pte_def t d MMU_PAGE_ADDR_def)
  have tab: "cur_table example_machine x \<Longrightarrow> x = 8192" for x
    using t by (auto simp: is_table_def d split: if_splits)
  have "page_refs (frames example_machine) 8192 = 1"
    by (simp add: page_refs_def example_machine_def PAGE_SIZE_def section_has_def)
  then have "of_bool (cur_table example_machine x) \<le> page_refs (frames example_machine) x" for x
    using tab [of x] by (cases "cur_table example_machine x") auto
  then have "vm_ok [0x400000, 0x401000, 0x402000] example_machine"
    using example_machine_facts(1) [of "{..<256}"] d
    by (simp add: vm_ok_def ph user_page_def PAGE_SIZE_def)
  moreover have "pages_ok [0x400000, 0x401000, 0x402000] [example_anon]"
    using three_pages by (auto simp: pages_ok_def example_anon_def vmm_createRange_def anon_def PAGE_SIZE_def
        VM_FLAG_ALLOC_def VM_FLAG_FILE_def VM_FLAG_DEVICE_def)
  ultimately show ?thesis
    by (simp add: user_inv_def example_vmm_def space_inv_def ranges_inv_def files_set_def example_anon_def
        vmm_createRange_def VM_FLAG_ALLOC_def VM_FLAG_FILE_def MMU_USERSPACE_START_def MMU_USERSPACE_END_def
        PAGE_SIZE_def)
qed



end
