(* ===== verification/Vmm_Fault.thy ===== *)
theory Vmm_Fault
  imports Vmm_Free
begin

text \<open>
  Page faults and the duplication of an address space, \<^verbatim>\<open>hexahedron/mm/vmmfault.c\<close> and \<^verbatim>\<open>vmmclone.c\<close>,
  and the creation of a context. Copy on write is switched off in \<^verbatim>\<open>vmmclone.c\<close> by its own
  \<^verbatim>\<open>#define DISABLE_COW\<close>, so the private pages are copied at once.
\<close>

section \<open>Definitions\<close>

definition MMU_USERMODE_STACK_REGION :: nat where "MMU_USERMODE_STACK_REGION = 0x0000060000000000"
definition MMU_USERMODE_STACK_SIZE :: nat where "MMU_USERMODE_STACK_SIZE = 0x0000010000000000"

definition VMM_FAULT_NONPRESENT :: u32 where "VMM_FAULT_NONPRESENT = 0x1"
definition VMM_FAULT_WRITE :: u32 where "VMM_FAULT_WRITE = 0x2"
definition VMM_FAULT_EXECUTE :: u32 where "VMM_FAULT_EXECUTE = 0x4"

datatype fault_result = VMM_FAULT_RESOLVED | VMM_FAULT_UNRESOLVED

datatype fault_from = VMM_FAULT_FROM_KERNEL | VMM_FAULT_FROM_USER

record fault_info =
  fi_from :: fault_from
  fi_type :: u32
  fi_address :: nat

text \<open>The macro \<open>PMM_REFCOUNT\<close>.\<close>

definition PMM_REFCOUNT :: "nat \<Rightarrow> pmm \<Rightarrow> nat outcome" where
  "PMM_REFCOUNT page p =
     obind (pmm_page_of (zone p) page) (\<lambda>(k, off).
     obind (aread (zone p) k) (\<lambda>s.
     obind (aread (s_pages s) off) (\<lambda>pg. Done (pg_refcount pg))))"

text \<open>
  Access to a page through the current directory, \<^verbatim>\<open>memset((void*)address, 0, PAGE_SIZE)\<close>, and the
  copy of a frame through the direct map. User memory is mapped by pages of 4 KiB only.
\<close>

definition virtual_page :: "nat \<Rightarrow> machine \<Rightarrow> nat option" where
  "virtual_page v m =
     (let e = pte m (cur_dir m) v in
      if e AND MMU_PAGE_FLAG_PRESENT = 0 then None else Some (unat (MMU_PAGE_ADDR e)))"

definition zero_virtual :: "nat \<Rightarrow> machine \<Rightarrow> machine outcome" where
  "zero_virtual v m = (case virtual_page v m of None \<Rightarrow> Fault | Some p \<Rightarrow> Done (zero_page p m))"

definition copy_page :: "nat \<Rightarrow> nat \<Rightarrow> machine \<Rightarrow> machine" where
  "copy_page dst src m = m\<lparr>mem := (mem m)(dst := mem m src)\<rparr>"

definition allowed_actions :: "vmm_range \<Rightarrow> u32" where
  "allowed_actions r =
     (if vr_mmu r AND MMU_FLAG_PRESENT \<noteq> 0 then VMM_FAULT_NONPRESENT else 0) OR
     (if vr_mmu r AND MMU_FLAG_WRITE \<noteq> 0 then VMM_FAULT_WRITE else 0) OR
     (if vr_mmu r AND MMU_FLAG_NOEXEC = 0 then VMM_FAULT_EXECUTE else 0)"

text \<open>
  The mapping of a page of a file is an operation of its driver; whether the driver has one, and
  what it does to the machine, are the parameters \<open>has_mmap\<close> and \<open>file_mmap\<close>.
\<close>

type_synonym file_mmap = "nat \<Rightarrow> nat \<Rightarrow> nat \<Rightarrow> nat \<Rightarrow> u64 \<Rightarrow> machine \<Rightarrow> (int \<times> machine) outcome"

text \<open>The page is not present: it is mapped from the file, or a frame is taken for it.\<close>

definition fault_file ::
  "(nat \<Rightarrow> bool) \<Rightarrow> file_mmap \<Rightarrow> nat \<Rightarrow> vmm_range \<Rightarrow> vctx \<Rightarrow> (fault_result \<times> vctx) outcome" where
  "fault_file has_mmap file_mmap address r c =
     (case vr_file r of None \<Rightarrow> Fault
      | Some (node, off) \<Rightarrow>
          let addr = PAGE_ALIGN_DOWN address;
              offset = off + (addr - vr_start r);
              mmu_flags = (if \<not> has_flag r VM_FLAG_SHARED then vr_mmu r AND NOT MMU_FLAG_WRITE else vr_mmu r) in
          oassert (has_mmap node) (
          obind (file_mmap node addr PAGE_SIZE offset mmu_flags (c_mach c)) (\<lambda>(res, m).
          if res \<noteq> 0 then Done (VMM_FAULT_UNRESOLVED, c\<lparr>c_mach := m\<rparr>)
          else Done (VMM_FAULT_RESOLVED, c\<lparr>c_mach := m,
            c_metrics := (c_metrics c)\<lparr>file_resident := file_resident (c_metrics c) + 4096\<rparr>\<rparr>))))"

definition fault_anon :: "nat \<Rightarrow> vmm_range \<Rightarrow> vctx \<Rightarrow> (fault_result \<times> vctx) outcome" where
  "fault_anon address r c =
     obind (alloc_frame (c_mach c)) (\<lambda>(pg, m1).
     obind (arch_mmu_map None address pg (vr_mmu r) m1) (\<lambda>m2.
     obind (if vr_mmu r AND MMU_FLAG_WRITE \<noteq> 0 then zero_virtual address m2 else Done m2) (\<lambda>m3.
     Done (VMM_FAULT_RESOLVED, c\<lparr>c_mach := m3,
       c_metrics := (c_metrics c)\<lparr>anon_resident := anon_resident (c_metrics c) + 4096\<rparr>\<rparr>))))"

text \<open>The page is present and not writable: it becomes writable, or a private copy replaces it.\<close>

definition fault_write :: "nat \<Rightarrow> vmm_range \<Rightarrow> vctx \<Rightarrow> (fault_result \<times> vctx) outcome" where
  "fault_write address r c =
     obind (arch_mmu_physical None address (c_mach c)) (\<lambda>phys.
     obind (if has_flag r VM_FLAG_SHARED then Done True
        else if has_flag r VM_FLAG_DEVICE then Done True
        else obind (PMM_REFCOUNT phys (frames (c_mach c))) (\<lambda>n. Done (n = 1))) (\<lambda>keep.
     if keep then
       obind (arch_mmu_map None address phys (vr_mmu r) (c_mach c)) (\<lambda>m.
       Done (VMM_FAULT_RESOLVED, c\<lparr>c_mach := m\<rparr>))
     else
       obind (alloc_frame (c_mach c)) (\<lambda>(new_phys, m1).
       obind (arch_mmu_map None address new_phys (vr_mmu r) (copy_page new_phys phys m1)) (\<lambda>m2.
       obind (if \<not> has_flag r VM_FLAG_FILE then free_frame phys m2 else Done m2) (\<lambda>m3.
       Done (VMM_FAULT_RESOLVED, c\<lparr>c_mach := m3\<rparr>))))))"

definition fault_range ::
  "(nat \<Rightarrow> bool) \<Rightarrow> file_mmap \<Rightarrow> nat \<Rightarrow> vmm_range \<Rightarrow> vctx \<Rightarrow> (fault_result \<times> vctx) outcome" where
  "fault_range has_mmap file_mmap address r c =
     obind (arch_mmu_read_flags None address (c_mach c)) (\<lambda>fl.
     if fl AND MMU_FLAG_PRESENT = 0 then
       (if has_flag r VM_FLAG_FILE then fault_file has_mmap file_mmap address r c else fault_anon address r c)
     else if fl AND MMU_FLAG_WRITE = 0 then fault_write address r c
     else Done (VMM_FAULT_RESOLVED, c))"

definition vmm_fault ::
  "(nat \<Rightarrow> bool) \<Rightarrow> file_mmap \<Rightarrow> fault_info \<Rightarrow> vmm \<Rightarrow> (fault_result \<times> vmm) outcome" where
  "vmm_fault has_mmap file_mmap info v =
     (if fi_address info < MMU_USERSPACE_START \<or> fi_address info \<ge> MMU_USERSPACE_END then Done (VMM_FAULT_UNRESOLVED, v)
      else
        let address = PAGE_ALIGN_DOWN (fi_address info) in
        if fi_from info = VMM_FAULT_FROM_KERNEL \<and> address < PAGE_SIZE then Done (VMM_FAULT_UNRESOLVED, v)
        else case vmm_getSpaceForAddress address v of
          None \<Rightarrow> Done (VMM_FAULT_UNRESOLVED, v)
        | Some sid \<Rightarrow>
            let sp = get_space sid v in
            (case vmm_getRange sp address 1 of
              None \<Rightarrow>
                if address \<ge> MMU_USERMODE_STACK_REGION \<and> address < MMU_USERMODE_STACK_REGION + MMU_USERMODE_STACK_SIZE then
                  obind (vmm_map (PAGE_ALIGN_DOWN address) PAGE_SIZE (VM_FLAG_FIXED OR VM_FLAG_ALLOC)
                    (MMU_FLAG_USER OR MMU_FLAG_WRITE OR MMU_FLAG_PRESENT) (0, 0) v) (\<lambda>(p, v1).
                  oassert (p = Some (PAGE_ALIGN_DOWN address)) (
                  let sp1 = get_space sid v1 in
                  Done (VMM_FAULT_RESOLVED, set_space sid
                    (sp1\<lparr>sp_metrics := (sp_metrics sp1)\<lparr>stack := stack (sp_metrics sp1) + 4096\<rparr>\<rparr>) v1)))
                else Done (VMM_FAULT_UNRESOLVED, v)
            | Some r \<Rightarrow>
                if fi_type info AND NOT (allowed_actions r) \<noteq> 0 then Done (VMM_FAULT_UNRESOLVED, v)
                else
                  obind (fault_range has_mmap file_mmap address r
                    \<lparr>c_mach = v_mach v, c_files = v_files v, c_metrics = sp_metrics sp\<rparr>) (\<lambda>(res, c).
                  Done (res, set_space sid (sp\<lparr>sp_metrics := c_metrics c\<rparr>)
                    (v\<lparr>v_mach := c_mach c, v_files := c_files c\<rparr>)))))"

text \<open>
  A new context: a directory with the kernel half of the kernel's directory, and an empty space.
  The slab cache that the structures come from is not part of the state.
\<close>

definition vmm_initializeContext :: "machine \<Rightarrow> (nat \<times> vmm_space \<times> machine) outcome" where
  "vmm_initializeContext m =
     obind (arch_mmu_new_dir m) (\<lambda>(dir, m1).
     Done (dir, \<lparr>sp_start = MMU_USERSPACE_START, sp_end = MMU_USERSPACE_END, sp_ranges = [],
       sp_metrics = \<lparr>anon_usage = 0, file_usage = 0, anon_resident = 0, file_resident = 0, stack = 0\<rparr>\<rparr>,
       arch_mmu_copy_kernel dir m1))"

text \<open>
  One page of a range that is duplicated into the directory \<open>dir\<close>; the copy reads the page through
  the current directory.
\<close>

definition read_virtual :: "nat \<Rightarrow> machine \<Rightarrow> (nat \<Rightarrow> u64) outcome" where
  "read_virtual v m = (case virtual_page v m of None \<Rightarrow> Fault | Some p \<Rightarrow> Done (mem m p))"

definition retain_frame :: "nat \<Rightarrow> machine \<Rightarrow> machine outcome" where
  "retain_frame p m = obind (pmm_retain (frames m) p) (\<lambda>fr. Done (m\<lparr>frames := fr\<rparr>))"

definition clone_page :: "nat \<Rightarrow> vmm_range \<Rightarrow> nat \<Rightarrow> machine \<Rightarrow> machine outcome" where
  "clone_page dir nrange i m =
     obind (arch_mmu_read_flags None i m) (\<lambda>fl.
     if fl AND MMU_FLAG_PRESENT = 0 then Done m
     else
       obind (arch_mmu_physical None i m) (\<lambda>phys.
       if phys = 0 then Done m
       else if has_flag nrange VM_FLAG_DEVICE then arch_mmu_map (Some dir) i phys (vr_mmu nrange) m
       else if has_flag nrange VM_FLAG_SHARED then
         obind (retain_frame phys m) (\<lambda>m1. arch_mmu_map (Some dir) i phys (vr_mmu nrange) m1)
       else
         obind (alloc_frame m) (\<lambda>(new, m1).
         obind (read_virtual i m1) (\<lambda>page.
         arch_mmu_map (Some dir) i new (vr_mmu nrange) (m1\<lparr>mem := (mem m1)(new := page)\<rparr>)))))"

definition clone_range ::
  "nat \<Rightarrow> vmm_range \<Rightarrow> vmm_space \<times> machine \<times> (nat \<Rightarrow> int) \<Rightarrow> (vmm_space \<times> machine \<times> (nat \<Rightarrow> int)) outcome" where
  "clone_range dir rg = (\<lambda>(sp, m, files).
     let nrange = (vmm_createRange (vr_start rg) (vr_end rg) (vr_flags rg) (vr_mmu rg))
           \<lparr>vr_file := (if has_flag rg VM_FLAG_FILE then vr_file rg else None)\<rparr> in
     obind (vmm_insertRange sp nrange) (\<lambda>sp1.
     obind (if has_flag rg VM_FLAG_FILE then
         (case vr_file rg of None \<Rightarrow> Fault | Some (node, off) \<Rightarrow> Done (files(node := files node + 1)))
       else Done files) (\<lambda>files1.
     obind (ofold (clone_page dir nrange) (page_addrs (vr_start nrange) (vr_end nrange)) m) (\<lambda>m1.
     Done (sp1, m1, files1)))))"

definition vmm_clone :: "vmm \<Rightarrow> (nat \<times> vmm_space \<times> vmm) outcome" where
  "vmm_clone v =
     obind (vmm_initializeContext (v_mach v)) (\<lambda>(dir, sp, m).
     obind (ofold (clone_range dir) (sp_ranges (v_user v)) (sp, m, v_files v)) (\<lambda>(sp1, m1, files1).
     Done (dir, sp1, v\<lparr>v_mach := m1, v_files := files1\<rparr>)))"

section \<open>Frames\<close>

lemma free_refs:
  assumes "zone_inv (zone (frames m))" "free_page m x"
  shows "page_refs (frames m) x = 0"
proof -
  from assms(2) obtain pg where pg: "frame (zone (frames m)) x = Some pg" "pg_free pg"
    by (auto simp: free_page_def)
  with frame_page_inv [OF assms(1) pg(1)] have "pg_refcount pg = 0" by auto
  with pg show ?thesis by (simp add: page_refs_def)
qed

lemma alloc_inv:
  assumes inv: "mmu_inv V dir m" and free: "0 < zone_free (zone (frames m))"
  obtains x m' where "alloc_frame m = Done (x, m')" "mmu_inv V dir m'" "mem m' = mem m" "cur_dir m' = cur_dir m"
    "kernel_pml m' = kernel_pml m" "entry_addr x" "free_page m x" "\<not> free_page m' x" "x \<noteq> 0" "page_refs (frames m) x = 0"
    "page_refs (frames m') = (page_refs (frames m))(x := 1)"
    "zone_free (zone (frames m)) = zone_free (zone (frames m')) + 1" "PAGE_SIZE dvd x"
    "\<And>q. free_page m' q \<Longrightarrow> free_page m q"
proof -
  note z = mmu_invD(1) [OF inv]
  obtain x p' pg where a: "pmm_allocatePage (frames m) = Done (x, p')" "zone_inv (zone p')"
    "placed (zone p') = placed (zone (frames m))" "PAGE_SIZE dvd x" "0 < x" "frame (zone (frames m)) x = Some pg"
    "pg_free pg" "pg_refcount pg = 0"
    "frame (zone p') = (\<lambda>y. if same_page y x then Some (taken pg) else frame (zone (frames m)) y)"
    "zone_free (zone (frames m)) = zone_free (zone p') + 1"
    by (rule pmm_allocatePage_ok [OF z free]) (rule that)
  define m' where "m' = m\<lparr>frames := p'\<rparr>"
  have m': "alloc_frame m = Done (x, m')" using a(1) by (simp add: alloc_frame_def m'_def)
  obtain y m2 where y: "alloc_frame m = Done (y, m2)" "entry_addr y" "free_page m y" "\<not> free_page m2 y"
    by (rule alloc_frame_ok [OF inv free]) (rule that)
  then have e: "entry_addr x" "free_page m x" "\<not> free_page m' x" using m' by auto
  have f: "free_page m q" if "free_page m' q" for q
    using that a(9) pg_free_taken by (auto simp: free_page_def m'_def split: if_splits)
  have "page_refs p' q = (if q = x then 1 else page_refs (frames m) q)" for q
  proof (cases "PAGE_SIZE dvd q")
    case True
    then show ?thesis using a(4,9) aligned_same_page [OF True a(4)] by (simp add: page_refs_def taken_def)
  next
    case False
    with a(4) show ?thesis by (auto simp: page_refs_def)
  qed
  moreover have "\<not> free_page m' t" if "is_table V dir m t" for t
    using f [of t] that mmu_invD(4) [OF inv] unfolding is_table_def by blast
  then have "mmu_inv V dir m'" by (intro mmu_inv_frames [OF inv]) (simp_all add: m'_def a(2,3))
  ultimately show ?thesis
    using m' e f a(4,5,10) free_refs [OF z e(2)] that [of x m'] by (simp add: m'_def fun_eq_iff)
qed

lemma keeps_refs:
  assumes inv: "mmu_inv V dir m" and k: "keeps V dir m m'"
  obtains S where "\<And>q. is_table V dir m' q \<longleftrightarrow> is_table V dir m q \<or> q \<in> S"
    "\<And>q. q \<in> S \<Longrightarrow> free_page m q \<and> page_refs (frames m) q = 0 \<and> page_refs (frames m') q = 1"
    "\<And>q. q \<notin> S \<Longrightarrow> page_refs (frames m') q = page_refs (frames m) q"
proof -
  from k obtain S where S: "took S V dir m m'" by (auto simp: keeps_def)
  have "page_refs (frames m') q = page_refs (frames m) q" if "q \<notin> S" for q
    using that S align_self [of q] by (auto simp: took_def page_refs_def)
  moreover have "free_page m q \<and> page_refs (frames m) q = 0 \<and> page_refs (frames m') q = 1" if q: "q \<in> S" for q
  proof -
    have f: "free_page m q" "PAGE_SIZE dvd q" using S q by (auto simp: took_def)
    then show ?thesis
      using S q free_refs [OF mmu_invD(1) [OF inv] f(1)] align_self [OF f(2)]
      by (auto simp: took_def page_refs_def free_page_def taken_def)
  qed
  ultimately show ?thesis using S that [of S] by (auto simp: took_def)
qed

text \<open>A user page is mapped to a frame that has a reference for it.\<close>

lemma map_user_page:
  assumes inv: "mmu_inv {..<256} (cur_dir m) m" and i: "user_page i" and free: "3 \<le> zone_free (zone (frames m))"
    and x: "entry_addr x"
    and A: "distinct A" "\<forall>j \<in> set A. user_page j"
    and refs: "\<And>y. y \<noteq> 0 \<Longrightarrow> length (filter (\<lambda>j. phys m j = y) (remove1 i A)) +
      of_bool (i \<in> set A \<and> x = y) + of_bool (cur_table m y) \<le> page_refs (frames m) y"
  obtains m' where "arch_mmu_map None i x f m = Done m'" "vm_ok A m'" "cur_dir m' = cur_dir m"
    "keeps {..<256} (cur_dir m) m m'"
    "\<And>w. user_page w \<Longrightarrow> pte m' (cur_dir m) w = (if w = i then map_entry x f else pte m (cur_dir m) w)"
proof -
  have u: "level_index 0 i \<in> {..<256}" "MMU_IS_CANONICAL i" using user_page_addr [OF i] by auto
  obtain m' where m': "arch_mmu_map None i x f m = Done m'" "mmu_inv {..<256} (cur_dir m) m'"
    "keeps {..<256} (cur_dir m) m m'"
    "\<And>w. level_index 0 w \<in> {..<256} \<Longrightarrow> MMU_IS_CANONICAL w \<Longrightarrow>
       pte m' (cur_dir m) w = (if same_page i w then map_entry x f else pte m (cur_dir m) w)"
    by (rule map_ok [OF inv u _ free, of None x f]) (use that in \<open>auto simp: arch_mmu_dir_def\<close>)
  have d: "cur_dir m' = cur_dir m" using m'(3) by (simp add: keeps_def)
  have p: "pte m' (cur_dir m) w = (if w = i then map_entry x f else pte m (cur_dir m) w)" if "user_page w" for w
    using m'(4) [of w] user_page_addr [OF that] that i aligned_same_page [of i w] by (auto simp: user_page_def)
  obtain S where S: "\<And>q. is_table {..<256} (cur_dir m) m' q \<longleftrightarrow> cur_table m q \<or> q \<in> S"
    "\<And>q. q \<in> S \<Longrightarrow> free_page m q \<and> page_refs (frames m) q = 0 \<and> page_refs (frames m') q = 1"
    "\<And>q. q \<notin> S \<Longrightarrow> page_refs (frames m') q = page_refs (frames m) q"
    by (rule keeps_refs [OF inv m'(3)]) (rule that)
  have ph: "phys m' i = x" "j \<in> set (remove1 i A) \<Longrightarrow> phys m' j = phys m j" for j
    using p [of i] p [of j] i A x d set_remove1_subset [of i A]
    by (auto simp: phys_def map_entry_addr)
  have cnt: "length (filter (\<lambda>j. phys m' j = y) A) =
      length (filter (\<lambda>j. phys m j = y) (remove1 i A)) + of_bool (i \<in> set A \<and> x = y)" for y
  proof (cases "i \<in> set A")
    case True
    have "filter (\<lambda>j. phys m' j = y) (remove1 i A) = filter (\<lambda>j. phys m j = y) (remove1 i A)"
      using ph(2) by (auto intro: filter_cong)
    with length_filter_remove1 [OF True, of "\<lambda>j. phys m' j = y"] ph(1) True show ?thesis by simp
  next
    case False
    then have "remove1 i A = A" by (simp add: remove1_idem)
    with ph(2) False show ?thesis by (auto intro!: arg_cong [of _ _ length] filter_cong)
  qed
  have "length (filter (\<lambda>j. phys m' j = y) A) + of_bool (cur_table m' y) \<le> page_refs (frames m') y" if y: "y \<noteq> 0" for y
    using refs [OF y] S(1) [of y] S(2) [of y] S(3) [of y] d unfolding cnt by (cases "y \<in> S") auto
  then have "vm_ok A m'" using m'(2) d A by (simp add: vm_ok_def)
  with that m'(1,3) d p show ?thesis by blast
qed

section \<open>Anonymous memory\<close>

lemma pat_index_bit: "n < 8 \<Longrightarrow> \<not> bit (pat_indexes ! n) 0"
  by (auto simp: pat_indexes_def mmu_flag_defs less_Suc_eq eval_nat_numeral bit_simps)

lemma entry_absent: "entry_flags e AND MMU_FLAG_PRESENT = 0 \<longleftrightarrow> e AND MMU_PAGE_FLAG_PRESENT = 0"
  unfolding entry_flags_def mmu_flag_test bit_or_iff translate_flag_bit mmu_flag_bit page_flag_test
  using pat_index_bit by auto

lemma table_untouched:
  assumes "\<And>q. is_table V dir m q \<Longrightarrow> pm q = mem m q" "level_index 0 v \<in> V"
  shows "k \<le> 3 \<Longrightarrow> table pm dir k v = table (mem m) dir k v"
proof (induction k)
  case (Suc k)
  have "pm t = mem m t" if "table (mem m) dir k v = Some t" for t
    using assms that Suc.prems unfolding is_table_def by (metis Suc_leD)
  with Suc show ?case by (auto split: option.split)
qed simp

text \<open>Writing a page that is not a table keeps all mappings.\<close>

lemma write_page_keeps:
  fixes f :: "nat \<Rightarrow> u64"
  assumes inv: "mmu_inv V dir m" and x: "\<not> is_table V dir m x"
  defines "m' \<equiv> m\<lparr>mem := (mem m)(x := f)\<rparr>"
  shows "mmu_inv V dir m'" "is_table V dir m' = is_table V dir m"
    "\<And>w. level_index 0 w \<in> V \<Longrightarrow> pte m' dir w = pte m dir w"
proof -
  have t: "table (mem m') dir k v = table (mem m) dir k v" if "level_index 0 v \<in> V" "k \<le> 3" for k v
    unfolding m'_def using x by (intro table_untouched [OF _ that]) auto
  have f: "free_page m' = free_page m" "frames m' = frames m" by (simp_all add: fun_eq_iff free_page_def m'_def)
  show "is_table V dir m' = is_table V dir m" using t unfolding is_table_def fun_eq_iff by (metis (no_types, lifting))
  show "mmu_inv V dir m'" using inv t unfolding mmu_inv_def f by auto
  fix w assume w: "level_index 0 w \<in> V"
  have "mem m' q = mem m q" if "table (mem m) dir 3 w = Some q" for q
    using x w that by (auto simp: m'_def is_table_def)
  then show "pte m' dir w = pte m dir w" using t [OF w, of 3] by (auto simp: pte_def split: option.split)
qed

lemma write_page_vm_ok:
  assumes ok: "vm_ok A m" and x: "\<not> cur_table m x"
  shows "vm_ok A (m\<lparr>mem := (mem m)(x := f)\<rparr>)"
proof -
  have inv: "mmu_inv {..<256} (cur_dir m) m" using ok by (simp add: vm_ok_def)
  note w = write_page_keeps [OF inv x, where f = f]
  have "phys (m\<lparr>mem := (mem m)(x := f)\<rparr>) j = phys m j" if "j \<in> set A" for j
    using w(3) [of j] ok that user_page_addr [of j] by (simp add: phys_def vm_ok_def)
  then have "filter (\<lambda>j. phys (m\<lparr>mem := (mem m)(x := f)\<rparr>) j = y) A = filter (\<lambda>j. phys m j = y) A" for y
    by (auto intro: filter_cong)
  with ok w(1,2) show ?thesis by (simp add: vm_ok_def)
qed

text \<open>A frame is taken for a page.\<close>

lemma fault_anon_ok:
  assumes ok: "vm_ok A (c_mach c)" and i: "user_page i" and present: "vr_mmu r AND MMU_FLAG_PRESENT \<noteq> 0"
    and free: "4 \<le> zone_free (zone (frames (c_mach c)))"
  shows "\<exists>x c'. fault_anon i r c = Done (VMM_FAULT_RESOLVED, c') \<and> vm_ok A (c_mach c') \<and>
    c_files c' = c_files c \<and> free_page (c_mach c) x \<and> cur_dir (c_mach c') = cur_dir (c_mach c) \<and>
    (\<forall>w. user_page w \<longrightarrow> pte (c_mach c') (cur_dir (c_mach c)) w =
      (if w = i then map_entry x (vr_mmu r) else pte (c_mach c) (cur_dir (c_mach c)) w)) \<and>
    mem (c_mach c') x = (if vr_mmu r AND MMU_FLAG_WRITE \<noteq> 0 then (\<lambda>_. 0) else mem (c_mach c) x)"
proof -
  define m where "m = c_mach c"
  have inv: "mmu_inv {..<256} (cur_dir m) m" using ok by (simp add: vm_ok_def m_def)
  obtain x m1 where m1: "alloc_frame m = Done (x, m1)" "mmu_inv {..<256} (cur_dir m) m1" "mem m1 = mem m"
    "cur_dir m1 = cur_dir m" "kernel_pml m1 = kernel_pml m" "entry_addr x" "free_page m x" "\<not> free_page m1 x"
    "x \<noteq> 0" "page_refs (frames m) x = 0" "page_refs (frames m1) = (page_refs (frames m))(x := 1)"
    "zone_free (zone (frames m)) = zone_free (zone (frames m1)) + 1" "PAGE_SIZE dvd x"
    by (rule alloc_inv [OF inv]) (use free in \<open>simp add: m_def\<close>)
  have tab: "cur_table m1 y = cur_table m y" and ph: "phys m1 j = phys m j" and pt: "pte m1 d j = pte m d j" for y j d
    unfolding is_table_def phys_def pte_def m1(3,4) by (rule refl)+
  have nt: "\<not> cur_table m x" using mmu_invD(4) [OF inv] m1(7) unfolding is_table_def by blast
  have A: "distinct A" "\<forall>j \<in> set A. user_page j" using ok by (auto simp: vm_ok_def)
  have refs: "length (filter (\<lambda>j. phys m1 j = y) (remove1 i A)) + of_bool (i \<in> set A \<and> x = y) + of_bool (cur_table m1 y)
      \<le> page_refs (frames m1) y" if y: "y \<noteq> 0" for y
  proof -
    have b: "length (filter (\<lambda>j. phys m j = y) A) + of_bool (cur_table m y) \<le> page_refs (frames m) y"
      using ok y by (simp add: vm_ok_def m_def)
    have "length (filter (\<lambda>j. phys m j = y) (remove1 i A)) \<le> length (filter (\<lambda>j. phys m j = y) A)"
      using length_filter_remove1 [of i A "\<lambda>j. phys m j = y"] by (cases "i \<in> set A") (simp_all add: remove1_idem)
    with b nt m1(10) show ?thesis unfolding ph tab m1(11) by (cases "y = x") auto
  qed
  obtain m2 where m2: "arch_mmu_map None i x (vr_mmu r) m1 = Done m2" "vm_ok A m2" "cur_dir m2 = cur_dir m1"
    "keeps {..<256} (cur_dir m1) m1 m2"
    "\<And>w. user_page w \<Longrightarrow> pte m2 (cur_dir m1) w = (if w = i then map_entry x (vr_mmu r) else pte m1 (cur_dir m1) w)"
    by (rule map_user_page [OF _ i _ m1(6) A refs, where f = "vr_mmu r"])
      (use m1(2,4,12) free in \<open>auto simp: m_def\<close>)
  have mx: "mem m2 x = mem m x"
    using m2(4) m1(3,8) nt tab [of x] unfolding keeps_def by metis
  have nt2: "\<not> cur_table m2 x"
  proof -
    have inv1: "mmu_inv {..<256} (cur_dir m1) m1" using m1(2,4) by simp
    obtain S where "\<And>q. is_table {..<256} (cur_dir m1) m2 q \<longleftrightarrow> cur_table m1 q \<or> q \<in> S"
      "\<And>q. q \<in> S \<Longrightarrow> free_page m1 q \<and> page_refs (frames m1) q = 0 \<and> page_refs (frames m2) q = 1"
      by (rule keeps_refs [OF inv1 m2(4)]) blast
    with m1(8) nt tab m2(3) show ?thesis by auto
  qed
  have vp: "virtual_page i m2 = Some x"
    using m2(3) m2(5) [of i] i present map_entry_bits(1) [of x "vr_mmu r"] map_entry_addr [OF m1(6)]
    by (simp add: virtual_page_def Let_def page_flag_test mmu_flag_test)
  show ?thesis
  proof (cases "vr_mmu r AND MMU_FLAG_WRITE \<noteq> 0")
    case True
    have p: "pte (zero_page x m2) (cur_dir m2) w = pte m2 (cur_dir m2) w" if "user_page w" for w
      unfolding zero_page_def using m2(2) nt2 user_page_addr [OF that]
      by (intro write_page_keeps(3)) (auto simp: vm_ok_def)
    have "vm_ok A (zero_page x m2)" unfolding zero_page_def by (rule write_page_vm_ok [OF m2(2) nt2])
    with True vp m1 m2 p show ?thesis
      by (auto simp: fault_anon_def m_def [symmetric] zero_virtual_def pt zero_page_def intro!: exI [of _ x])
  next
    case False
    with m1 m2 mx show ?thesis
      by (auto simp: fault_anon_def m_def [symmetric] pt intro!: exI [of _ x])
  qed
qed

lemma get_range_of:
  assumes "ranges_inv lo hi rs" "r \<in> set rs" "vr_start r \<le> a" "a < vr_end r"
  shows "get_range rs a (Suc a) = Some r"
  using assms
proof (induction rs)
  case (Cons s rs)
  then show ?case by (auto simp: ranges_inv_Cons RANGE_IN_RANGE_def)
qed simp

section \<open>Properties\<close>

text \<open>The bounds of the spaces that the kernel sets up.\<close>

definition vmm_layout :: "vmm \<Rightarrow> bool" where
  "vmm_layout v \<longleftrightarrow> sp_start (v_kernel v) = MMU_KERNELSPACE_START \<and>
     sp_start (v_user v) = MMU_USERSPACE_START \<and> sp_end (v_user v) = MMU_USERSPACE_END"

lemma user_space_of: "vmm_layout v \<Longrightarrow> a < 2 ^ 47 \<Longrightarrow> vmm_getSpaceForAddress a v = Some User"
  by (simp add: vmm_layout_def vmm_getSpaceForAddress_def MMU_KERNELSPACE_START_def MMU_USERSPACE_START_def
      MMU_USERSPACE_END_def)

text \<open>
  C8. A permitted access to a page of anonymous memory that is not present is resolved: the page is mapped to a
  frame that was free, with the protection of its range, all other pages of the process keep their mapping, and
  every frame still has the references that its mappings need. The new page reads as zeros if the range is
  writable. If it is read-only, the page shows what the previous owner of the frame left in it.
\<close>

theorem vmm_fault_anon:
  assumes "user_inv A v" "vmm_layout v" "r \<in> set (sp_ranges (v_user v))" "anon r"
    "vr_start r \<le> i" "i < vr_end r" "user_page i" "i \<noteq> 0"
    "PAGE_ALIGN_DOWN (fi_address info) = i" "fi_address info < 2 ^ 47"
    "fi_type info AND NOT (allowed_actions r) = 0" "vr_mmu r AND MMU_FLAG_PRESENT \<noteq> 0"
    "pte (v_mach v) (cur_dir (v_mach v)) i AND MMU_PAGE_FLAG_PRESENT = 0"
    "4 \<le> zone_free (zone (frames (v_mach v)))"
  shows "\<exists>v' x. vmm_fault has_mmap file_mmap info v = Done (VMM_FAULT_RESOLVED, v') \<and> user_inv A v' \<and>
    sp_ranges (v_user v') = sp_ranges (v_user v) \<and> free_page (v_mach v) x \<and>
    (\<forall>w. user_page w \<longrightarrow> pte (v_mach v') (cur_dir (v_mach v)) w =
      (if w = i then map_entry x (vr_mmu r) else pte (v_mach v) (cur_dir (v_mach v)) w)) \<and>
    mem (v_mach v') x = (if vr_mmu r AND MMU_FLAG_WRITE \<noteq> 0 then (\<lambda>_. 0) else mem (v_mach v) x)"
proof -
  have ok: "vm_ok A (c_mach (ctx_of v))" and ri: "ranges_inv (sp_start (v_user v)) (sp_end (v_user v)) (sp_ranges (v_user v))"
    using assms(1) by (simp_all add: user_inv_def space_inv_def)
  have i: "i < 2 ^ 47" "PAGE_SIZE \<le> i"
    using assms(7,8) by (auto simp: user_page_def dest: dvd_imp_le)
  have g: "vmm_getRange (v_user v) i 1 = Some r"
    using get_range_of [OF ri assms(3,5,6)] i(1) by (simp add: vmm_getRange_def add64_def)
  have nf: "\<not> has_flag r VM_FLAG_FILE" using assms(4) by (simp add: anon_def)
  obtain x c' where c': "fault_anon i r (ctx_of v) = Done (VMM_FAULT_RESOLVED, c')" "vm_ok A (c_mach c')"
    "free_page (v_mach v) x" "cur_dir (c_mach c') = cur_dir (v_mach v)"
    "\<forall>w. user_page w \<longrightarrow> pte (c_mach c') (cur_dir (v_mach v)) w =
      (if w = i then map_entry x (vr_mmu r) else pte (v_mach v) (cur_dir (v_mach v)) w)"
    "mem (c_mach c') x = (if vr_mmu r AND MMU_FLAG_WRITE \<noteq> 0 then (\<lambda>_. 0) else mem (v_mach v) x)"
    using fault_anon_ok [OF ok assms(7,12)] assms(14) by auto
  have fr: "fault_range has_mmap file_mmap i r (ctx_of v) = Done (VMM_FAULT_RESOLVED, c')"
    using assms(13) nf c'(1) by (simp add: fault_range_def read_flags_eq entry_absent arch_mmu_dir_def)
  define v' where "v' = v\<lparr>v_mach := c_mach c', v_files := c_files c', v_user := (v_user v)\<lparr>sp_metrics := c_metrics c'\<rparr>\<rparr>"
  have v': "v_mach v' = c_mach c'" "sp_ranges (v_user v') = sp_ranges (v_user v)" by (simp_all add: v'_def)
  have "vmm_fault has_mmap file_mmap info v = Done (VMM_FAULT_RESOLVED, v')"
    using fr assms(9,10,11) i g user_space_of [OF assms(2) i(1)]
    by (simp add: vmm_fault_def Let_def MMU_USERSPACE_START_def MMU_USERSPACE_END_def v'_def)
  moreover have "user_inv A v'" using c'(2) assms(1) by (simp add: user_inv_def space_inv_def v'_def)
  ultimately show ?thesis using c'(3-6) v' by (intro exI [of _ v'] exI [of _ x]) simp
qed

theorem vmm_fault_anon_witness:
  "\<exists>v' x. vmm_fault (\<lambda>_. True) (\<lambda>_ _ _ _ _ m. Done (0, m))
      \<lparr>fi_from = VMM_FAULT_FROM_USER, fi_type = VMM_FAULT_NONPRESENT OR VMM_FAULT_WRITE, fi_address = 0x401234\<rparr>
      example_vmm = Done (VMM_FAULT_RESOLVED, v') \<and>
    pte (v_mach v') 8192 0x401000 = map_entry x 7 \<and> mem (v_mach v') x = (\<lambda>_. 0)"
proof -
  let ?i = "\<lparr>fi_from = VMM_FAULT_FROM_USER, fi_type = VMM_FAULT_NONPRESENT OR VMM_FAULT_WRITE,
    fi_address = 0x401234\<rparr> :: fault_info"
  have t: "table (mem example_machine) 8192 3 v = None" for v
    by (simp add: example_machine_def numeral_3_eq_3)
  have e: "v_mach example_vmm = example_machine" "sp_ranges (v_user example_vmm) = [example_anon]"
    "cur_dir example_machine = 8192"
    by (simp_all add: example_vmm_def example_machine_def)
  have r: "anon example_anon" "vr_start example_anon = 0x400000" "vr_end example_anon = 0x403000"
    "vr_mmu example_anon = 7"
    by (simp_all add: example_anon_def vmm_createRange_def anon_def VM_FLAG_ALLOC_def VM_FLAG_FILE_def VM_FLAG_DEVICE_def)
  have f: "(7 :: u64) AND MMU_FLAG_PRESENT \<noteq> 0" "(7 :: u64) AND MMU_FLAG_WRITE \<noteq> 0" "(7 :: u64) AND MMU_FLAG_NOEXEC = 0"
    by (simp_all add: mmu_flag_defs)
  have "fi_type ?i AND NOT (allowed_actions example_anon) = 0"
    by (simp add: allowed_actions_def r f VMM_FAULT_NONPRESENT_def VMM_FAULT_WRITE_def VMM_FAULT_EXECUTE_def)
  moreover have "vmm_layout example_vmm" by (simp add: vmm_layout_def example_vmm_def)
  ultimately show ?thesis
    using vmm_fault_anon [OF example_user_inv, of example_anon "0x401000" ?i "\<lambda>_. True" "\<lambda>_ _ _ _ _ m. Done (0, m)"] r f
    by (auto simp: e user_page_def PAGE_SIZE_def PAGE_ALIGN_DOWN_def pte_def t example_machine_facts(2))
qed

end
