(* ===== verification/Vmm_Checks.thy ===== *)
theory Vmm_Checks
  imports Vmm_Fault
begin

text \<open>
  The validation of user pointers and the change of protection, \<open>vmm_validate\<close> and \<open>vmm_update\<close> of
  \<^verbatim>\<open>hexahedron/mm/vmm.c\<close>.
\<close>

section \<open>User pointers\<close>

text \<open>The address lies in a range that user mode may access.\<close>

definition user_accessible :: "vmm_range list \<Rightarrow> nat \<Rightarrow> bool" where
  "user_accessible rs a \<longleftrightarrow> (\<exists>f p. prot_at rs a = Some (f, p) \<and> p AND MMU_FLAG_USER \<noteq> 0)"

lemma page_in_range:
  assumes "PAGE_SIZE dvd i" "PAGE_SIZE dvd b" "i < b"
  shows "i + PAGE_SIZE \<le> b"
  using assms by (auto simp: PAGE_SIZE_def elim!: dvdE)

text \<open>The range of a page is the range of each of its addresses.\<close>

lemma page_range:
  assumes "ranges_inv lo hi rs" "PAGE_SIZE dvd i" "i \<le> a" "a < i + PAGE_SIZE"
  shows "map_option (\<lambda>r. (vr_flags r, vr_mmu r)) (get_range rs i (i + PAGE_SIZE)) = prot_at rs a"
  using assms(1)
proof (induction rs)
  case Nil
  then show ?case by (simp add: prot_at_def)
next
  case (Cons r rs)
  then have r: "PAGE_SIZE dvd vr_start r" "PAGE_SIZE dvd vr_end r" by (auto simp: ranges_inv_Cons)
  have "vr_start r \<le> a \<and> a < vr_end r \<longleftrightarrow> vr_start r \<le> i \<and> i + PAGE_SIZE \<le> vr_end r"
    using assms(2-4) page_in_range [OF assms(2) r(2)] page_in_range [OF assms(2) r(1)] by (cases "i < vr_start r") auto
  with Cons show ?case by (auto simp: ranges_inv_Cons prot_at_def RANGE_IN_RANGE_def)
qed

lemma page_allowed_iff:
  assumes "ranges_inv lo (sp_end sp) (sp_ranges sp)" "PAGE_SIZE dvd i" "i \<le> a" "a < i + PAGE_SIZE" "i + PAGE_SIZE < 2 ^ 64"
  shows "page_allowed sp (VMM_PTR_USER OR VMM_PTR_STRICT) i \<longleftrightarrow> user_accessible (sp_ranges sp) a"
proof -
  have f: "(VMM_PTR_USER OR VMM_PTR_STRICT) AND VMM_PTR_USER \<noteq> 0" "(VMM_PTR_USER OR VMM_PTR_STRICT) AND VMM_PTR_STRICT \<noteq> 0"
    by (simp_all add: VMM_PTR_USER_def VMM_PTR_STRICT_def)
  have "vmm_getRange sp i PAGE_SIZE = get_range (sp_ranges sp) i (i + PAGE_SIZE)"
    using assms(5) by (simp add: vmm_getRange_def add64_def)
  then show ?thesis unfolding page_allowed_def user_accessible_def page_range [OF assms(1-4), symmetric]
    using f by (cases "get_range (sp_ranges sp) i (i + PAGE_SIZE)") simp_all
qed

lemma accessible_bound:
  "ranges_inv lo hi rs \<Longrightarrow> user_accessible rs a \<Longrightarrow> a < hi"
proof (induction rs)
  case (Cons r rs)
  then show ?case
    by (cases "vr_start r \<le> a \<and> a < vr_end r") (auto simp: ranges_inv_Cons user_accessible_def prot_at_def)
qed (simp add: user_accessible_def prot_at_def)

lemma align_down_bounds: "PAGE_ALIGN_DOWN a \<le> a" "a < PAGE_ALIGN_DOWN a + PAGE_SIZE" "PAGE_SIZE dvd PAGE_ALIGN_DOWN a"
  using div_mult_mod_eq [of a PAGE_SIZE] by (simp_all add: PAGE_ALIGN_DOWN_def PAGE_SIZE_def)

lemma align_down_ge: "PAGE_SIZE dvd b \<Longrightarrow> b \<le> a \<Longrightarrow> b \<le> PAGE_ALIGN_DOWN a"
  by (auto simp: PAGE_ALIGN_DOWN_def PAGE_SIZE_def elim!: dvdE)

text \<open>
  C29. For a page-aligned user pointer and a size that does not reach past the top of the address space, the
  strict check of a user pointer succeeds exactly when every address of the pages of the buffer lies in a range
  that user mode may access.
\<close>

theorem vmm_validate_exact:
  assumes "space_inv (v_user v)" "vmm_layout v" "PAGE_SIZE dvd start" "start \<noteq> 0" "start < 2 ^ 47"
    "0 < sz" "sz \<le> 2 ^ 64 - PAGE_SIZE" "start + page_size_up sz < 2 ^ 64 - PAGE_SIZE"
  shows "vmm_validate start sz (VMM_PTR_USER OR VMM_PTR_STRICT) v \<longleftrightarrow>
    (\<forall>a. start \<le> a \<longrightarrow> a < start + page_size_up sz \<longrightarrow> user_accessible (sp_ranges (v_user v)) a)"
proof -
  let ?n = "page_size_up sz" and ?rs = "sp_ranges (v_user v)"
  have ri: "ranges_inv (sp_start (v_user v)) (sp_end (v_user v)) ?rs" using assms(1) by (simp add: space_inv_def)
  have n: "PAGE_SIZE dvd ?n" "0 < ?n"
    using assms(6,7) by (auto simp: page_size_up_def align_up64_def PAGE_ALIGN_DOWN_def PAGE_SIZE_def dvd_eq_mod_eq_0
        div_greater_zero_iff)
  have ends: "sp_start (v_user v) = 0" "sp_end (v_user v) = 2 ^ 47"
    using assms(2) by (simp_all add: vmm_layout_def MMU_USERSPACE_START_def MMU_USERSPACE_END_def)
  have pages: "set (page_addrs start (start + ?n)) = {i. start \<le> i \<and> i < start + ?n \<and> PAGE_SIZE dvd i}"
    using page_addrs_set(1) [of start "start + ?n"] assms(3) n by simp
  have "vmm_validate start sz (VMM_PTR_USER OR VMM_PTR_STRICT) v \<longleftrightarrow> start + ?n \<le> 2 ^ 47 \<and>
      (\<forall>i. start \<le> i \<and> i < start + ?n \<and> PAGE_SIZE dvd i \<longrightarrow> page_allowed (v_user v) (VMM_PTR_USER OR VMM_PTR_STRICT) i)"
    using assms(3,4,5,8) user_space_of [OF assms(2,5)]
    by (auto simp: vmm_validate_def Let_def align_self add64_def RANGE_IN_RANGE_def ends list_all_iff pages)
  also have "\<dots> \<longleftrightarrow> start + ?n \<le> 2 ^ 47 \<and> (\<forall>a. start \<le> a \<longrightarrow> a < start + ?n \<longrightarrow> user_accessible ?rs a)"
  proof -
    have pa: "page_allowed (v_user v) (VMM_PTR_USER OR VMM_PTR_STRICT) i \<longleftrightarrow> user_accessible ?rs a"
      if "PAGE_SIZE dvd i" "i \<le> a" "a < i + PAGE_SIZE" "i < start + ?n" for i a
      using that assms(8) by (intro page_allowed_iff [OF ri]) auto
    have d: "start \<le> PAGE_ALIGN_DOWN a" "PAGE_ALIGN_DOWN a < start + ?n" if "start \<le> a" "a < start + ?n" for a
      using that align_down_ge [OF assms(3)] align_down_bounds(1) [of a] by auto
    show ?thesis
      using pa align_down_bounds d by (metis PAGE_SIZE_pos less_add_same_cancel1 order_refl)
  qed
  also have "\<dots> \<longleftrightarrow> (\<forall>a. start \<le> a \<longrightarrow> a < start + ?n \<longrightarrow> user_accessible ?rs a)"
    using accessible_bound [OF ri, of "start + ?n - 1"] n(2) by (auto simp: ends)
  finally show ?thesis .
qed

lemma example_prot:
  "prot_at (sp_ranges (v_user example_vmm)) a = (if 0x400000 \<le> a \<and> a < 0x403000 then Some (VM_FLAG_ALLOC, 7) else None)"
  by (simp add: prot_at_def example_vmm_def example_anon_def vmm_createRange_def)

lemma example_layout: "vmm_layout example_vmm" "space_inv (v_user example_vmm)"
  using example_user_inv by (simp_all add: user_inv_def) (simp add: vmm_layout_def example_vmm_def)

lemma example_accessible:
  "user_accessible (sp_ranges (v_user example_vmm)) a \<longleftrightarrow> 0x400000 \<le> a \<and> a < 0x403000"
proof -
  have "(7 :: u64) AND MMU_FLAG_USER \<noteq> 0" by (simp add: MMU_FLAG_USER_def)
  then show ?thesis by (auto simp: user_accessible_def example_prot)
qed

theorem vmm_validate_exact_witness:
  "vmm_validate 0x401000 0x1FFF (VMM_PTR_USER OR VMM_PTR_STRICT) example_vmm \<and>
   \<not> vmm_validate 0x401000 0x2001 (VMM_PTR_USER OR VMM_PTR_STRICT) example_vmm"
proof -
  have n: "page_size_up 0x1FFF = 0x2000" "page_size_up 0x2001 = 0x3000"
    by (simp_all add: page_size_up_def align_up64_def PAGE_ALIGN_DOWN_def PAGE_SIZE_def)
  have "vmm_validate 0x401000 0x1FFF (VMM_PTR_USER OR VMM_PTR_STRICT) example_vmm"
    using vmm_validate_exact [OF example_layout(2,1), of "0x401000" "0x1FFF"]
    by (simp add: n example_accessible PAGE_SIZE_def)
  moreover have "\<not> (\<forall>a. 0x401000 \<le> a \<longrightarrow> a < 0x401000 + 0x3000 \<longrightarrow> 0x400000 \<le> a \<and> a < (0x403000 :: nat))"
    by (auto intro!: exI [of _ "0x403000 :: nat"])
  then have "\<not> vmm_validate 0x401000 0x2001 (VMM_PTR_USER OR VMM_PTR_STRICT) example_vmm"
    using vmm_validate_exact [OF example_layout(2,1), of "0x401000" "0x2001"]
    by (simp only: n example_accessible) (simp add: PAGE_SIZE_def)
  ultimately show ?thesis by blast
qed


section \<open>Change of protection\<close>

lemma setflags_absent:
  "table (mem m) (cur_dir m) 3 i = None \<Longrightarrow> arch_mmu_setflags None i f m = Done (1, m)"
  by (simp add: arch_mmu_setflags_def get_page_read arch_mmu_dir_def)

lemma set_flags_absent:
  assumes "\<And>i. table (mem (c_mach c)) (cur_dir (c_mach c)) 3 i = None"
  shows "set_flags_pages f a b c = Done c"
proof -
  have "ofold (\<lambda>i c. obind (arch_mmu_setflags None i f (c_mach c)) (\<lambda>(r, m). Done (c\<lparr>c_mach := m\<rparr>))) xs c = Done c" for xs
    by (induction xs) (simp_all add: setflags_absent assms)
  then show ?thesis by (simp add: set_flags_pages_def)
qed


end
