(* ===== verification/Key_Value.thy ===== *)
theory Key_Value
  imports Prelude
begin

text \<open>
  The contract of a table from keys to values, as the clients of the radix tree and of the hash map
  use it: a store returns the value the key had and changes this key only. The client lemma says
  that a sequence of stores returns what the same sequence returns on a function. A store of
  \<open>None\<close> removes the key.
\<close>

fun map_run :: "('k \<Rightarrow> 'v option) \<Rightarrow> ('k \<times> 'v option) list \<Rightarrow> 'v option list \<times> ('k \<Rightarrow> 'v option)" where
  "map_run m [] = ([], m)"
| "map_run m ((k, v) # ops) = (case map_run (m(k := v)) ops of (rs, m') \<Rightarrow> (m k # rs, m'))"

fun kv_run :: "('k \<Rightarrow> 'v option \<Rightarrow> 's \<Rightarrow> ('v option \<times> 's) outcome) \<Rightarrow> 's \<Rightarrow> ('k \<times> 'v option) list \<Rightarrow>
    ('v option list \<times> 's) outcome" where
  "kv_run store s [] = Done ([], s)"
| "kv_run store s ((k, v) # ops) =
     obind (store k v s) (\<lambda>(r, s1).
     obind (kv_run store s1 ops) (\<lambda>(rs, s2). Done (r # rs, s2)))"

text \<open>Every store of the sequence is one that the table permits.\<close>

fun permitted :: "(('k \<Rightarrow> 'v option) \<Rightarrow> 'k \<Rightarrow> 'v option \<Rightarrow> bool) \<Rightarrow> ('k \<Rightarrow> 'v option) \<Rightarrow> ('k \<times> 'v option) list \<Rightarrow> bool" where
  "permitted ok m [] = True"
| "permitted ok m ((k, v) # ops) = (ok m k v \<and> permitted ok (m(k := v)) ops)"

lemma permitted_all: "(\<forall>op \<in> set ops. P (fst op)) \<Longrightarrow> permitted (\<lambda>m k v. P k) m ops"
  by (induction ops arbitrary: m) auto

locale key_value =
  fixes kv_inv :: "'s \<Rightarrow> bool"
    and kv_lookup :: "'s \<Rightarrow> 'k \<Rightarrow> 'v option"
    and kv_store :: "'k \<Rightarrow> 'v option \<Rightarrow> 's \<Rightarrow> ('v option \<times> 's) outcome"
    and kv_ok :: "('k \<Rightarrow> 'v option) \<Rightarrow> 'k \<Rightarrow> 'v option \<Rightarrow> bool"
  assumes store: "kv_inv s \<Longrightarrow> kv_ok (kv_lookup s) k v \<Longrightarrow>
    \<exists>s'. kv_store k v s = Done (kv_lookup s k, s') \<and> kv_inv s' \<and> kv_lookup s' = (kv_lookup s)(k := v)"
begin

lemma run:
  assumes "kv_inv s" "permitted kv_ok (kv_lookup s) ops"
  shows "\<exists>s'. kv_run kv_store s ops = Done (fst (map_run (kv_lookup s) ops), s') \<and> kv_inv s' \<and>
    kv_lookup s' = snd (map_run (kv_lookup s) ops)"
  using assms
proof (induction ops arbitrary: s)
  case Nil
  then show ?case by simp
next
  case (Cons op ops)
  obtain k v where op: "op = (k, v)" by fastforce
  from Cons.prems op have "kv_ok (kv_lookup s) k v" by simp
  from store [OF Cons.prems(1) this] obtain s1 where
    s1: "kv_store k v s = Done (kv_lookup s k, s1)" "kv_inv s1" "kv_lookup s1 = (kv_lookup s)(k := v)" by blast
  have "permitted kv_ok (kv_lookup s1) ops" using Cons.prems(2) op s1(3) by simp
  from Cons.IH [OF s1(2) this] obtain s2 where
    "kv_run kv_store s1 ops = Done (fst (map_run (kv_lookup s1) ops), s2)" "kv_inv s2"
    "kv_lookup s2 = snd (map_run (kv_lookup s1) ops)" by blast
  with s1 op show ?case by (auto split: prod.split)
qed

end

end
