(* ===== verification/Xarray.thy ===== *)
theory Xarray
  imports Key_Value
begin

text \<open>
  The radix tree of \<^verbatim>\<open>hexahedron/misc/xarray.c\<close>, which the page cache and the process tables use.
  An entry of the array is empty, a value (a pointer with the lowest bit set), or a node with its
  shift, the bitmap of its occupied entries, and its 64 entries. The pointer from a node to its parent
  is the list of the nodes above it. Writers hold the lock of the array, so an operation is one step.
\<close>

section \<open>Definitions\<close>

datatype xentry = XNull | XValue nat | XNode nat u64 "nat \<Rightarrow> xentry"

definition XA_SHIFT :: nat where "XA_SHIFT = 6"
definition XA_ENTRIES :: nat where "XA_ENTRIES = 2 ^ 6"
definition XA_MASK :: nat where "XA_MASK = 63"

text \<open>\<^verbatim>\<open>(index >> shift) & XA_MASK\<close>, and \<^verbatim>\<open>1 << off\<close>.\<close>

definition xa_off :: "nat \<Rightarrow> nat \<Rightarrow> nat" where
  "xa_off index shift = index div 2 ^ shift mod 2 ^ 6"

definition xa_bit :: "nat \<Rightarrow> u64" where
  "xa_bit off = push_bit off 1"

text \<open>\<open>XA_AS_VALUE\<close> and \<open>XA_GET_VALUE\<close>; 0 is the null pointer.\<close>

definition XA_AS_VALUE :: "nat \<Rightarrow> xentry" where
  "XA_AS_VALUE e = (if e \<noteq> 0 then XValue e else XNull)"

fun XA_GET_VALUE :: "xentry \<Rightarrow> nat outcome" where
  "XA_GET_VALUE XNull = Done 0"
| "XA_GET_VALUE (XValue v) = Done v"
| "XA_GET_VALUE (XNode s b f) = Fault"

text \<open>The descent of \<open>xa_load\<close>.\<close>

primrec xa_walk :: "xentry \<Rightarrow> nat \<Rightarrow> nat" where
  "xa_walk XNull index = 0"
| "xa_walk (XValue v) index = v"
| "xa_walk (XNode s b f) index = xa_walk (f (xa_off index s)) index"

fun xa_load :: "xentry \<Rightarrow> nat \<Rightarrow> nat" where
  "xa_load XNull index = 0"
| "xa_load (XValue v) index = (if index = 0 then v else 0)"
| "xa_load (XNode s b f) index =
     (if index div 2 ^ s > XA_MASK then 0 else xa_walk (XNode s b f) index)"

text \<open>The number of bits of a positive index, \<^verbatim>\<open>sizeof(index) * 8 - clzl(index)\<close>.\<close>

fun bit_count :: "nat \<Rightarrow> nat" where
  "bit_count n = (if n = 0 then 0 else Suc (bit_count (n div 2)))"

declare bit_count.simps [simp del]

text \<open>The store into an empty array.\<close>

definition xa_store_first :: "nat \<Rightarrow> nat \<Rightarrow> xentry" where
  "xa_store_first index e =
     (let shift = (if index > XA_MASK then (bit_count index - 1) div XA_SHIFT * XA_SHIFT else 0);
          offset = xa_off index shift
      in XNode shift (xa_bit offset) ((\<lambda>_. XNull)(offset := XA_AS_VALUE e)))"

text \<open>The loop that adds roots until the index fits.\<close>

function xa_grow :: "nat \<Rightarrow> nat \<Rightarrow> xentry \<Rightarrow> nat \<times> xentry" where
  "xa_grow index s r =
     (if index div 2 ^ s > XA_MASK then xa_grow index (s + XA_SHIFT) (XNode (s + XA_SHIFT) 1 ((\<lambda>_. XNull)(0 := r)))
      else (s, r))"
  by pat_completeness auto
termination
proof (relation "measure (\<lambda>(index, s, r). index div 2 ^ s)")
  fix index s :: nat and r
  assume "XA_MASK < index div 2 ^ s"
  moreover have "index div 2 ^ (s + XA_SHIFT) = index div 2 ^ s div 2 ^ 6"
    by (simp add: XA_SHIFT_def power_add div_mult2_eq)
  ultimately show "((index, s + XA_SHIFT, XNode (s + XA_SHIFT) 1 ((\<lambda>_. XNull)(0 := r))), index, s, r)
      \<in> measure (\<lambda>(index, s, r). index div 2 ^ s)"
    by (auto simp: XA_MASK_def intro!: div_less_dividend)
qed simp

declare xa_grow.simps [simp del]

text \<open>
  The store in the leaf. A node whose bitmap becomes empty is freed and replaced by \<open>XNull\<close> in its
  parent.
\<close>

definition freed_if_empty :: "nat \<Rightarrow> u64 \<Rightarrow> (nat \<Rightarrow> xentry) \<Rightarrow> xentry" where
  "freed_if_empty s b f = (if b = 0 then XNull else XNode s b f)"

definition xa_set_leaf :: "nat \<Rightarrow> nat \<Rightarrow> u64 \<Rightarrow> (nat \<Rightarrow> xentry) \<Rightarrow> (nat \<times> xentry) outcome" where
  "xa_set_leaf index e b f =
     (let off = xa_off index 0;
          b' = (if f off = XNull \<and> e \<noteq> 0 then b OR xa_bit off
                else if f off \<noteq> XNull \<and> e = 0 then b AND NOT (xa_bit off) else b)
      in obind (XA_GET_VALUE (f off)) (\<lambda>pr.
         Done (pr, freed_if_empty 0 b' (f(off := XA_AS_VALUE e)))))"

text \<open>The parent of a child that was changed to \<open>c\<close>; \<open>b\<close> includes the bit of the child.\<close>

definition xa_set_child :: "nat \<Rightarrow> nat \<Rightarrow> u64 \<Rightarrow> (nat \<Rightarrow> xentry) \<Rightarrow> xentry \<Rightarrow> xentry" where
  "xa_set_child off s b f c =
     (if c = XNull then freed_if_empty s (b AND NOT (xa_bit off)) (f(off := XNull))
      else XNode s b (f(off := c)))"

text \<open>The loop that descends, in nodes it creates itself and in the nodes that exist.\<close>

function xa_place_new :: "nat \<Rightarrow> nat \<Rightarrow> nat \<Rightarrow> (nat \<times> xentry) outcome" where
  "xa_place_new index e s =
     (if s = 0 then xa_set_leaf index e 0 (\<lambda>_. XNull)
      else
        let off = xa_off index s in
        obind (xa_place_new index e (s - XA_SHIFT)) (\<lambda>(pr, c).
        Done (pr, xa_set_child off s (xa_bit off) (\<lambda>_. XNull) c)))"
  by pat_completeness auto
termination by (relation "measure (\<lambda>(index, e, s). s)") (auto simp: XA_SHIFT_def)

declare xa_place_new.simps [simp del]

primrec xa_place :: "xentry \<Rightarrow> nat \<Rightarrow> nat \<Rightarrow> (nat \<times> xentry) outcome" where
  "xa_place XNull index e = Fault"
| "xa_place (XValue v) index e = Panic"
| "xa_place (XNode s b f) index e =
     (if s = 0 then xa_set_leaf index e b f
      else
        let off = xa_off index s in
        if f off = XNull then
          obind (xa_place_new index e (s - XA_SHIFT)) (\<lambda>(pr, c).
          Done (pr, xa_set_child off s (b OR xa_bit off) f c))
        else
          obind (xa_place (f off) index e) (\<lambda>(pr, c).
          Done (pr, xa_set_child off s b f c)))"

definition xa_store :: "xentry \<Rightarrow> nat \<Rightarrow> nat \<Rightarrow> (nat \<times> xentry) outcome" where
  "xa_store head index e =
     oassert (e mod 2 = 0) (
     case head of
       XNull \<Rightarrow> if e = 0 then Done (0, XNull) else Done (0, xa_store_first index e)
     | XNode s b f \<Rightarrow> xa_place (snd (xa_grow index s (XNode s b f))) index e
     | XValue old \<Rightarrow>
         xa_place (snd (xa_grow index 0 (XNode 0 1 ((\<lambda>_. XNull)(0 := XA_AS_VALUE old))))) index e)"

definition xa_erase :: "xentry \<Rightarrow> nat \<Rightarrow> (nat \<times> xentry) outcome" where
  "xa_erase head index = xa_store head index 0"

text \<open>The first set bit of a bitmap from a position on, and the last one up to it.\<close>

definition bit_from :: "u64 \<Rightarrow> nat \<Rightarrow> nat option" where
  "bit_from b off = find (bit b) [off..<64]"

definition bit_upto :: "u64 \<Rightarrow> nat \<Rightarrow> nat option" where
  "bit_upto b off = find (bit b) (rev [0..<off + 1])"

text \<open>
  The two nested loops of \<open>xa_find\<close>; \<open>outer\<close> says whether the outer one begins a round. The list \<open>ps\<close> is
  the path to the root. The result is the index and the value, or \<open>None\<close> for the null pointer; a
  shift by 64 or more is undefined. The loops are not known to end in general.
\<close>

partial_function (option) xa_search ::
  "nat \<Rightarrow> bool \<Rightarrow> xentry \<Rightarrow> xentry list \<Rightarrow> nat \<Rightarrow> (nat \<times> nat) option outcome option" where
  "xa_search mx outer n ps idx =
     (case n of
        XNull \<Rightarrow> Some Fault
      | XValue v \<Rightarrow> Some Fault
      | XNode s b f \<Rightarrow>
          if outer \<and> \<not> idx \<le> mx then Some (Done None)
          else if outer \<and> idx div 2 ^ s > XA_MASK then Some (Done None)
          else if s \<noteq> 0 then
            (let off = xa_off idx s in
             case bit_from b off of
               None \<Rightarrow>
                 let step = 2 ^ s; idx1 = (idx + step) mod 2 ^ 64 div step * step in
                 (case ps of [] \<Rightarrow> Some (Done None) | p # qs \<Rightarrow> xa_search mx False p qs idx1)
             | Some next \<Rightarrow>
                 if next > off \<and> s + XA_SHIFT \<ge> 64 then Some Fault
                 else
                   let idx1 = (if next > off
                     then idx div 2 ^ (s + XA_SHIFT) * 2 ^ (s + XA_SHIFT) + next * 2 ^ s else idx) in
                   (case f next of
                      XValue v \<Rightarrow> Some (Done (Some (idx1, v)))
                    | XNull \<Rightarrow> xa_search mx False XNull (n # ps) idx1
                    | XNode s' b' f' \<Rightarrow> xa_search mx False (XNode s' b' f') (n # ps) idx1))
          else
            (let off = xa_off idx 0 in
             case bit_from b off of
               Some next \<Rightarrow>
                 let idx1 = idx div 2 ^ 6 * 2 ^ 6 + next in
                 if idx1 \<le> mx then Some (obind (XA_GET_VALUE (f next)) (\<lambda>v. Done (Some (idx1, v))))
                 else Some (Done None)
             | None \<Rightarrow>
                 let idx1 = (idx + XA_ENTRIES) mod 2 ^ 64 div 2 ^ 6 * 2 ^ 6 in
                 (case ps of [] \<Rightarrow> Some (Done None) | p # qs \<Rightarrow> xa_search mx True p qs idx1)))"

definition xa_find :: "xentry \<Rightarrow> nat \<Rightarrow> nat \<Rightarrow> (nat \<times> nat) option outcome option" where
  "xa_find head index mx =
     (case head of
        XNull \<Rightarrow> Some (Done None)
      | XValue v \<Rightarrow> if index = 0 then Some (Done (Some (0, v))) else Some (Done None)
      | XNode s b f \<Rightarrow> xa_search mx True (XNode s b f) [] index)"

text \<open>The same for \<open>xa_findBackwards\<close>; the mask of the last entry is a shift by 64.\<close>

partial_function (option) xa_search_back ::
  "bool \<Rightarrow> xentry \<Rightarrow> xentry list \<Rightarrow> nat \<Rightarrow> (nat \<times> nat) option outcome option" where
  "xa_search_back outer n ps idx =
     (case n of
        XNull \<Rightarrow> Some Fault
      | XValue v \<Rightarrow> Some Fault
      | XNode s b f \<Rightarrow>
          if outer \<and> idx div 2 ^ s > XA_MASK then Some (Done None)
          else if s \<noteq> 0 then
            (let off = xa_off idx s in
             if off + 1 \<ge> 64 \<or> s + XA_SHIFT \<ge> 64 then Some Fault
             else case bit_upto b off of
               None \<Rightarrow>
                 let step = 2 ^ (s + XA_SHIFT) in
                 if idx < step then Some (Done None)
                 else let idx1 = idx div step * step - 1 in
                   (case ps of [] \<Rightarrow> Some (Done None) | p # qs \<Rightarrow> xa_search_back False p qs idx1)
             | Some next \<Rightarrow>
                 let idx1 = (if next < off
                   then idx div 2 ^ (s + XA_SHIFT) * 2 ^ (s + XA_SHIFT) + next * 2 ^ s + (2 ^ s - 1) else idx) in
                 (case f next of
                    XValue v \<Rightarrow> Some (Done (Some (idx1, v)))
                  | XNull \<Rightarrow> xa_search_back False XNull (n # ps) idx1
                  | XNode s' b' f' \<Rightarrow> xa_search_back False (XNode s' b' f') (n # ps) idx1))
          else
            (let off = xa_off idx 0 in
             if off + 1 \<ge> 64 then Some Fault
             else case bit_upto b off of
               Some next \<Rightarrow>
                 let idx1 = idx div 2 ^ 6 * 2 ^ 6 + next in
                 Some (obind (XA_GET_VALUE (f next)) (\<lambda>v. Done (Some (idx1, v))))
             | None \<Rightarrow>
                 if idx div 2 ^ 6 * 2 ^ 6 = 0 then Some (Done None)
                 else let idx1 = idx div 2 ^ 6 * 2 ^ 6 - 1 in
                   (case ps of [] \<Rightarrow> Some (Done None) | p # qs \<Rightarrow> xa_search_back True p qs idx1)))"

definition xa_findBackwards :: "xentry \<Rightarrow> nat \<Rightarrow> (nat \<times> nat) option outcome option" where
  "xa_findBackwards head index =
     (case head of
        XNull \<Rightarrow> Some (Done None)
      | XValue v \<Rightarrow> if index = 0 then Some (Done (Some (0, v))) else Some (Done None)
      | XNode s b f \<Rightarrow> xa_search_back True (XNode s b f) [] index)"

definition xa_first :: "xentry \<Rightarrow> (nat \<times> nat) option outcome option" where
  "xa_first head = xa_find head 0 (2 ^ 64 - 1)"

definition xa_next :: "xentry \<Rightarrow> nat \<Rightarrow> (nat \<times> nat) option outcome option" where
  "xa_next head index = xa_find head ((index + 1) mod 2 ^ 64) (2 ^ 64 - 1)"

text \<open>The loop \<open>xa_foreach\<close> of \<open>xa_destroy\<close>, with the result of the last search.\<close>

partial_function (option) xa_destroy_loop :: "(nat \<times> nat) option outcome option \<Rightarrow> xentry \<Rightarrow> xentry outcome option" where
  "xa_destroy_loop r head =
     (case r of
        None \<Rightarrow> None
      | Some Panic \<Rightarrow> Some Panic
      | Some Fault \<Rightarrow> Some Fault
      | Some (Done None) \<Rightarrow> Some (Done head)
      | Some (Done (Some (idx, ent))) \<Rightarrow>
          if ent = 0 then Some (Done head)
          else
            (case xa_erase head idx of
               Panic \<Rightarrow> Some Panic
             | Fault \<Rightarrow> Some Fault
             | Done (pr, head1) \<Rightarrow> xa_destroy_loop (xa_next head1 idx) head1))"

definition xa_destroy :: "xentry \<Rightarrow> xentry outcome option" where
  "xa_destroy head = xa_destroy_loop (xa_first head) head"

section \<open>Well-formed trees\<close>

text \<open>
  A node of height \<open>k\<close>: its bitmap shows its occupied entries and is not empty, its entries are values
  at height 0 and nodes of height \<open>k - 1\<close> above.
\<close>

fun node_ok :: "nat \<Rightarrow> xentry \<Rightarrow> bool" where
  "node_ok k XNull = False"
| "node_ok k (XValue v) = False"
| "node_ok 0 (XNode s b f) \<longleftrightarrow> s = 0 \<and> b \<noteq> 0 \<and> (\<forall>i < 64. bit b i \<longleftrightarrow> f i \<noteq> XNull) \<and>
     (\<forall>i < 64. f i = XNull \<or> (\<exists>v. f i = XValue v \<and> v \<noteq> 0))"
| "node_ok (Suc k) (XNode s b f) \<longleftrightarrow> s = 6 * Suc k \<and> b \<noteq> 0 \<and> (\<forall>i < 64. bit b i \<longleftrightarrow> f i \<noteq> XNull) \<and>
     (\<forall>i < 64. f i = XNull \<or> node_ok k (f i))"

definition xa_ok :: "xentry \<Rightarrow> bool" where
  "xa_ok h \<longleftrightarrow> h = XNull \<or> (\<exists>k. node_ok k h)"

lemma xa_off_less [simp]: "xa_off i s < 64"
  by (simp add: xa_off_def)

lemma bit_xa_bit [simp]: "bit (xa_bit n) i \<longleftrightarrow> i = n \<and> n < 64"
  by (auto simp: xa_bit_def push_bit_eq_mult bit_exp_iff)

lemma u64_zero_iff: "(b :: u64) = 0 \<longleftrightarrow> (\<forall>i < 64. \<not> bit b i)"
  by (auto intro: bit_word_eqI)

lemma node_ok_shift: "node_ok k (XNode s b f) \<Longrightarrow> s = 6 * k"
  by (cases k) auto

lemma node_ok_bits: "node_ok k (XNode s b f) \<Longrightarrow> i < 64 \<Longrightarrow> bit b i \<longleftrightarrow> f i \<noteq> XNull"
  by (cases k) auto

lemma off_mod:
  "xa_off i (6 * k) = xa_off j (6 * k) \<and> i mod 2 ^ (6 * k) = j mod 2 ^ (6 * k) \<longleftrightarrow>
   i mod 2 ^ (6 * Suc k) = j mod 2 ^ (6 * Suc k)"
proof -
  let ?p = "2 ^ (6 * k) :: nat"
  have m: "n mod 2 ^ (6 * Suc k) = ?p * xa_off n (6 * k) + n mod ?p" for n
    using mod_mult2_eq [of n ?p 64] by (simp add: xa_off_def power_add mult.commute)
  have "xa_off n (6 * k) = n mod 2 ^ (6 * Suc k) div ?p" "n mod ?p = n mod 2 ^ (6 * Suc k) mod ?p" for n
    unfolding m by simp_all
  then show ?thesis by (metis m)
qed

text \<open>The result of a store below a node: the value at the index changes, and no other.\<close>

definition stored :: "nat \<Rightarrow> nat \<Rightarrow> nat \<Rightarrow> xentry \<Rightarrow> xentry \<Rightarrow> bool" where
  "stored k index e n n' \<longleftrightarrow> (n' = XNull \<or> node_ok k n') \<and>
     (\<forall>j. xa_walk n' j = (if j mod 2 ^ (6 * Suc k) = index mod 2 ^ (6 * Suc k) then e else xa_walk n j))"

lemma walk_as_value [simp]: "xa_walk (XA_AS_VALUE e) j = e"
  by (simp add: XA_AS_VALUE_def)

lemma as_value_null [simp]: "XA_AS_VALUE e = XNull \<longleftrightarrow> e = 0"
  by (simp add: XA_AS_VALUE_def)

text \<open>A node with one entry replaced, whose bitmap follows.\<close>

lemma freed_if_empty_walk:
  assumes "\<And>i. i < 64 \<Longrightarrow> bit b i \<longleftrightarrow> f i \<noteq> XNull"
  shows "xa_walk (freed_if_empty s b f) j = xa_walk (f (xa_off j s)) j"
proof (cases "b = 0")
  case True
  with assms [of "xa_off j s"] have "f (xa_off j s) = XNull" by simp
  with True show ?thesis by (simp add: freed_if_empty_def)
qed (simp add: freed_if_empty_def)

lemma set_leaf_ok:
  assumes bits: "\<And>i. i < 64 \<Longrightarrow> bit b i \<longleftrightarrow> f i \<noteq> XNull"
    and vals: "\<And>i. i < 64 \<Longrightarrow> f i = XNull \<or> (\<exists>v. f i = XValue v \<and> v \<noteq> 0)"
  shows "\<exists>n'. xa_set_leaf index e b f = Done (xa_walk (f (xa_off index 0)) index, n') \<and>
    (n' = XNull \<or> node_ok 0 n') \<and>
    (\<forall>j. xa_walk n' j = (if xa_off j 0 = xa_off index 0 then e else xa_walk (f (xa_off j 0)) j))"
proof -
  let ?off = "xa_off index 0" and ?f = "f(xa_off index 0 := XA_AS_VALUE e)"
  define b' where "b' = (if f ?off = XNull \<and> e \<noteq> 0 then b OR xa_bit ?off
    else if f ?off \<noteq> XNull \<and> e = 0 then b AND NOT (xa_bit ?off) else b)"
  have b': "bit b' i \<longleftrightarrow> ?f i \<noteq> XNull" if "i < 64" for i
    using bits [OF that] that by (auto simp: b'_def bit_or_iff bit_and_iff bit_not_iff)
  have v: "XA_GET_VALUE (f ?off) = Done (xa_walk (f ?off) index)"
    using vals [of ?off] by auto
  have "xa_set_leaf index e b f = Done (xa_walk (f ?off) index, freed_if_empty 0 b' ?f)"
    by (simp add: xa_set_leaf_def Let_def v b'_def)
  moreover have "freed_if_empty 0 b' ?f = XNull \<or> node_ok 0 (freed_if_empty 0 b' ?f)"
    using b' vals by (auto simp: freed_if_empty_def XA_AS_VALUE_def)
  moreover have "xa_walk (freed_if_empty 0 b' ?f) j = (if xa_off j 0 = ?off then e else xa_walk (f (xa_off j 0)) j)" for j
    using freed_if_empty_walk [of b' ?f 0 j] b' by auto
  ultimately show ?thesis by blast
qed

lemma set_child_ok:
  assumes bits: "\<And>i. i < 64 \<Longrightarrow> i \<noteq> off \<Longrightarrow> bit b i \<longleftrightarrow> f i \<noteq> XNull" and b: "bit b off" and off: "off < 64"
    and kids: "\<And>i. i < 64 \<Longrightarrow> i \<noteq> off \<Longrightarrow> f i = XNull \<or> node_ok k (f i)" and c: "c = XNull \<or> node_ok k c"
  defines "n' \<equiv> xa_set_child off (6 * Suc k) b f c"
  shows "n' = XNull \<or> node_ok (Suc k) n'"
    "xa_walk n' j = (if xa_off j (6 * Suc k) = off then xa_walk c j else xa_walk (f (xa_off j (6 * Suc k))) j)"
proof -
  let ?b = "b AND NOT (xa_bit off)" and ?f = "f(off := XNull)"
  have b0: "b \<noteq> 0" using b by auto
  have bb: "bit ?b i \<longleftrightarrow> ?f i \<noteq> XNull" if "i < 64" for i
    using bits that by (auto simp: bit_and_iff bit_not_iff)
  have "c \<noteq> XNull \<Longrightarrow> node_ok (Suc k) (XNode (6 * Suc k) b (f(off := c)))"
    using bits b kids c b0 by auto
  moreover have "?b = 0 \<or> node_ok (Suc k) (XNode (6 * Suc k) ?b ?f)"
    using bb kids by auto
  ultimately show "n' = XNull \<or> node_ok (Suc k) n'"
    by (auto simp: n'_def xa_set_child_def freed_if_empty_def simp del: node_ok.simps)
  show "xa_walk n' j = (if xa_off j (6 * Suc k) = off then xa_walk c j else xa_walk (f (xa_off j (6 * Suc k))) j)"
    unfolding n'_def xa_set_child_def using freed_if_empty_walk [of ?b ?f "6 * Suc k" j] bb by auto
qed

lemma place_new_ok:
  "\<exists>n'. xa_place_new index e (6 * k) = Done (0, n') \<and> stored k index e XNull n'"
proof (induction k)
  case 0
  have "\<exists>n'. xa_set_leaf index e 0 (\<lambda>_. XNull) = Done (xa_walk XNull index, n') \<and> (n' = XNull \<or> node_ok 0 n') \<and>
      (\<forall>j. xa_walk n' j = (if xa_off j 0 = xa_off index 0 then e else xa_walk XNull j))"
    by (rule set_leaf_ok) simp_all
  then show ?case by (auto simp: xa_place_new.simps [of _ _ 0] stored_def xa_off_def)
next
  case (Suc k)
  then obtain c where c: "xa_place_new index e (6 * k) = Done (0, c)" "stored k index e XNull c" by blast
  let ?off = "xa_off index (6 * Suc k)"
  let ?n = "xa_set_child ?off (6 * Suc k) (xa_bit ?off) (\<lambda>_. XNull) c"
  have s: "?n = XNull \<or> node_ok (Suc k) ?n"
    "xa_walk ?n j = (if xa_off j (6 * Suc k) = ?off then xa_walk c j else 0)" for j
    using set_child_ok [of ?off "xa_bit ?off" "\<lambda>_. XNull" k c] c(2) by (auto simp: stored_def simp del: mult_Suc_right)
  have "xa_place_new index e (6 * Suc k) = Done (0, ?n)"
    using c(1) by (simp add: xa_place_new.simps [of _ _ "6 * Suc k"] Let_def XA_SHIFT_def del: mult_Suc_right) simp
  moreover have "stored (Suc k) index e XNull ?n"
    using s c(2) off_mod [of _ "Suc k" index] by (auto simp: stored_def simp del: mult_Suc_right)
  ultimately show ?case by blast
qed

lemma place_ok:
  "node_ok k n \<Longrightarrow> \<exists>n'. xa_place n index e = Done (xa_walk n index, n') \<and> stored k index e n n'"
proof (induction k arbitrary: n)
  case 0
  then obtain b f where n: "n = XNode 0 b f" by (cases n) auto
  with 0 have "\<exists>n'. xa_set_leaf index e b f = Done (xa_walk (f (xa_off index 0)) index, n') \<and>
      (n' = XNull \<or> node_ok 0 n') \<and>
      (\<forall>j. xa_walk n' j = (if xa_off j 0 = xa_off index 0 then e else xa_walk (f (xa_off j 0)) j))"
    by (intro set_leaf_ok) auto
  then obtain n' where a: "xa_set_leaf index e b f = Done (xa_walk (f (xa_off index 0)) index, n')"
    "n' = XNull \<or> node_ok 0 n'"
    "\<And>j. xa_walk n' j = (if xa_off j 0 = xa_off index 0 then e else xa_walk (f (xa_off j 0)) j)" by blast
  have "stored 0 index e n n'"
    unfolding stored_def
  proof (intro conjI allI)
    fix j
    show "xa_walk n' j = (if j mod 2 ^ (6 * Suc 0) = index mod 2 ^ (6 * Suc 0) then e else xa_walk n j)"
      unfolding a(3) n by (simp add: xa_off_def)
  qed (rule a(2))
  with a(1) n show ?case by auto
next
  case (Suc k)
  then obtain b f where n: "n = XNode (6 * Suc k) b f" by (cases n) auto
  let ?off = "xa_off index (6 * Suc k)"
  have ok: "\<And>i. i < 64 \<Longrightarrow> bit b i \<longleftrightarrow> f i \<noteq> XNull" "\<And>i. i < 64 \<Longrightarrow> f i = XNull \<or> node_ok k (f i)"
    using Suc.prems n by auto
  have "\<exists>c b1. xa_place n index e = Done (xa_walk n index, xa_set_child ?off (6 * Suc k) b1 f c) \<and>
      (\<forall>i. bit b1 i \<longleftrightarrow> i = ?off \<or> bit b i) \<and> stored k index e (f ?off) c"
  proof (cases "f ?off = XNull")
    case True
    obtain c where "xa_place_new index e (6 * k) = Done (0, c)" "stored k index e XNull c"
      using place_new_ok by blast
    with True n show ?thesis
      by (intro exI [of _ c] exI [of _ "b OR xa_bit ?off"])
        (auto simp: Let_def XA_SHIFT_def bit_or_iff simp del: mult_Suc_right, simp)
  next
    case False
    then have "node_ok k (f ?off)" using ok(2) [of ?off] by (auto simp del: mult_Suc_right)
    from Suc.IH [OF this] obtain c where
      "xa_place (f ?off) index e = Done (xa_walk (f ?off) index, c)" "stored k index e (f ?off) c" by blast
    with False n ok(1) show ?thesis
      by (intro exI [of _ c] exI [of _ b]) (auto simp: Let_def simp del: mult_Suc_right)
  qed
  then obtain c b1 where c: "xa_place n index e = Done (xa_walk n index, xa_set_child ?off (6 * Suc k) b1 f c)"
    "\<And>i. bit b1 i \<longleftrightarrow> i = ?off \<or> bit b i" "stored k index e (f ?off) c" by blast
  let ?n = "xa_set_child ?off (6 * Suc k) b1 f c"
  have s: "?n = XNull \<or> node_ok (Suc k) ?n"
    "xa_walk ?n j = (if xa_off j (6 * Suc k) = ?off then xa_walk c j else xa_walk (f (xa_off j (6 * Suc k))) j)" for j
    using set_child_ok [of ?off b1 f k c] c(2,3) ok by (auto simp: stored_def simp del: mult_Suc_right)
  have "stored (Suc k) index e n ?n"
    unfolding stored_def
  proof (intro conjI allI)
    fix j
    show "xa_walk ?n j = (if j mod 2 ^ (6 * Suc (Suc k)) = index mod 2 ^ (6 * Suc (Suc k)) then e else xa_walk n j)"
      using c(3) off_mod [of j "Suc k" index] unfolding s(2) stored_def n
      by (auto simp del: mult_Suc_right)
  qed (rule s(1))
  with c(1) show ?case by blast
qed

text \<open>Adding roots changes no value.\<close>

lemma mask_iff: "(n :: nat) div 2 ^ s > XA_MASK \<longleftrightarrow> n div 2 ^ (s + 6) \<noteq> 0"
  by (auto simp: XA_MASK_def power_add div_mult2_eq)

lemma div_level: "(n :: nat) div 2 ^ (6 * Suc k) = n div 2 ^ (6 * k) div 64"
proof -
  have "6 * Suc k = 6 * k + 6" by simp
  then show ?thesis by (simp only: power_add div_mult2_eq) simp
qed

lemma load_node:
  assumes "node_ok k n"
  shows "xa_load n j = (if j div 2 ^ (6 * Suc k) \<noteq> 0 then 0 else xa_walk n j)"
  using assms node_ok_shift [of k] mask_iff [of j "6 * k"] by (cases n) (auto simp: add.commute)

lemma grow_ok:
  "node_ok k n \<Longrightarrow> \<exists>k' n'. xa_grow index (6 * k) n = (6 * k', n') \<and> node_ok k' n' \<and>
    index div 2 ^ (6 * Suc k') = 0 \<and> xa_load n' = xa_load n"
proof (induction "index div 2 ^ (6 * k)" arbitrary: k n rule: less_induct)
  case less
  show ?case
  proof (cases "index div 2 ^ (6 * k) > XA_MASK")
    case False
    then show ?thesis
      using less.prems mask_iff [of index "6 * k"]
      by (intro exI [of _ k] exI [of _ n]) (simp add: xa_grow.simps add.commute)
  next
    case True
    let ?n = "XNode (6 * k + XA_SHIFT) 1 ((\<lambda>_. XNull)(0 := n))"
    have n0: "n \<noteq> XNull" using less.prems by auto
    have ok: "node_ok (Suc k) ?n"
      using less.prems n0 by (auto simp: XA_SHIFT_def bit_1_iff)
    have "xa_load ?n j = xa_load n j" for j
    proof -
      have o: "xa_off j (6 * Suc k) = 0 \<and> j div 2 ^ (6 * Suc (Suc k)) = 0 \<longleftrightarrow> j div 2 ^ (6 * Suc k) = 0"
        using div_mult_mod_eq [of "j div 2 ^ (6 * Suc k)" 64] unfolding div_level [of j "Suc k"] by (auto simp: xa_off_def)
      show ?thesis
        using o unfolding load_node [OF ok] load_node [OF less.prems] by (auto simp: XA_SHIFT_def add.commute)
    qed
    then have l: "xa_load ?n = xa_load n" by (rule ext)
    from True have lt: "index div 2 ^ (6 * Suc k) < index div 2 ^ (6 * k)"
      unfolding div_level by (intro div_less_dividend) (auto simp: XA_MASK_def)
    have g: "xa_grow index (6 * k) n = xa_grow index (6 * Suc k) ?n"
      using True by (subst xa_grow.simps) (simp add: XA_SHIFT_def add.commute)
    show ?thesis using less.hyps [OF lt ok] unfolding g l by blast
  qed
qed

lemma place_load:
  assumes ok: "node_ok k n" and i: "index div 2 ^ (6 * Suc k) = 0"
  shows "\<exists>n'. xa_place n index e = Done (xa_load n index, n') \<and> xa_ok n' \<and>
    xa_load n' = (xa_load n)(index := e)"
proof -
  from place_ok [OF ok, of index e] obtain n' where
    n': "xa_place n index e = Done (xa_walk n index, n')" "n' = XNull \<or> node_ok k n'"
      "\<And>j. xa_walk n' j = (if j mod 2 ^ (6 * Suc k) = index mod 2 ^ (6 * Suc k) then e else xa_walk n j)"
    by (auto simp: stored_def)
  have l: "xa_load n' j = (if j div 2 ^ (6 * Suc k) \<noteq> 0 then 0 else xa_walk n' j)" for j
    using n'(2) load_node [of k n' j] by auto
  have "xa_load n' j = (if j = index then e else xa_load n j)" for j
  proof (cases "j div 2 ^ (6 * Suc k) = 0")
    case True
    have "m mod 2 ^ (6 * Suc k) = m" if "m div 2 ^ (6 * Suc k) = 0" for m :: nat
      using div_mult_mod_eq [of m "2 ^ (6 * Suc k)"] that by simp
    then have "j mod 2 ^ (6 * Suc k) = index mod 2 ^ (6 * Suc k) \<longleftrightarrow> j = index" using True i by metis
    then show ?thesis unfolding l load_node [OF ok] n'(3) using True by simp
  next
    case False
    with i have "j \<noteq> index" by auto
    then show ?thesis unfolding l load_node [OF ok] using False by simp
  qed
  moreover have "xa_walk n index = xa_load n index" unfolding load_node [OF ok] using i by simp
  ultimately show ?thesis using n'(1,2) by (auto simp: xa_ok_def fun_eq_iff)
qed

lemma store_first_ok:
  assumes "index \<le> 63" "e \<noteq> 0"
  shows "xa_ok (xa_store_first index e)" "xa_load (xa_store_first index e) = (\<lambda>_. 0)(index := e)"
proof -
  have o: "xa_off j 0 = j mod 64" for j by (simp add: xa_off_def)
  have s: "xa_store_first index e = XNode 0 (xa_bit index) ((\<lambda>_. XNull)(index := XA_AS_VALUE e))"
    using assms by (simp add: xa_store_first_def Let_def XA_MASK_def o)
  have "xa_bit index \<noteq> 0" using assms(1) bit_xa_bit [of index index] by fastforce
  then have "node_ok 0 (xa_store_first index e)" unfolding s using assms by (simp add: XA_AS_VALUE_def)
  then show "xa_ok (xa_store_first index e)" by (auto simp: xa_ok_def)
  have "xa_load (xa_store_first index e) j = (if j = index then e else 0)" for j
    unfolding s using assms by (cases "j > 63") (auto simp: XA_MASK_def o)
  then show "xa_load (xa_store_first index e) = (\<lambda>_. 0)(index := e)" by (simp add: fun_eq_iff)
qed

lemma store_ok:
  assumes "xa_ok h" "even e" "h \<noteq> XNull \<or> index \<le> 63 \<or> e = 0"
  shows "\<exists>h'. xa_store h index e = Done (xa_load h index, h') \<and> xa_ok h' \<and> xa_load h' = (xa_load h)(index := e)"
proof (cases "h = XNull")
  case True
  have n: "xa_load XNull = (\<lambda>_. 0)" by (simp add: fun_eq_iff)
  show ?thesis
  proof (cases "e = 0")
    case True
    with \<open>h = XNull\<close> show ?thesis by (auto simp: xa_store_def xa_ok_def n)
  next
    case False
    with True assms store_first_ok [of index e] show ?thesis by (simp add: xa_store_def n even_iff_mod_2_eq_zero)
  qed
next
  case False
  with assms(1) obtain k where k: "node_ok k h" by (auto simp: xa_ok_def)
  then obtain b f where h: "h = XNode (6 * k) b f" by (cases h) (auto dest: node_ok_shift)
  from grow_ok [OF k, of index] obtain k' n' where
    g: "xa_grow index (6 * k) h = (6 * k', n')" "node_ok k' n'" "index div 2 ^ (6 * Suc k') = 0" "xa_load n' = xa_load h"
    by blast
  from place_load [OF g(2,3), of e] g(1,4) h assms(2) show ?thesis by (auto simp: xa_store_def even_iff_mod_2_eq_zero)
qed

lemma walk_cong:
  "node_ok k n \<Longrightarrow> i mod 2 ^ (6 * Suc k) = j mod 2 ^ (6 * Suc k) \<Longrightarrow> xa_walk n i = xa_walk n j"
proof (induction k arbitrary: n)
  case 0
  then obtain b f where n: "n = XNode 0 b f" by (cases n) auto
  have "xa_off i 0 = xa_off j 0" using 0(2) by (simp add: xa_off_def)
  with 0(1) n show ?case by simp (metis xa_off_less xa_walk.simps(1,2))
next
  case (Suc k)
  then obtain b f where n: "n = XNode (6 * Suc k) b f" by (cases n) auto
  have o: "xa_off i (6 * Suc k) = xa_off j (6 * Suc k)" "i mod 2 ^ (6 * Suc k) = j mod 2 ^ (6 * Suc k)"
    using Suc.prems(2) off_mod [of i "Suc k" j] by blast+
  have "f (xa_off j (6 * Suc k)) = XNull \<or> node_ok k (f (xa_off j (6 * Suc k)))"
    using Suc.prems(1) xa_off_less unfolding n node_ok.simps by blast
  with Suc.IH [OF _ o(2)] o(1) show ?case unfolding n xa_walk.simps by fastforce
qed

lemma node_nonempty: "node_ok k n \<Longrightarrow> \<exists>j < 2 ^ (6 * Suc k). xa_walk n j \<noteq> 0"
proof (induction k arbitrary: n)
  case 0
  then obtain b f where n: "n = XNode 0 b f" by (cases n) auto
  with 0 obtain i where i: "i < 64" "bit b i" by (auto simp: u64_zero_iff)
  with 0 n obtain v where "f i = XValue v" "v \<noteq> 0" by auto
  with i n show ?case by (intro exI [of _ i]) (simp add: xa_off_def)
next
  case (Suc k)
  then obtain b f where n: "n = XNode (6 * Suc k) b f" by (cases n) auto
  from Suc.prems n have b: "b \<noteq> 0" "\<forall>i < 64. bit b i \<longleftrightarrow> f i \<noteq> XNull" "\<forall>i < 64. f i = XNull \<or> node_ok k (f i)" by auto
  from b(1) obtain i where i: "i < 64" "bit b i" by (auto simp: u64_zero_iff)
  with b have ok: "node_ok k (f i)" by blast
  from Suc.IH [OF this] obtain j where j: "j < 2 ^ (6 * Suc k)" "xa_walk (f i) j \<noteq> 0" by blast
  let ?p = "2 ^ (6 * Suc k) :: nat"
  let ?j = "i * ?p + j"
  have "xa_off ?j (6 * Suc k) = i" using j(1) i(1) by (simp add: xa_off_def del: mult_Suc_right power_Suc)
  moreover have "xa_walk (f i) ?j = xa_walk (f i) j" by (rule walk_cong [OF ok]) simp
  ultimately have "xa_walk n ?j \<noteq> 0" using j(2) unfolding n xa_walk.simps by simp
  moreover have "?j < 2 ^ (6 * Suc (Suc k))"
  proof -
    have "?j < (i + 1) * ?p" using j(1) by (simp add: algebra_simps)
    also have "\<dots> \<le> 64 * ?p" using i(1) by (intro mult_right_mono) simp_all
    finally show ?thesis by (simp add: power_add)
  qed
  ultimately show ?case by blast
qed

section \<open>The array as a map\<close>

definition xa_map :: "xentry \<Rightarrow> nat \<Rightarrow> nat option" where
  "xa_map h index = (if xa_load h index = 0 then None else Some (xa_load h index))"

definition xa_put :: "nat \<Rightarrow> nat option \<Rightarrow> xentry \<Rightarrow> (nat option \<times> xentry) outcome" where
  "xa_put index v h =
     obind (case v of None \<Rightarrow> xa_erase h index | Some e \<Rightarrow> xa_store h index e) (\<lambda>(pr, h').
     Done (if pr = 0 then None else Some pr, h'))"

text \<open>Values are pointers with a clear lowest bit; the first index of an empty array is at most 63.\<close>

definition xa_permits :: "(nat \<Rightarrow> nat option) \<Rightarrow> nat \<Rightarrow> nat option \<Rightarrow> bool" where
  "xa_permits m index v \<longleftrightarrow> (case v of None \<Rightarrow> True | Some e \<Rightarrow> e \<noteq> 0 \<and> even e \<and> (index \<le> 63 \<or> m \<noteq> (\<lambda>_. None)))"

interpretation xa: key_value xa_ok xa_map xa_put xa_permits
proof
  fix h index v
  assume h: "xa_ok h" and p: "xa_permits (xa_map h) index v"
  define e where "e = (case v of None \<Rightarrow> 0 | Some e \<Rightarrow> e)"
  have "xa_map XNull = (\<lambda>_. None)" by (simp add: xa_map_def fun_eq_iff)
  then have "even e" "h \<noteq> XNull \<or> index \<le> 63 \<or> e = 0" using p by (auto simp: xa_permits_def e_def split: option.splits)
  from store_ok [OF h this] obtain h' where
    h': "xa_store h index e = Done (xa_load h index, h')" "xa_ok h'" "xa_load h' = (xa_load h)(index := e)" by blast
  have "xa_map h' = (xa_map h)(index := v)"
    using h'(3) p by (auto simp: fun_eq_iff xa_map_def e_def xa_permits_def split: option.splits)
  moreover have "xa_put index v h = Done (xa_map h index, h')"
    using h'(1) by (cases v) (simp_all add: xa_put_def xa_erase_def xa_map_def e_def)
  ultimately show "\<exists>s'. xa_put index v h = Done (xa_map h index, s') \<and> xa_ok s' \<and> xa_map s' = (xa_map h)(index := v)"
    using h'(2) by blast
qed

lemma empty_map:
  assumes "xa_ok h" "xa_map h = (\<lambda>_. None)"
  shows "h = XNull"
proof (rule ccontr)
  assume "h \<noteq> XNull"
  with assms(1) obtain k where k: "node_ok k h" by (auto simp: xa_ok_def)
  from node_nonempty [OF k] obtain j where "j < 2 ^ (6 * Suc k)" "xa_walk h j \<noteq> 0" by blast
  then have "xa_load h j \<noteq> 0" using load_node [OF k, of j] by simp
  with assms(2) show False by (auto simp: xa_map_def fun_eq_iff split: if_splits)
qed

section \<open>Searching\<close>

lemma bit_from_None: "bit_from b off = None \<longleftrightarrow> (\<forall>i. off \<le> i \<longrightarrow> i < 64 \<longrightarrow> \<not> bit b i)"
  by (auto simp: bit_from_def find_None_iff)

lemma bit_from_Some:
  assumes "bit_from b off = Some n"
  shows "off \<le> n" "n < 64" "bit b n" "off \<le> i \<Longrightarrow> i < n \<Longrightarrow> \<not> bit b i"
proof -
  from assms obtain k where k: "k < 64 - off" "n = off + k" "bit b n" "\<forall>j < k. \<not> bit b (off + j)"
    by (auto simp: bit_from_def find_Some_iff)
  then show "off \<le> n" "n < 64" "bit b n" by simp_all
  show "\<not> bit b i" if "off \<le> i" "i < n" using k(2) k(4) [rule_format, of "i - off"] that by simp
qed

text \<open>The result is the lowest occupied index from \<open>idx\<close> to \<open>mx\<close>.\<close>

definition first_found :: "(nat \<Rightarrow> nat) \<Rightarrow> nat \<Rightarrow> nat \<Rightarrow> (nat \<times> nat) option \<Rightarrow> bool" where
  "first_found m idx mx r \<longleftrightarrow> (case r of
     None \<Rightarrow> \<forall>j. idx \<le> j \<longrightarrow> j \<le> mx \<longrightarrow> m j = 0
   | Some (j, v) \<Rightarrow> idx \<le> j \<and> j \<le> mx \<and> v = m j \<and> v \<noteq> 0 \<and> (\<forall>i. idx \<le> i \<longrightarrow> i < j \<longrightarrow> m i = 0))"

lemma first_found_skip:
  assumes "first_found m idx1 mx r" "idx \<le> idx1" "\<And>j. idx \<le> j \<Longrightarrow> j < idx1 \<Longrightarrow> m j = 0"
  shows "first_found m idx mx r"
proof -
  have "m i = 0" if "idx \<le> i" "idx1 \<le> i \<Longrightarrow> m i = 0" for i
    using that assms(3) [of i] by (cases "idx1 \<le> i") auto
  with assms(1,2) show ?thesis by (auto simp: first_found_def split: option.splits)
qed

lemma off_0: "xa_off idx 0 = idx mod 64"
  by (simp add: xa_off_def)

lemma same_block:
  fixes i j :: nat
  assumes "i \<le> j" "j < i div 64 * 64 + 64"
  shows "j div 64 = i div 64" "i mod 64 \<le> j mod 64"
proof -
  have "j div 64 < i div 64 + 1" using assms(2) by (simp add: less_mult_imp_div_less)
  then show d: "j div 64 = i div 64" using div_le_mono [OF assms(1), of 64] by simp
  show "i mod 64 \<le> j mod 64" using assms(1) d div_mult_mod_eq [of i 64] div_mult_mod_eq [of j 64] by linarith
qed

text \<open>The step in a leaf.\<close>

lemma search_leaf:
  assumes leaf: "node_ok 0 (XNode 0 b f)" and m: "\<And>i. i < 64 \<Longrightarrow> m (idx div 64 * 64 + i) = xa_walk (f i) 0"
    and go: "\<not> outer \<or> idx \<le> mx \<and> idx \<le> 63" and idx: "idx < 2 ^ 64 - 64"
  shows "xa_search mx outer (XNode 0 b f) ps idx =
      (case ps of [] \<Rightarrow> Some (Done None) | p # qs \<Rightarrow> xa_search mx True p qs (idx div 64 * 64 + 64)) \<and>
      (\<forall>j. idx \<le> j \<longrightarrow> j < idx div 64 * 64 + 64 \<longrightarrow> m j = 0) \<or>
    (\<exists>r. xa_search mx outer (XNode 0 b f) ps idx = Some (Done r) \<and> first_found m idx mx r)"
proof -
  have b: "bit b i \<longleftrightarrow> f i \<noteq> XNull" "f i = XNull \<or> (\<exists>v. f i = XValue v \<and> v \<noteq> 0)" if "i < 64" for i
    using leaf that by auto
  have z: "m j = 0" if "j div 64 = idx div 64" "\<not> bit b (j mod 64)" for j
    using m [of "j mod 64"] b(1) [of "j mod 64"] that div_mult_mod_eq [of j 64] by simp
  have go': "\<not> (outer \<and> \<not> idx \<le> mx)" "\<not> (outer \<and> XA_MASK < idx div 2 ^ 0)" using go by (auto simp: XA_MASK_def)
  note u = xa_search.simps [of mx outer "XNode 0 b f" ps idx]
  show ?thesis
  proof (cases "bit_from b (idx mod 64)")
    case None
    have "(idx + 64) div 64 = idx div 64 + 1" by simp
    then have "(idx + 64) mod 2 ^ 64 div 2 ^ 6 * 2 ^ 6 = idx div 64 * 64 + 64" using idx by simp
    then have "xa_search mx outer (XNode 0 b f) ps idx =
      (case ps of [] \<Rightarrow> Some (Done None) | p # qs \<Rightarrow> xa_search mx True p qs (idx div 64 * 64 + 64))"
      unfolding u using go' None by (auto simp: off_0 XA_ENTRIES_def Let_def)
    moreover have "m j = 0" if "idx \<le> j" "j < idx div 64 * 64 + 64" for j
    proof -
      note s = same_block [OF that]
      from s(2) have "\<not> bit b (j mod 64)" using None by (simp add: bit_from_None)
      with s(1) show ?thesis by (rule z)
    qed
    ultimately show ?thesis by blast
  next
    case (Some n)
    note n = bit_from_Some [OF Some]
    let ?j = "idx div 64 * 64 + n"
    from b [OF n(2)] n(3) obtain v where v: "f n = XValue v" "v \<noteq> 0" by auto
    have ge: "idx \<le> ?j" using n(1) div_mult_mod_eq [of idx 64] by linarith
    have mj: "m ?j = v" using m [OF n(2)] v by simp
    have zero: "m i = 0" if "idx \<le> i" "i < ?j" for i
    proof -
      have "i < idx div 64 * 64 + 64" using that(2) n(2) by linarith
      note s = same_block [OF that(1) this]
      have "i mod 64 < n" using s(1) that(2) div_mult_mod_eq [of i 64] by linarith
      with s(2) have "\<not> bit b (i mod 64)" using n(4) by simp
      with s(1) show ?thesis by (rule z)
    qed
    have "xa_search mx outer (XNode 0 b f) ps idx = Some (Done (if ?j \<le> mx then Some (?j, v) else None))"
      unfolding u using go' Some v(1) by (auto simp: off_0 Let_def)
    moreover have "first_found m idx mx (if ?j \<le> mx then Some (?j, v) else None)"
      using ge mj v(2) zero by (auto simp: first_found_def)
    ultimately show ?thesis by blast
  qed
qed

lemma search_two_levels:
  assumes ok: "node_ok 1 (XNode 6 b f)"
  defines "h \<equiv> XNode 6 b f"
  shows "\<exists>r. xa_search mx True h [] idx = Some (Done r) \<and> first_found (xa_load h) idx mx r"
proof (induction "4096 - idx" arbitrary: idx rule: less_induct)
  case less
  have okh: "node_ok 1 h" using ok by (simp add: h_def)
  have big: "xa_load h j = 0" if "4096 \<le> j" for j using load_node [OF okh, of j] that by (simp add: div_eq_0_iff)
  have small: "xa_load h j = xa_walk (f (j div 64)) j" if "j < 4096" for j
    using load_node [OF okh, of j] that by (simp add: h_def xa_off_def)
  have absent: "xa_load h j = 0" if "\<not> bit b (j div 64)" for j
    using that ok big [of j] small [of j] by (cases "j < 4096") (auto simp: less_mult_imp_div_less)
  note u = xa_search.simps [of mx True h "[]" idx]
  show ?case
  proof (cases "idx \<le> mx \<and> idx < 4096")
    case False
    then have "xa_search mx True h [] idx = Some (Done None)"
      unfolding u by (auto simp: h_def XA_MASK_def not_less dest: div_le_mono [of 4096 _ 64])
    moreover have "first_found (xa_load h) idx mx None" using False big by (auto simp: first_found_def)
    ultimately show ?thesis by blast
  next
    case True
    then have go: "idx \<le> mx" "\<not> idx div 64 > XA_MASK" "xa_off idx 6 = idx div 64"
      by (auto simp: XA_MASK_def xa_off_def less_mult_imp_div_less)
    show ?thesis
    proof (cases "bit_from b (idx div 64)")
      case None
      then have "xa_search mx True h [] idx = Some (Done None)" unfolding u using go by (simp add: h_def Let_def)
      moreover have "xa_load h j = 0" if "idx \<le> j" for j
        using absent [of j] big [of j] None div_le_mono [OF that, of 64]
        by (cases "j < 4096") (auto simp: bit_from_None less_mult_imp_div_less)
      ultimately show ?thesis by (auto simp: first_found_def)
    next
      case (Some n)
      note n = bit_from_Some [OF Some]
      define idx1 where "idx1 = (if idx div 64 < n then n * 64 else idx)"
      have i1: "idx1 div 64 = n" "idx \<le> idx1" "idx1 < 4096"
        using n(1,2) True by (auto simp: idx1_def not_less intro: order_trans [OF _ mult_right_mono [of "Suc (idx div 64)" n 64]])
      have skip: "xa_load h j = 0" if "idx \<le> j" "j < idx1" for j
      proof -
        have "idx div 64 \<le> j div 64" "j div 64 < n"
          using that i1 div_le_mono [of idx j 64] by (auto simp: idx1_def less_mult_imp_div_less split: if_splits)
        then show ?thesis using n(4) absent by blast
      qed
      from ok n(2,3) have "node_ok 0 (f n)" by auto
      then obtain b' f' where c: "f n = XNode 0 b' f'" "node_ok 0 (XNode 0 b' f')" by (cases "f n") auto
      have e: "idx div 2 ^ (6 + XA_SHIFT) * 2 ^ (6 + XA_SHIFT) + n * 2 ^ 6 = n * 64"
        using True by (simp add: XA_SHIFT_def)
      have s: "xa_search mx True h [] idx = xa_search mx False (XNode 0 b' f') [h] idx1"
        unfolding u using go Some c(1) e by (simp add: h_def Let_def idx1_def XA_SHIFT_def)
      have m: "xa_load h (idx1 div 64 * 64 + i) = xa_walk (f' i) 0" if "i < 64" for i
        using small [of "n * 64 + i"] n(2) c that i1(1)
        by (auto simp: off_0)
      from search_leaf [OF c(2) m, where outer = False and mx = mx and ps = "[h]"] i1(3) consider
        (up) "xa_search mx False (XNode 0 b' f') [h] idx1 = xa_search mx True h [] (n * 64 + 64)"
          "\<forall>j. idx1 \<le> j \<longrightarrow> j < n * 64 + 64 \<longrightarrow> xa_load h j = 0"
        | (found) r where "xa_search mx False (XNode 0 b' f') [h] idx1 = Some (Done r)"
          "first_found (xa_load h) idx1 mx r"
        using i1(1) by auto
      then show ?thesis
      proof cases
        case found
        with s first_found_skip [OF _ i1(2) skip] show ?thesis by auto
      next
        case up
        have lt: "idx < n * 64 + 64" using i1(1,2) div_mult_mod_eq [of idx1 64] by (metis add_less_cancel_left le_less_trans mod_less_divisor zero_less_numeral)
        then have "4096 - (n * 64 + 64) < 4096 - idx" using True by (intro diff_less_mono2) auto
        from less.hyps [OF this] obtain r where
          r: "xa_search mx True h [] (n * 64 + 64) = Some (Done r)" "first_found (xa_load h) (n * 64 + 64) mx r" by blast
        have "xa_load h j = 0" if "idx \<le> j" "j < n * 64 + 64" for j
          using that skip up(2) by (cases "j < idx1") auto
        with first_found_skip [OF r(2), of idx] lt r(1) s up(1) show ?thesis by auto
      qed
    qed
  qed
qed

section \<open>Properties\<close>

text \<open>
  C10. From the empty array on, every sequence of stores and erasures returns the previous values and
  leaves the values that the same sequence gives on a function, provided that the first index stored in an
  empty array is at most 63. When no value is left, all nodes have been freed.
\<close>

theorem xarray_refines_map:
  assumes "permitted xa_permits (\<lambda>_. None) ops"
  shows "\<exists>h. kv_run xa_put XNull ops = Done (fst (map_run (\<lambda>_. None) ops), h) \<and>
    xa_map h = snd (map_run (\<lambda>_. None) ops) \<and> (xa_map h = (\<lambda>_. None) \<longrightarrow> h = XNull)"
proof -
  have e: "xa_map XNull = (\<lambda>_. None)" by (simp add: xa_map_def fun_eq_iff)
  show ?thesis using xa.run [of XNull ops] assms empty_map unfolding e by (fastforce simp: xa_ok_def)
qed

theorem xarray_refines_map_witness:
  "\<exists>h. kv_run xa_put XNull [(5, Some 8), (4100, Some 16), (5, Some 24), (4100, None)] =
       Done ([None, None, Some 8, Some 16], h) \<and> xa_map h 5 = Some 24 \<and> xa_map h 4100 = None"
proof -
  have "permitted xa_permits (\<lambda>_. None) [(5, Some 8), (4100, Some 16), (5, Some 24), (4100, None)]"
    by (simp add: xa_permits_def)
  from xarray_refines_map [OF this] show ?thesis by auto
qed

text \<open>
  The first store into an empty array with an index above 63 puts the value into an inner node: all
  indices below the same entry then return it, and a store to another of them stops the machine.
\<close>

theorem xa_store_first_inner:
  "\<exists>h. xa_store XNull 64 8 = Done (0, h) \<and> xa_load h 64 = 8 \<and> xa_load h 65 = 8 \<and> xa_store h 65 16 = Panic"
proof -
  have b: "bit_count 64 = 7" by (simp add: bit_count.simps)
  have h: "xa_store_first 64 8 = XNode 6 (xa_bit 1) ((\<lambda>_. XNull)(1 := XValue 8))"
    by (simp add: xa_store_first_def Let_def XA_MASK_def XA_SHIFT_def b xa_off_def XA_AS_VALUE_def)
  have "xa_grow 65 6 n = (6, n)" for n by (simp add: xa_grow.simps XA_MASK_def)
  then show ?thesis by (simp add: xa_store_def h xa_off_def XA_MASK_def)
qed

text \<open>
  C32. In an array of at most two levels, the search for an occupied index returns, and its result is the
  lowest occupied index from the given one up to the maximum, or nothing when there is none.
\<close>

theorem xa_find_lowest:
  assumes "node_ok k h" "k \<le> 1"
  shows "\<exists>r. xa_find h index mx = Some (Done r) \<and> first_found (xa_load h) index mx r"
proof (cases "k = 0")
  case True
  with assms(1) obtain b f where h: "h = XNode 0 b f" "node_ok 0 (XNode 0 b f)" by (cases h) auto
  have l: "xa_load h j = (if 64 \<le> j then 0 else xa_walk (f j) 0)" for j
  proof (cases "j < 64")
    case True
    with h have "f j = XNull \<or> (\<exists>v. f j = XValue v)" by auto
    then show ?thesis using h(1) True by (auto simp: XA_MASK_def off_0)
  qed (simp add: h(1) XA_MASK_def)
  show ?thesis
  proof (cases "index \<le> mx \<and> index \<le> 63")
    case True
    then have "index < 2 ^ 64 - 64" by simp
    moreover have "xa_load h (index div 64 * 64 + i) = xa_walk (f i) 0" if "i < 64" for i using that True l by simp
    ultimately have "xa_search mx True h [] index = Some (Done None) \<and> (\<forall>j. index \<le> j \<longrightarrow> j < 64 \<longrightarrow> xa_load h j = 0) \<or>
      (\<exists>r. xa_search mx True h [] index = Some (Done r) \<and> first_found (xa_load h) index mx r)"
      using search_leaf [OF h(2), of "xa_load h" index True mx "[]"] True h(1) by auto
    moreover have "first_found (xa_load h) index mx None" if "\<forall>j. index \<le> j \<longrightarrow> j < 64 \<longrightarrow> xa_load h j = 0"
      using that l by (simp add: first_found_def not_le)
    ultimately show ?thesis using h(1) by (auto simp: xa_find_def)
  next
    case False
    then have "xa_search mx True (XNode 0 b f) [] index = Some (Done None)"
      by (subst xa_search.simps) (auto simp: XA_MASK_def)
    moreover have "first_found (xa_load h) index mx None" using False l by (auto simp: first_found_def)
    ultimately show ?thesis using h(1) by (auto simp: xa_find_def)
  qed
next
  case False
  with assms obtain b f where h: "h = XNode 6 b f" "node_ok 1 (XNode 6 b f)"
    by (cases h) (auto simp: le_Suc_eq dest: node_ok_shift)
  from search_two_levels [OF h(2), of mx index] show ?thesis by (simp add: xa_find_def h(1))
qed

theorem xa_find_lowest_witness:
  "\<exists>j v. xa_find (XNode 0 (xa_bit 9) ((\<lambda>_. XNull)(9 := XValue 16))) 6 100 = Some (Done (Some (j, v))) \<and> 6 \<le> j"
proof -
  let ?h = "XNode 0 (xa_bit 9) ((\<lambda>_. XNull)(9 := XValue 16))"
  have "xa_bit 9 \<noteq> 0" using bit_xa_bit [of 9 9] by fastforce
  then have "node_ok 0 ?h" by simp
  from xa_find_lowest [OF this, of 6 100] obtain r where
    r: "xa_find ?h 6 100 = Some (Done r)" "first_found (xa_load ?h) 6 100 r" by auto
  have "xa_load ?h 9 = 16" by (simp add: XA_MASK_def off_0)
  then have "\<not> first_found (xa_load ?h) 6 100 None"
    unfolding first_found_def option.case by (auto intro!: exI [of _ 9] simp del: xa_load.simps)
  with r(2) obtain j v where "r = Some (j, v)" by (cases r) auto
  with r show ?thesis by (auto simp: first_found_def simp del: xa_load.simps)
qed

definition example_tree :: xentry where
  "example_tree = XNode 12 (xa_bit 1) ((\<lambda>_. XNull)(1 :=
     XNode 6 (xa_bit 0 OR xa_bit 1) ((\<lambda>_. XNull)(
       0 := XNode 0 (xa_bit 0) ((\<lambda>_. XNull)(0 := XValue 16)),
       1 := XNode 0 (xa_bit 0) ((\<lambda>_. XNull)(0 := XValue 24))))))"

text \<open>
  In an array of three levels the search can miss: after a leaf without further values it goes up one node
  and compares the whole index with the range of this node, so it stops although a later index is occupied.
\<close>
theorem xa_find_misses:
  "node_ok 2 example_tree \<and> xa_load example_tree 4160 = 24 \<and>
   xa_find example_tree 4097 (2 ^ 64 - 1) = Some (Done None)"
proof -
  have z: "xa_bit 0 \<noteq> 0" "xa_bit 1 \<noteq> 0" "xa_bit 0 OR xa_bit 1 \<noteq> 0"
    by (simp_all add: u64_zero_iff bit_or_iff) (auto intro!: exI [of _ "0 :: nat"] exI [of _ "1 :: nat"])
  have w: "node_ok 2 example_tree"
    using z by (simp add: example_tree_def numeral_2_eq_2 bit_or_iff)
  have f: "bit_from (xa_bit 1) 1 = Some 1" "bit_from (xa_bit 0 OR xa_bit 1) 0 = Some 0" "bit_from (xa_bit 0) 1 = None"
    by (simp_all add: bit_from_def upt_conv_Cons bit_or_iff find_None_iff)
  have o: "xa_off 4097 12 = 1" "xa_off 4097 6 = 0" "xa_off 4097 0 = 1" "xa_off 4160 12 = 1" "xa_off 4160 6 = 1" "xa_off 4160 0 = 0"
    by (simp_all add: xa_off_def)
  have "xa_find example_tree 4097 (2 ^ 64 - 1) = Some (Done None)"
    unfolding xa_find_def example_tree_def
    by (simp add: xa_search.simps [of _ True "XNode 12 _ _" "[]"] xa_search.simps [of _ False "XNode 6 _ _" "[_]"]
        xa_search.simps [of _ False "XNode 0 _ _" "[_, _]"] xa_search.simps [of _ True "XNode 6 _ _" "[_]"]
        o f XA_MASK_def Let_def XA_ENTRIES_def del: One_nat_def)
  then show ?thesis using w by (simp add: example_tree_def o XA_MASK_def)
qed

end
