(* ===== verification/Hashmap.thy ===== *)
theory Hashmap
  imports Key_Value
begin

text \<open>
  The hash map of \<^verbatim>\<open>libkstructures/hashmap/hashmap.c\<close>: an array of chains, indexed by the hash of the
  key. A chain is the list of its nodes. The keys of a map are integers or C strings; strings are
  the bytes before the terminating zero. The values are pointers, 0 is the null pointer.
\<close>

section \<open>Definitions\<close>

datatype hkey = KInt u64 | KStr "u8 list"

datatype hashmap_type = HASHMAP_PTR | HASHMAP_INT

type_synonym chain = "(hkey \<times> nat) list"

record hashmap =
  h_type :: hashmap_type
  h_size :: nat
  h_entries :: "chain list"

text \<open>The bytes of a key are read as \<^verbatim>\<open>char\<close>, which is signed.\<close>

fun hash_loop :: "u64 \<Rightarrow> u8 list \<Rightarrow> u64" where
  "hash_loop h [] = h"
| "hash_loop h (c # cs) = hash_loop (scast c + push_bit 6 h + push_bit 16 h - h) cs"

definition hashmap_hash :: "u8 list \<Rightarrow> u64" where
  "hashmap_hash key = hash_loop 0 key"

text \<open>The macros on keys. A key of the wrong kind is used as the other one.\<close>

fun HASHMAP_HASH :: "hashmap_type \<Rightarrow> hkey \<Rightarrow> u64 outcome" where
  "HASHMAP_HASH HASHMAP_INT (KInt i) = Done i"
| "HASHMAP_HASH HASHMAP_PTR (KStr s) = Done (hashmap_hash s)"
| "HASHMAP_HASH _ _ = Fault"

fun HASHMAP_COMPARE :: "hashmap_type \<Rightarrow> hkey \<Rightarrow> hkey \<Rightarrow> bool" where
  "HASHMAP_COMPARE HASHMAP_INT a b = (a = b)"
| "HASHMAP_COMPARE HASHMAP_PTR (KStr a) (KStr b) = (take 256 (a @ [0]) = take 256 (b @ [0]))"
| "HASHMAP_COMPARE HASHMAP_PTR a b = (a = b)"

definition hashmap_create :: "nat \<Rightarrow> hashmap" where
  "hashmap_create sz = \<lparr>h_type = HASHMAP_PTR, h_size = sz, h_entries = replicate sz []\<rparr>"

definition hashmap_create_int :: "nat \<Rightarrow> hashmap" where
  "hashmap_create_int sz = \<lparr>h_type = HASHMAP_INT, h_size = sz, h_entries = replicate sz []\<rparr>"

text \<open>The index of the chain of a key; the remainder by a size of 0 is a fault.\<close>

definition chain_index :: "hashmap \<Rightarrow> hkey \<Rightarrow> nat outcome" where
  "chain_index m key =
     obind (HASHMAP_HASH (h_type m) key) (\<lambda>h.
     if h_size m = 0 then Fault else Done (unat h mod h_size m))"

fun chain_set :: "hashmap_type \<Rightarrow> hkey \<Rightarrow> nat \<Rightarrow> chain \<Rightarrow> chain" where
  "chain_set t key v [] = [(key, v)]"
| "chain_set t key v ((k, x) # es) =
     (if HASHMAP_COMPARE t k key then (k, v) # es else (k, x) # chain_set t key v es)"

definition hashmap_set :: "hashmap \<Rightarrow> hkey \<Rightarrow> nat \<Rightarrow> hashmap outcome" where
  "hashmap_set m key v =
     obind (chain_index m key) (\<lambda>i.
     obind (aread (h_entries m) i) (\<lambda>c.
     obind (awrite (h_entries m) i (chain_set (h_type m) key v c)) (\<lambda>es.
     Done (m\<lparr>h_entries := es\<rparr>))))"

fun chain_find :: "hashmap_type \<Rightarrow> hkey \<Rightarrow> chain \<Rightarrow> nat option" where
  "chain_find t key [] = None"
| "chain_find t key ((k, x) # es) = (if HASHMAP_COMPARE t k key then Some x else chain_find t key es)"

definition hashmap_get :: "hashmap \<Rightarrow> hkey \<Rightarrow> nat outcome" where
  "hashmap_get m key =
     obind (chain_index m key) (\<lambda>i.
     obind (aread (h_entries m) i) (\<lambda>c.
     Done (case chain_find (h_type m) key c of None \<Rightarrow> 0 | Some v \<Rightarrow> v)))"

definition hashmap_has :: "hashmap \<Rightarrow> hkey \<Rightarrow> bool outcome" where
  "hashmap_has m key =
     obind (chain_index m key) (\<lambda>i.
     obind (aread (h_entries m) i) (\<lambda>c.
     Done (chain_find (h_type m) key c \<noteq> None)))"

fun chain_remove :: "hashmap_type \<Rightarrow> hkey \<Rightarrow> chain \<Rightarrow> nat \<times> chain" where
  "chain_remove t key [] = (0, [])"
| "chain_remove t key ((k, x) # es) =
     (if HASHMAP_COMPARE t k key then (x, es)
      else case chain_remove t key es of (v, es') \<Rightarrow> (v, (k, x) # es'))"

definition hashmap_remove :: "hashmap \<Rightarrow> hkey \<Rightarrow> (nat \<times> hashmap) outcome" where
  "hashmap_remove m key =
     obind (chain_index m key) (\<lambda>i.
     obind (aread (h_entries m) i) (\<lambda>c.
     case chain_remove (h_type m) key c of (v, c') \<Rightarrow>
     obind (awrite (h_entries m) i c') (\<lambda>es.
     Done (v, m\<lparr>h_entries := es\<rparr>))))"

text \<open>The loops over all chains. Freeing a map gives the memory of its nodes and string keys back.\<close>

definition hashmap_keys :: "hashmap \<Rightarrow> hkey list" where
  "hashmap_keys m = concat (map (map fst) (h_entries m))"

definition hashmap_values :: "hashmap \<Rightarrow> nat list" where
  "hashmap_values m = concat (map (map snd) (h_entries m))"

section \<open>The invariant\<close>

text \<open>A key that the map can keep apart from all others: of its type, and shorter than 256 bytes.\<close>

fun key_ok :: "hashmap_type \<Rightarrow> hkey \<Rightarrow> bool" where
  "key_ok HASHMAP_INT (KInt i) = True"
| "key_ok HASHMAP_PTR (KStr s) = (length s < 256 \<and> 0 \<notin> set s)"
| "key_ok t k = False"

definition hash_of :: "hashmap_type \<Rightarrow> hkey \<Rightarrow> u64" where
  "hash_of t key = (case HASHMAP_HASH t key of Done h \<Rightarrow> h | _ \<Rightarrow> 0)"

definition chain_ok :: "hashmap_type \<Rightarrow> chain \<Rightarrow> bool" where
  "chain_ok t c \<longleftrightarrow> (\<forall>k \<in> fst ` set c. key_ok t k)"

definition chain_inv :: "hashmap \<Rightarrow> nat \<Rightarrow> chain \<Rightarrow> bool" where
  "chain_inv m i c \<longleftrightarrow> distinct (map fst c) \<and> chain_ok (h_type m) c \<and>
     (\<forall>k \<in> fst ` set c. unat (hash_of (h_type m) k) mod h_size m = i)"

definition hashmap_inv :: "hashmap \<Rightarrow> bool" where
  "hashmap_inv m \<longleftrightarrow> 0 < h_size m \<and> length (h_entries m) = h_size m \<and>
     (\<forall>i < h_size m. chain_inv m i (h_entries m ! i))"

definition hashmap_map :: "hashmap \<Rightarrow> hkey \<Rightarrow> nat option" where
  "hashmap_map m key =
     (if key_ok (h_type m) key
      then map_of (h_entries m ! (unat (hash_of (h_type m) key) mod h_size m)) key else None)"

lemma compare_eq:
  assumes "key_ok t a" "key_ok t b"
  shows "HASHMAP_COMPARE t a b \<longleftrightarrow> a = b"
proof (cases t)
  case HASHMAP_PTR
  then obtain x y where ab: "a = KStr x" "b = KStr y" "length x < 256" "length y < 256" "0 \<notin> set x" "0 \<notin> set y"
    using assms by (cases a; cases b) auto
  have "take 256 (x @ [0]) = x @ [0]" "take 256 (y @ [0]) = y @ [0]" using ab by simp_all
  then show ?thesis using HASHMAP_PTR ab by simp
qed simp

lemma index_ok:
  "key_ok (h_type m) key \<Longrightarrow> 0 < h_size m \<Longrightarrow>
   chain_index m key = Done (unat (hash_of (h_type m) key) mod h_size m)"
  by (cases "h_type m"; cases key) (auto simp: chain_index_def hash_of_def)

lemma chain_ok_Cons [simp]: "chain_ok t (e # c) \<longleftrightarrow> key_ok t (fst e) \<and> chain_ok t c"
  by (simp add: chain_ok_def)

lemma chain_find_map: "key_ok t key \<Longrightarrow> chain_ok t c \<Longrightarrow> chain_find t key c = map_of c key"
  by (induction c) (auto simp: compare_eq)

lemma chain_set_map:
  "key_ok t key \<Longrightarrow> chain_ok t c \<Longrightarrow> map_of (chain_set t key v c) = (map_of c)(key \<mapsto> v)"
  by (induction c) (auto simp: compare_eq fun_eq_iff)

lemma chain_set_keys:
  "key_ok t key \<Longrightarrow> chain_ok t c \<Longrightarrow> fst ` set (chain_set t key v c) = insert key (fst ` set c)"
proof (induction c)
  case (Cons e c)
  then show ?case by (cases e; cases "fst e = key") (simp_all add: compare_eq insert_commute)
qed simp

lemma chain_set_distinct:
  "key_ok t key \<Longrightarrow> chain_ok t c \<Longrightarrow> distinct (map fst c) \<Longrightarrow> distinct (map fst (chain_set t key v c))"
proof (induction c)
  case (Cons e c)
  then show ?case using chain_set_keys [of t key c v] by (cases e; cases "fst e = key") (auto simp: compare_eq)
qed simp

lemma chain_remove_spec:
  "key_ok t key \<Longrightarrow> chain_ok t c \<Longrightarrow> distinct (map fst c) \<Longrightarrow> chain_remove t key c = (v, c') \<Longrightarrow>
   v = (case map_of c key of None \<Rightarrow> 0 | Some x \<Rightarrow> x) \<and> map_of c' = (map_of c)(key := None) \<and>
   set c' \<subseteq> set c \<and> distinct (map fst c')"
proof (induction c arbitrary: c')
  case (Cons e c)
  obtain k x where e: "e = (k, x)" by fastforce
  show ?case
  proof (cases "k = key")
    case True
    then have "map_of c key = None" using Cons.prems e by (auto simp: map_of_eq_None_iff)
    with True Cons.prems e show ?thesis by (auto simp: compare_eq fun_eq_iff)
  next
    case False
    obtain c1 where c1: "chain_remove t key c = (v, c1)" "c' = (k, x) # c1"
      using False Cons.prems e by (auto simp: compare_eq split: prod.splits)
    with Cons.IH [of c1] Cons.prems False e show ?thesis by (auto simp: fun_eq_iff)
  qed
qed auto

text \<open>A chain is replaced.\<close>

definition replace_chain :: "nat \<Rightarrow> chain \<Rightarrow> hashmap \<Rightarrow> hashmap" where
  "replace_chain i c m = m\<lparr>h_entries := (h_entries m)[i := c]\<rparr>"

lemma replace_chain_ok:
  assumes inv: "hashmap_inv m" and key: "key_ok (h_type m) key"
  defines "i \<equiv> unat (hash_of (h_type m) key) mod h_size m"
  assumes c: "chain_ok (h_type m) c" "distinct (map fst c)"
    "fst ` set c \<subseteq> insert key (fst ` set (h_entries m ! i))" "map_of c = (map_of (h_entries m ! i))(key := v)"
  shows "hashmap_inv (replace_chain i c m)" "hashmap_map (replace_chain i c m) = (hashmap_map m)(key := v)"
proof -
  have i: "i < h_size m" "length (h_entries m) = h_size m" using inv by (simp_all add: hashmap_inv_def i_def)
  have "chain_inv m i (h_entries m ! i)" using inv i by (simp add: hashmap_inv_def)
  then have "chain_inv m i c" using c(1-3) unfolding chain_inv_def i_def by blast
  then have "chain_inv m j ((h_entries m)[i := c] ! j)" if "j < h_size m" for j
    using inv i that by (auto simp: hashmap_inv_def nth_list_update)
  then show "hashmap_inv (replace_chain i c m)"
    using inv i by (simp add: hashmap_inv_def replace_chain_def chain_inv_def)
  show "hashmap_map (replace_chain i c m) = (hashmap_map m)(key := v)"
  proof (rule ext)
    fix k
    show "hashmap_map (replace_chain i c m) k = ((hashmap_map m)(key := v)) k"
      using i c(4) key by (auto simp: hashmap_map_def replace_chain_def nth_list_update i_def)
  qed
qed

lemma chain_of:
  assumes "hashmap_inv m" "key_ok (h_type m) key"
  defines "i \<equiv> unat (hash_of (h_type m) key) mod h_size m"
  shows "i < length (h_entries m)" "chain_index m key = Done i" "chain_ok (h_type m) (h_entries m ! i)"
    "distinct (map fst (h_entries m ! i))" "map_of (h_entries m ! i) key = hashmap_map m key"
proof -
  show i: "i < length (h_entries m)" "chain_index m key = Done i"
    using assms(1) index_ok [OF assms(2)] by (simp_all add: hashmap_inv_def i_def)
  show "chain_ok (h_type m) (h_entries m ! i)" "distinct (map fst (h_entries m ! i))"
    using assms(1) i(1) by (simp_all add: hashmap_inv_def chain_inv_def)
  show "map_of (h_entries m ! i) key = hashmap_map m key" using assms(2) by (simp add: hashmap_map_def i_def)
qed

lemma get_ok:
  assumes "hashmap_inv m" "key_ok (h_type m) key"
  shows "hashmap_get m key = Done (case hashmap_map m key of None \<Rightarrow> 0 | Some v \<Rightarrow> v)"
    "hashmap_has m key = Done (hashmap_map m key \<noteq> None)"
  using chain_of [OF assms] chain_find_map [OF assms(2) chain_of(3) [OF assms]]
  by (simp_all add: hashmap_get_def hashmap_has_def aread_def)

lemma set_ok:
  assumes "hashmap_inv m" "key_ok (h_type m) key"
  shows "\<exists>m'. hashmap_set m key v = Done m' \<and> hashmap_inv m' \<and> h_type m' = h_type m \<and>
    hashmap_map m' = (hashmap_map m)(key \<mapsto> v)"
proof -
  let ?i = "unat (hash_of (h_type m) key) mod h_size m" and ?t = "h_type m"
  let ?c = "chain_set ?t key v (h_entries m ! ?i)"
  note co = chain_of [OF assms]
  have keys: "fst ` set ?c = insert key (fst ` set (h_entries m ! ?i))" by (rule chain_set_keys [OF assms(2) co(3)])
  then have "chain_ok ?t ?c" using co(3) assms(2) by (simp add: chain_ok_def)
  note r = replace_chain_ok [OF assms this chain_set_distinct [OF assms(2) co(3,4)] _ chain_set_map [OF assms(2) co(3)]]
  have "hashmap_set m key v = Done (replace_chain ?i ?c m)"
    using co by (simp add: hashmap_set_def aread_def awrite_def replace_chain_def)
  with r keys show ?thesis by (auto simp: replace_chain_def)
qed

lemma remove_ok:
  assumes "hashmap_inv m" "key_ok (h_type m) key"
  shows "\<exists>m'. hashmap_remove m key = Done (case hashmap_map m key of None \<Rightarrow> 0 | Some v \<Rightarrow> v, m') \<and>
    hashmap_inv m' \<and> h_type m' = h_type m \<and> hashmap_map m' = (hashmap_map m)(key := None)"
proof -
  let ?i = "unat (hash_of (h_type m) key) mod h_size m" and ?t = "h_type m"
  note co = chain_of [OF assms]
  obtain v c where c: "chain_remove ?t key (h_entries m ! ?i) = (v, c)" by fastforce
  note s = chain_remove_spec [OF assms(2) co(3,4) c]
  have "chain_ok ?t c" using co(3) s by (auto simp: chain_ok_def)
  moreover have "fst ` set c \<subseteq> insert key (fst ` set (h_entries m ! ?i))" using s by auto
  ultimately have "hashmap_inv (replace_chain ?i c m)" "hashmap_map (replace_chain ?i c m) = (hashmap_map m)(key := None)"
    using replace_chain_ok [OF assms, of c None] s by blast+
  moreover have "hashmap_remove m key = Done (v, replace_chain ?i c m)"
    using co c by (simp add: hashmap_remove_def aread_def awrite_def replace_chain_def)
  ultimately show ?thesis using s co(5) by (auto simp: replace_chain_def)
qed

section \<open>The map of the keys\<close>

text \<open>A store as the key-value contract has it: the old value is looked up before.\<close>

definition hashmap_put :: "hkey \<Rightarrow> nat option \<Rightarrow> hashmap \<Rightarrow> (nat option \<times> hashmap) outcome" where
  "hashmap_put key v m =
     obind (hashmap_has m key) (\<lambda>h.
     obind (hashmap_get m key) (\<lambda>old.
     obind (case v of None \<Rightarrow> obind (hashmap_remove m key) (\<lambda>(x, m'). Done m') | Some x \<Rightarrow> hashmap_set m key x) (\<lambda>m'.
     Done (if h then Some old else None, m'))))"

definition hashmap_of_type :: "hashmap_type \<Rightarrow> hashmap \<Rightarrow> bool" where
  "hashmap_of_type t m \<longleftrightarrow> hashmap_inv m \<and> h_type m = t"

interpretation hm: key_value "hashmap_of_type t" hashmap_map hashmap_put "\<lambda>m key v. key_ok t key" for t
proof
  fix m key v
  assume m: "hashmap_of_type t m" and key: "key_ok t key"
  then have inv: "hashmap_inv m" "key_ok (h_type m) key" "h_type m = t" by (simp_all add: hashmap_of_type_def)
  have old: "(if hashmap_map m key \<noteq> None then Some (case hashmap_map m key of None \<Rightarrow> 0 | Some v \<Rightarrow> v) else None)
      = hashmap_map m key" by (cases "hashmap_map m key") simp_all
  have "\<exists>m'. (case v of None \<Rightarrow> obind (hashmap_remove m key) (\<lambda>(x, m'). Done m') | Some x \<Rightarrow> hashmap_set m key x) = Done m' \<and>
      hashmap_inv m' \<and> h_type m' = h_type m \<and> hashmap_map m' = (hashmap_map m)(key := v)"
    using remove_ok [OF inv(1,2)] set_ok [OF inv(1,2)] by (cases v) fastforce+
  then show "\<exists>s'. hashmap_put key v m = Done (hashmap_map m key, s') \<and> hashmap_of_type t s' \<and>
      hashmap_map s' = (hashmap_map m)(key := v)"
    using get_ok [OF inv(1,2)] inv(3) old by (auto simp: hashmap_put_def hashmap_of_type_def)
qed

lemma create_ok:
  assumes "0 < n"
  shows "hashmap_of_type HASHMAP_PTR (hashmap_create n)" "hashmap_map (hashmap_create n) = (\<lambda>_. None)"
    "hashmap_of_type HASHMAP_INT (hashmap_create_int n)" "hashmap_map (hashmap_create_int n) = (\<lambda>_. None)"
  using assms by (auto simp: hashmap_of_type_def hashmap_inv_def chain_inv_def chain_ok_def hashmap_create_def
      hashmap_create_int_def hashmap_map_def fun_eq_iff)

text \<open>The lists of keys and values of a map show every entry once.\<close>

lemma keys_map:
  assumes "hashmap_inv m"
  shows "set (zip (hashmap_keys m) (hashmap_values m)) = {(k, v). hashmap_map m k = Some v}"
proof -
  have z: "zip (concat (map (map fst) cs)) (concat (map (map snd) cs)) = concat cs" for cs :: "chain list"
    by (induction cs) (simp_all add: zip_append zip_map_fst_snd)
  have "(k, v) \<in> set (h_entries m ! i) \<longleftrightarrow> hashmap_map m k = Some v \<and> unat (hash_of (h_type m) k) mod h_size m = i"
    if "i < h_size m" for k v i
  proof -
    have "chain_inv m i (h_entries m ! i)" using assms that by (simp add: hashmap_inv_def)
    then have c: "distinct (map fst (h_entries m ! i))"
      "k \<in> fst ` set (h_entries m ! i) \<Longrightarrow> key_ok (h_type m) k \<and> unat (hash_of (h_type m) k) mod h_size m = i"
      by (auto simp: chain_inv_def chain_ok_def)
    show ?thesis
      using c(2) map_of_eq_Some_iff [OF c(1), of k v] by (force simp: hashmap_map_def image_iff)
  qed
  moreover have "unat (hash_of (h_type m) k) mod h_size m < h_size m" for k using assms by (simp add: hashmap_inv_def)
  moreover have "length (h_entries m) = h_size m" using assms by (simp add: hashmap_inv_def)
  ultimately show ?thesis
    unfolding hashmap_keys_def hashmap_values_def z by (fastforce simp: in_set_conv_nth [of _ "h_entries m"])
qed



text \<open>
  Longer strings are not kept apart: in a map with one chain, a key that has its first 256 bytes in common
  with a stored key is taken for it.
\<close>

theorem hashmap_long_keys_clash:
  "\<exists>m. hashmap_set (hashmap_create 1) (KStr (replicate 256 65)) 7 = Done m \<and>
     hashmap_get m (KStr (replicate 256 65 @ [66])) = Done 7"
  by (simp add: hashmap_set_def hashmap_get_def chain_index_def hashmap_create_def aread_def awrite_def)

end
