(* ===== verification/Checksums.thy ===== *)
theory Checksums
  imports Prelude
begin

text \<open>
  The checksums: CRC-32 with a table of 256 entries (\<^verbatim>\<open>hexahedron/misc/hash.c\<close>) and with a table of
  16 entries (\<^verbatim>\<open>libkstructures/gzip/crc32.c\<close>), the FNV hashes, and Adler-32
  (\<^verbatim>\<open>libkstructures/gzip/adler32.c\<close>). The data are the bytes of the buffer.
\<close>

section \<open>Definitions\<close>

definition crc_table :: "u32 list" where
  "crc_table =
    [0x00000000, 0x77073096, 0xee0e612c, 0x990951ba, 0x076dc419, 0x706af48f, 0xe963a535, 0x9e6495a3,
     0x0edb8832, 0x79dcb8a4, 0xe0d5e91e, 0x97d2d988, 0x09b64c2b, 0x7eb17cbd, 0xe7b82d07, 0x90bf1d91,
     0x1db71064, 0x6ab020f2, 0xf3b97148, 0x84be41de, 0x1adad47d, 0x6ddde4eb, 0xf4d4b551, 0x83d385c7,
     0x136c9856, 0x646ba8c0, 0xfd62f97a, 0x8a65c9ec, 0x14015c4f, 0x63066cd9, 0xfa0f3d63, 0x8d080df5,
     0x3b6e20c8, 0x4c69105e, 0xd56041e4, 0xa2677172, 0x3c03e4d1, 0x4b04d447, 0xd20d85fd, 0xa50ab56b,
     0x35b5a8fa, 0x42b2986c, 0xdbbbc9d6, 0xacbcf940, 0x32d86ce3, 0x45df5c75, 0xdcd60dcf, 0xabd13d59,
     0x26d930ac, 0x51de003a, 0xc8d75180, 0xbfd06116, 0x21b4f4b5, 0x56b3c423, 0xcfba9599, 0xb8bda50f,
     0x2802b89e, 0x5f058808, 0xc60cd9b2, 0xb10be924, 0x2f6f7c87, 0x58684c11, 0xc1611dab, 0xb6662d3d,
     0x76dc4190, 0x01db7106, 0x98d220bc, 0xefd5102a, 0x71b18589, 0x06b6b51f, 0x9fbfe4a5, 0xe8b8d433,
     0x7807c9a2, 0x0f00f934, 0x9609a88e, 0xe10e9818, 0x7f6a0dbb, 0x086d3d2d, 0x91646c97, 0xe6635c01,
     0x6b6b51f4, 0x1c6c6162, 0x856530d8, 0xf262004e, 0x6c0695ed, 0x1b01a57b, 0x8208f4c1, 0xf50fc457,
     0x65b0d9c6, 0x12b7e950, 0x8bbeb8ea, 0xfcb9887c, 0x62dd1ddf, 0x15da2d49, 0x8cd37cf3, 0xfbd44c65,
     0x4db26158, 0x3ab551ce, 0xa3bc0074, 0xd4bb30e2, 0x4adfa541, 0x3dd895d7, 0xa4d1c46d, 0xd3d6f4fb,
     0x4369e96a, 0x346ed9fc, 0xad678846, 0xda60b8d0, 0x44042d73, 0x33031de5, 0xaa0a4c5f, 0xdd0d7cc9,
     0x5005713c, 0x270241aa, 0xbe0b1010, 0xc90c2086, 0x5768b525, 0x206f85b3, 0xb966d409, 0xce61e49f,
     0x5edef90e, 0x29d9c998, 0xb0d09822, 0xc7d7a8b4, 0x59b33d17, 0x2eb40d81, 0xb7bd5c3b, 0xc0ba6cad,
     0xedb88320, 0x9abfb3b6, 0x03b6e20c, 0x74b1d29a, 0xead54739, 0x9dd277af, 0x04db2615, 0x73dc1683,
     0xe3630b12, 0x94643b84, 0x0d6d6a3e, 0x7a6a5aa8, 0xe40ecf0b, 0x9309ff9d, 0x0a00ae27, 0x7d079eb1,
     0xf00f9344, 0x8708a3d2, 0x1e01f268, 0x6906c2fe, 0xf762575d, 0x806567cb, 0x196c3671, 0x6e6b06e7,
     0xfed41b76, 0x89d32be0, 0x10da7a5a, 0x67dd4acc, 0xf9b9df6f, 0x8ebeeff9, 0x17b7be43, 0x60b08ed5,
     0xd6d6a3e8, 0xa1d1937e, 0x38d8c2c4, 0x4fdff252, 0xd1bb67f1, 0xa6bc5767, 0x3fb506dd, 0x48b2364b,
     0xd80d2bda, 0xaf0a1b4c, 0x36034af6, 0x41047a60, 0xdf60efc3, 0xa867df55, 0x316e8eef, 0x4669be79,
     0xcb61b38c, 0xbc66831a, 0x256fd2a0, 0x5268e236, 0xcc0c7795, 0xbb0b4703, 0x220216b9, 0x5505262f,
     0xc5ba3bbe, 0xb2bd0b28, 0x2bb45a92, 0x5cb36a04, 0xc2d7ffa7, 0xb5d0cf31, 0x2cd99e8b, 0x5bdeae1d,
     0x9b64c2b0, 0xec63f226, 0x756aa39c, 0x026d930a, 0x9c0906a9, 0xeb0e363f, 0x72076785, 0x05005713,
     0x95bf4a82, 0xe2b87a14, 0x7bb12bae, 0x0cb61b38, 0x92d28e9b, 0xe5d5be0d, 0x7cdcefb7, 0x0bdbdf21,
     0x86d3d2d4, 0xf1d4e242, 0x68ddb3f8, 0x1fda836e, 0x81be16cd, 0xf6b9265b, 0x6fb077e1, 0x18b74777,
     0x88085ae6, 0xff0f6a70, 0x66063bca, 0x11010b5c, 0x8f659eff, 0xf862ae69, 0x616bffd3, 0x166ccf45,
     0xa00ae278, 0xd70dd2ee, 0x4e048354, 0x3903b3c2, 0xa7672661, 0xd06016f7, 0x4969474d, 0x3e6e77db,
     0xaed16a4a, 0xd9d65adc, 0x40df0b66, 0x37d83bf0, 0xa9bcae53, 0xdebb9ec5, 0x47b2cf7f, 0x30b5ffe9,
     0xbdbdf21c, 0xcabac28a, 0x53b39330, 0x24b4a3a6, 0xbad03605, 0xcdd70693, 0x54de5729, 0x23d967bf,
     0xb3667a2e, 0xc4614ab8, 0x5d681b02, 0x2a6f2b94, 0xb40bbe37, 0xc30c8ea1, 0x5a05df1b, 0x2d02ef8d]"

definition crc32_step :: "u32 \<Rightarrow> u8 \<Rightarrow> u32" where
  "crc32_step crc b = drop_bit 8 crc XOR crc_table ! unat ((crc XOR ucast b) AND 0xff)"

definition crc32 :: "u8 list \<Rightarrow> u32" where
  "crc32 data = foldl crc32_step 0xFFFFFFFF data XOR 0xFFFFFFFF"

definition fnv1a_32 :: "u8 list \<Rightarrow> u32" where
  "fnv1a_32 data = foldl (\<lambda>h b. (h XOR ucast b) * 0x01000193) 0x811c9dc5 data"

definition fnv1a_64 :: "u8 list \<Rightarrow> u64" where
  "fnv1a_64 data = foldl (\<lambda>h b. (h XOR ucast b) * 0x100000001b3) 0xcbf29ce484222325 data"

definition tinf_crc32tab :: "u32 list" where
  "tinf_crc32tab =
    [0x00000000, 0x1DB71064, 0x3B6E20C8, 0x26D930AC, 0x76DC4190, 0x6B6B51F4, 0x4DB26158, 0x5005713C,
     0xEDB88320, 0xF00F9344, 0xD6D6A3E8, 0xCB61B38C, 0x9B64C2B0, 0x86D3D2D4, 0xA00AE278, 0xBDBDF21C]"

definition tinf_crc32_nibble :: "u32 \<Rightarrow> u32" where
  "tinf_crc32_nibble crc = tinf_crc32tab ! unat (crc AND 0x0F) XOR drop_bit 4 crc"

definition tinf_crc32 :: "u8 list \<Rightarrow> u32" where
  "tinf_crc32 data =
     (if data = [] then 0
      else foldl (\<lambda>crc b. tinf_crc32_nibble (tinf_crc32_nibble (crc XOR ucast b))) 0xFFFFFFFF data XOR 0xFFFFFFFF)"

definition A32_BASE :: u32 where "A32_BASE = 65521"
definition A32_NMAX :: nat where "A32_NMAX = 5552"

definition adler_step :: "u32 \<times> u32 \<Rightarrow> u8 \<Rightarrow> u32 \<times> u32" where
  "adler_step s b = (case s of (s1, s2) \<Rightarrow> let s1' = s1 + ucast b in (s1', s2 + s1'))"

text \<open>The loop over groups of 16 bytes and the loop over the rest.\<close>

fun adler_groups :: "nat \<Rightarrow> u8 list \<Rightarrow> u32 \<times> u32 \<Rightarrow> u8 list \<times> u32 \<times> u32" where
  "adler_groups 0 buf s = (buf, s)"
| "adler_groups (Suc i) buf s = adler_groups i (drop 16 buf) (foldl adler_step s (take 16 buf))"

definition adler_block :: "nat \<Rightarrow> u8 list \<Rightarrow> u32 \<times> u32 \<Rightarrow> u32 \<times> u32" where
  "adler_block k buf s =
     (case adler_groups (k div 16) buf s of (buf1, s1) \<Rightarrow> foldl adler_step s1 (take (k mod 16) buf1))"

function adler_loop :: "u8 list \<Rightarrow> u32 \<times> u32 \<Rightarrow> u32 \<times> u32" where
  "adler_loop buf s =
     (if buf = [] then s
      else
        let k = (if length buf < A32_NMAX then length buf else A32_NMAX) in
        case adler_block k buf s of (s1, s2) \<Rightarrow>
        adler_loop (drop k buf) (s1 mod A32_BASE, s2 mod A32_BASE))"
  by pat_completeness auto
termination by (relation "measure (\<lambda>(buf, s). length buf)") (auto simp: A32_NMAX_def)

declare adler_loop.simps [simp del]

definition tinf_adler32 :: "u8 list \<Rightarrow> u32" where
  "tinf_adler32 data = (case adler_loop data (1, 0) of (s1, s2) \<Rightarrow> push_bit 16 s2 OR s1)"

section \<open>CRC-32\<close>

text \<open>The division by the reflected polynomial, one bit at a time.\<close>

definition crc_shift :: "u32 \<Rightarrow> u32" where
  "crc_shift c = (if bit c 0 then drop_bit 1 c XOR 0xEDB88320 else drop_bit 1 c)"

definition crc_reference :: "u8 list \<Rightarrow> u32" where
  "crc_reference data = foldl (\<lambda>c b. (crc_shift ^^ 8) (c XOR ucast b)) 0xFFFFFFFF data XOR 0xFFFFFFFF"

text \<open>The division is linear, and a word with clear low bits is only shifted.\<close>

lemma crc_shift_xor: "crc_shift (a XOR b) = crc_shift a XOR crc_shift b"
  by (rule bit_word_eqI) (auto simp: crc_shift_def bit_xor_iff bit_drop_bit_eq)

lemma crc_shift_pow_xor: "(crc_shift ^^ n) (a XOR b) = (crc_shift ^^ n) a XOR (crc_shift ^^ n) b"
  by (induction n) (simp_all add: crc_shift_xor)

lemma crc_shift_low: "(\<And>i. i < n \<Longrightarrow> \<not> bit c i) \<Longrightarrow> (crc_shift ^^ n) c = drop_bit n c"
proof (induction n)
  case (Suc n)
  then have "(crc_shift ^^ n) c = drop_bit n c" by simp
  moreover have "\<not> bit (drop_bit n c) 0" using Suc.prems [of n] by (simp add: bit_drop_bit_eq)
  ultimately show ?case by (simp add: crc_shift_def [of "drop_bit n c"])
qed simp

lemma crc_shift_split: "(crc_shift ^^ n) c = drop_bit n c XOR (crc_shift ^^ n) (take_bit n c)"
proof -
  define h where "h = c AND NOT (mask n)"
  have "c = h XOR take_bit n c"
    unfolding h_def by (rule bit_word_eqI) (auto simp: bit_simps)
  moreover have "(crc_shift ^^ n) h = drop_bit n h" by (rule crc_shift_low) (simp add: h_def bit_simps)
  moreover have "drop_bit n h = drop_bit n c" by (rule bit_word_eqI) (auto simp: h_def bit_simps dest: bit_imp_le_length)
  ultimately show ?thesis by (metis crc_shift_pow_xor)
qed

lemma pow_8: "(f ^^ 8) c = f (f (f (f (f (f (f (f c)))))))"
  by (simp add: eval_nat_numeral)

lemma pow_4: "(f ^^ 4) c = f (f (f (f c)))"
  by (simp add: eval_nat_numeral)

definition crc_low :: "u32 list" where
  "crc_low = [0x00000000, 0x77073096, 0xee0e612c, 0x990951ba, 0x076dc419, 0x706af48f, 0xe963a535, 0x9e6495a3, 0x0edb8832, 0x79dcb8a4, 0xe0d5e91e, 0x97d2d988, 0x09b64c2b, 0x7eb17cbd, 0xe7b82d07, 0x90bf1d91]"

definition crc_high :: "u32 list" where
  "crc_high = [0x00000000, 0x1db71064, 0x3b6e20c8, 0x26d930ac, 0x76dc4190, 0x6b6b51f4, 0x4db26158, 0x5005713c, 0xedb88320, 0xf00f9344, 0xd6d6a3e8, 0xcb61b38c, 0x9b64c2b0, 0x86d3d2d4, 0xa00ae278, 0xbdbdf21c]"

lemma crc_low_eq: "crc_low = map (\<lambda>i. (crc_shift ^^ 8) (word_of_nat i)) [0..<16]"
  unfolding pow_8 by (simp add: crc_low_def upt_rec crc_shift_def)

lemma crc_high_eq: "crc_high = map (\<lambda>i. (crc_shift ^^ 8) (word_of_nat (i * 16))) [0..<16]"
  unfolding pow_8 by (simp add: crc_high_def upt_rec crc_shift_def)

lemma crc_table_split: "crc_table = concat (map (\<lambda>h. map (\<lambda>l. h XOR l) crc_low) crc_high)"
  by (simp add: crc_table_def crc_low_def crc_high_def)

lemma nth_concat_16:
  "length xs = 16 \<Longrightarrow> j < 16 \<Longrightarrow> i < length ys \<Longrightarrow> concat (map (\<lambda>h. map (f h) xs) ys) ! (i * 16 + j) = f (ys ! i) (xs ! j)"
proof (induction ys arbitrary: i)
  case (Cons y ys)
  then show ?case by (cases i) (auto simp: nth_append)
qed simp

lemma crc_table_nth:
  assumes "i < 256"
  shows "crc_table ! i = (crc_shift ^^ 8) (word_of_nat i)"
proof -
  have i: "i div 16 < 16" "i mod 16 < 16" using assms by (simp_all add: less_mult_imp_div_less)
  have l: "length crc_low = 16" "length crc_high = 16" by (simp_all add: crc_low_eq crc_high_eq)
  have "crc_table ! (i div 16 * 16 + i mod 16) = crc_high ! (i div 16) XOR crc_low ! (i mod 16)"
    unfolding crc_table_split using nth_concat_16 [of crc_low "i mod 16" "i div 16" crc_high "(XOR)"] i l by simp
  also have "\<dots> = (crc_shift ^^ 8) (word_of_nat (i div 16 * 16) XOR word_of_nat (i mod 16))"
    using i by (simp add: crc_low_eq crc_high_eq crc_shift_pow_xor)
  also have "(word_of_nat (i div 16 * 16) XOR word_of_nat (i mod 16) :: u32) = word_of_nat i"
  proof (rule bit_word_eqI)
    fix n :: nat assume "n < LENGTH(32)"
    have "bit (i div 16 * 16) n \<longleftrightarrow> 4 \<le> n \<and> bit i n" "bit (i mod 16) n \<longleftrightarrow> n < 4 \<and> bit i n"
    proof -
      have "i div 16 * 16 = push_bit 4 (drop_bit 4 i)" "i mod 16 = take_bit 4 i"
        by (simp_all add: push_bit_eq_mult drop_bit_eq_div take_bit_eq_mod)
      then show "bit (i div 16 * 16) n \<longleftrightarrow> 4 \<le> n \<and> bit i n" "bit (i mod 16) n \<longleftrightarrow> n < 4 \<and> bit i n"
        by (auto simp only: bit_push_bit_iff bit_drop_bit_eq bit_take_bit_iff o_def le_add_diff_inverse) auto
    qed
    then show "bit (word_of_nat (i div 16 * 16) XOR word_of_nat (i mod 16) :: u32) n = bit (word_of_nat i :: u32) n"
      using \<open>n < LENGTH(32)\<close> by (auto simp: bit_xor_iff bit_of_nat_iff simp del: of_nat_mult)
  qed
  finally show ?thesis by (simp add: div_mult_mod_eq)
qed

lemma and_ff: "(x :: u32) AND 0xff = take_bit 8 x"
  by (simp add: take_bit_eq_mask mask_eq_exp_minus_1)

lemma and_f: "(x :: u32) AND 0xf = take_bit 4 x"
  by (simp add: take_bit_eq_mask mask_eq_exp_minus_1)

lemma unat_take_bit_less: "n < 32 \<Longrightarrow> unat (take_bit n (x :: u32)) < 2 ^ n"
  by (simp add: unsigned_take_bit_eq take_bit_nat_less_exp)

lemma crc32_step_eq: "crc32_step crc b = (crc_shift ^^ 8) (crc XOR ucast b)"
proof -
  let ?x = "crc XOR ucast b :: u32"
  have d: "drop_bit 8 ?x = drop_bit 8 crc"
    by (rule bit_word_eqI) (auto simp: bit_simps dest: bit_imp_le_length)
  have "crc_table ! unat (take_bit 8 ?x) = (crc_shift ^^ 8) (take_bit 8 ?x)"
    using crc_table_nth [of "unat (take_bit 8 ?x)"] unat_take_bit_less [of 8 ?x] by simp
  then show ?thesis unfolding crc32_step_def and_ff crc_shift_split [of 8 ?x] d by simp
qed

lemma tinf_tab_nth:
  assumes "i < 16"
  shows "tinf_crc32tab ! i = (crc_shift ^^ 4) (word_of_nat i)"
proof -
  have t: "tinf_crc32tab = map (\<lambda>i. (crc_shift ^^ 4) (word_of_nat i)) [0..<16]"
    unfolding pow_4 by (simp add: tinf_crc32tab_def upt_rec crc_shift_def)
  show ?thesis unfolding t using assms by (simp add: nth_map_upt)
qed

lemma tinf_nibble_eq: "tinf_crc32_nibble crc = (crc_shift ^^ 4) crc"
proof -
  have "tinf_crc32tab ! unat (take_bit 4 crc) = (crc_shift ^^ 4) (take_bit 4 crc)"
    using tinf_tab_nth [of "unat (take_bit 4 crc)"] unat_take_bit_less [of 4 crc] by simp
  then show ?thesis unfolding tinf_crc32_nibble_def and_f crc_shift_split [of 4 crc] by (simp add: xor.commute)
qed

text \<open>
  C33. Both tables are right: the checksum with the table of 256 entries and the one with the table
  of 16 entries equal the division by the polynomial, bit by bit, for all data.
\<close>

theorem crc32_tables: "crc32 data = crc_reference data \<and> tinf_crc32 data = crc_reference data"
proof -
  have "(f ^^ 4) ((f ^^ 4) c) = (f ^^ 8) c" for f :: "u32 \<Rightarrow> u32" and c
    using funpow_add [of 4 4 f] by (simp add: fun_eq_iff)
  then show ?thesis
    by (auto simp: crc32_def tinf_crc32_def crc_reference_def crc32_step_eq tinf_nibble_eq cong: foldl_cong)
qed

section \<open>Adler-32\<close>

text \<open>The two sums without any reduction, and the checksum they define.\<close>

fun adler_sums :: "nat \<times> nat \<Rightarrow> u8 list \<Rightarrow> nat \<times> nat" where
  "adler_sums s [] = s"
| "adler_sums (a, b) (d # ds) = adler_sums (a + unat d, b + (a + unat d)) ds"

definition adler_reference :: "u8 list \<Rightarrow> nat" where
  "adler_reference data = (case adler_sums (1, 0) data of (a, b) \<Rightarrow> b mod 65521 * 2 ^ 16 + a mod 65521)"

lemma adler_groups_fold:
  "16 * i \<le> length buf \<Longrightarrow> adler_groups i buf s = (drop (16 * i) buf, foldl adler_step s (take (16 * i) buf))"
proof (induction i arbitrary: buf s)
  case (Suc i)
  have "take (16 + 16 * i) buf = take 16 buf @ take (16 * i) (drop 16 buf)" by (rule take_add)
  with Suc show ?case by (simp add: drop_drop add.commute)
qed simp

lemma adler_block_fold:
  assumes "k \<le> length buf"
  shows "adler_block k buf s = foldl adler_step s (take k buf)"
proof -
  have e: "k = 16 * (k div 16) + k mod 16" by simp
  have "take k buf = take (16 * (k div 16)) buf @ take (k mod 16) (drop (16 * (k div 16)) buf)"
    by (subst e) (rule take_add)
  moreover have "16 * (k div 16) \<le> length buf" using assms by (meson order_trans times_div_less_eq_dividend)
  ultimately show ?thesis by (simp add: adler_block_def adler_groups_fold)
qed

text \<open>A block of at most 5552 bytes does not overflow.\<close>

lemma adler_sums_bound:
  "fst (adler_sums (a, b) ds) \<le> a + 255 * length ds \<and>
   snd (adler_sums (a, b) ds) \<le> b + length ds * a + 255 * (length ds * (length ds + 1) div 2)"
proof (induction ds arbitrary: a b)
  case (Cons d ds)
  have "unat d < 2 ^ LENGTH(8)" by (rule unsigned_less)
  then have d: "unat d \<le> 255" by simp
  let ?n = "length ds" and ?a = "a + unat d" and ?b = "b + (a + unat d)"
  have t: "(?n + 1) * (?n + 1 + 1) div 2 = ?n * (?n + 1) div 2 + (?n + 1)"
    using div_mult_self4 [of 2 "?n + 1" "?n * (?n + 1)"] by (simp add: algebra_simps)
  have m: "(?n + 1) * unat d \<le> 255 * (?n + 1)" using d by (metis mult.commute mult_le_mono1)
  have "snd (adler_sums (?a, ?b) ds) \<le> ?b + ?n * ?a + 255 * (?n * (?n + 1) div 2)" using Cons by blast
  also have "\<dots> \<le> b + (?n + 1) * a + 255 * ((?n + 1) * (?n + 1 + 1) div 2)"
    unfolding t using m by (simp add: algebra_simps)
  finally have "snd (adler_sums (?a, ?b) ds) \<le> b + (?n + 1) * a + 255 * ((?n + 1) * (?n + 1 + 1) div 2)" .
  moreover have "fst (adler_sums (?a, ?b) ds) \<le> ?a + 255 * ?n" using Cons by blast
  ultimately show ?case using d by (simp add: add.commute)
qed simp

lemma adler_step_words:
  "foldl adler_step (word_of_nat a, word_of_nat b) ds =
   (case adler_sums (a, b) ds of (x, y) \<Rightarrow> (word_of_nat x, word_of_nat y))"
proof (induction ds arbitrary: a b)
  case (Cons d ds)
  have "adler_step (word_of_nat a, word_of_nat b) d = (word_of_nat (a + unat d), word_of_nat (b + (a + unat d)))"
    by (simp add: adler_step_def Let_def)
  then show ?case by (simp only: foldl_Cons adler_sums.simps Cons.IH)
qed simp

lemma adler_sums_append: "adler_sums s (xs @ ys) = adler_sums (adler_sums s xs) ys"
  by (induction s xs rule: adler_sums.induct) simp_all

text \<open>Reducing the sums in between does not change the result.\<close>

lemma adler_sums_mod:
  assumes "a mod m = a' mod m" "b mod m = b' mod m"
  shows "fst (adler_sums (a, b) ds) mod m = fst (adler_sums (a', b') ds) mod m \<and>
    snd (adler_sums (a, b) ds) mod m = snd (adler_sums (a', b') ds) mod m"
  using assms
proof (induction ds arbitrary: a b a' b')
  case (Cons d ds)
  have 1: "(a + unat d) mod m = (a' + unat d) mod m" using Cons.prems(1) by (metis mod_add_left_eq)
  have 2: "(b + (a + unat d)) mod m = (b' + (a' + unat d)) mod m" by (rule mod_add_cong [OF Cons.prems(2) 1])
  show ?case unfolding adler_sums.simps by (rule Cons.IH [OF 1 2])
qed simp

lemma adler_loop_ok:
  "a < 65521 \<Longrightarrow> b < 65521 \<Longrightarrow> adler_loop buf (word_of_nat a, word_of_nat b) =
   (case adler_sums (a, b) buf of (x, y) \<Rightarrow> (word_of_nat (x mod 65521), word_of_nat (y mod 65521)))"
proof (induction "length buf" arbitrary: buf a b rule: less_induct)
  case less
  show ?case
  proof (cases "buf = []")
    case True
    with less.prems show ?thesis by (simp add: adler_loop.simps)
  next
    case False
    define k where "k = (if length buf < A32_NMAX then length buf else A32_NMAX)"
    have k: "k \<le> length buf" "0 < k" "k \<le> 5552" using False by (auto simp: k_def A32_NMAX_def)
    obtain x y where xy: "adler_sums (a, b) (take k buf) = (x, y)" by fastforce
    have len: "length (take k buf) = k" using k by simp
    define t where "t = k * (k + 1) div 2"
    define p where "p = k * a"
    have t: "t \<le> 15415128"
      using mult_le_mono [OF k(3), of "k + 1" 5553] k(3) div_le_mono [of "k * (k + 1)" "5552 * 5553" 2] by (simp add: t_def)
    have p: "p \<le> 5552 * 65520" unfolding p_def using k(3) less.prems(1) by (intro mult_le_mono) auto
    have "x \<le> a + 255 * k" "y \<le> b + p + 255 * t"
      using adler_sums_bound [of a b "take k buf"] unfolding xy len p_def t_def by simp_all
    then have small: "x < 4294967296" "y < 4294967296" using t p k(3) less.prems by linarith+
    have "unat (word_of_nat x mod A32_BASE) = x mod 65521" "unat (word_of_nat y mod A32_BASE) = y mod 65521"
      using small by (simp_all add: unat_mod_distrib A32_BASE_def unsigned_of_nat take_bit_nat_eq_self)
    then have m: "word_of_nat x mod A32_BASE = word_of_nat (x mod 65521)" "word_of_nat y mod A32_BASE = word_of_nat (y mod 65521)"
      using less_trans [OF mod_less_divisor [of 65521 x], of "2 ^ 32"] less_trans [OF mod_less_divisor [of 65521 y], of "2 ^ 32"]
      by (simp_all add: word_unat_eq_iff unsigned_of_nat take_bit_nat_eq_self)
    have s: "adler_loop buf (word_of_nat a, word_of_nat b) = adler_loop (drop k buf) (word_of_nat (x mod 65521), word_of_nat (y mod 65521))"
      using False adler_step_words [of a b "take k buf"] xy m
      by (subst adler_loop.simps) (simp add: Let_def k_def [symmetric] adler_block_fold [OF k(1)])
    have "length (drop k buf) < length buf" using k False by simp
    from less.hyps [OF this, of "x mod 65521" "y mod 65521"] s
    have l: "adler_loop buf (word_of_nat a, word_of_nat b) = (case adler_sums (x mod 65521, y mod 65521) (drop k buf) of
      (x, y) \<Rightarrow> (word_of_nat (x mod 65521), word_of_nat (y mod 65521)))" by simp
    have "adler_sums (a, b) buf = adler_sums (x, y) (drop k buf)"
      using adler_sums_append [of "(a, b)" "take k buf" "drop k buf"] xy by simp
    then show ?thesis unfolding l
      using adler_sums_mod [of "x mod 65521" 65521 x "y mod 65521" y "drop k buf"] by (auto simp: split_beta)
  qed
qed

text \<open>
  C34. The sums of Adler-32 never overflow their 32 bits: reducing them only after 5552 bytes, as the code does, gives the
  checksum of its definition for data of any length.
\<close>

theorem tinf_adler32_exact: "unat (tinf_adler32 data) = adler_reference data"
proof -
  obtain x y where xy: "adler_sums (1, 0) data = (x, y)" by fastforce
  have "adler_loop data (1, 0) = (word_of_nat (x mod 65521), word_of_nat (y mod 65521))"
    using adler_loop_ok [of 1 0 data] xy by simp
  then have t: "tinf_adler32 data = push_bit 16 (word_of_nat (y mod 65521)) OR word_of_nat (x mod 65521)"
    by (simp add: tinf_adler32_def)
  have b: "x mod 65521 < 2 ^ 16" "y mod 65521 < 2 ^ 16"
    using mod_less_divisor [of 65521 x] mod_less_divisor [of 65521 y] by simp_all
  have "push_bit 16 (word_of_nat (y mod 65521) :: u32) OR word_of_nat (x mod 65521) =
      word_of_nat (y mod 65521 * 2 ^ 16 + x mod 65521)"
  proof -
    have "(push_bit 16 (word_of_nat (y mod 65521)) :: u32) AND word_of_nat (x mod 65521) = 0"
    proof (rule bit_word_eqI)
      fix n :: nat assume "n < LENGTH(32)"
      have "\<not> bit (x mod 65521) n" if "16 \<le> n"
      proof -
        have "x mod 65521 < 2 ^ n" using b(1) power_increasing [OF that, of "2 :: nat"] by linarith
        then show ?thesis by (simp add: bit_iff_odd)
      qed
      then show "bit ((push_bit 16 (word_of_nat (y mod 65521)) :: u32) AND word_of_nat (x mod 65521)) n = bit (0 :: u32) n"
        by (auto simp: bit_and_iff bit_push_bit_iff bit_of_nat_iff)
    qed
    from disjunctive_add_eq_or [OF this] show ?thesis by (simp add: push_bit_eq_mult)
  qed
  moreover have "y mod 65521 * 2 ^ 16 + x mod 65521 < 2 ^ 32" using b by (simp add: algebra_simps)
  ultimately show ?thesis unfolding t adler_reference_def xy
    by (simp only: unsigned_of_nat take_bit_nat_eq_self len_num1 case_prod_conv) (simp add: take_bit_nat_eq_self)
qed

end
