(* ===== verification/Linked_List.thy ===== *)
theory Linked_List
  imports Prelude
begin

text \<open>
  The doubly linked lists of \<^verbatim>\<open>libkstructures/list/list.c\<close>. The nodes live in a store that maps
  addresses to node structures, so that the pointers a routine forgets to set and the aliasing
  between them are part of the model; following a null pointer or a freed node is a fault. A list
  is well formed for a sequence of addresses when the links run through exactly this sequence in
  both directions, and every routine is described by its effect on the sequence.
\<close>

section \<open>Definitions\<close>

type_synonym ptr = "nat option"

record 'v node =
  node_next :: ptr
  node_prev :: ptr
  node_value :: 'v
  node_owner :: ptr

type_synonym 'v node_heap = "nat \<Rightarrow> 'v node option"

record list_t =
  list_head :: ptr
  list_tail :: ptr
  list_length :: u64

text \<open>Reading and changing the node that a pointer refers to.\<close>

definition node_at :: "'v node_heap \<Rightarrow> ptr \<Rightarrow> 'v node outcome" where
  "node_at h p = (case p of None \<Rightarrow> Fault | Some a \<Rightarrow> (case h a of None \<Rightarrow> Fault | Some n \<Rightarrow> Done n))"

definition change_node :: "'v node_heap \<Rightarrow> ptr \<Rightarrow> ('v node \<Rightarrow> 'v node) \<Rightarrow> 'v node_heap outcome" where
  "change_node h p f = (case p of None \<Rightarrow> Fault | Some a \<Rightarrow>
     (case h a of None \<Rightarrow> Fault | Some n \<Rightarrow> Done (h(a \<mapsto> f n))))"

definition list_create :: list_t where
  "list_create = \<lparr>list_head = None, list_tail = None, list_length = 0\<rparr>"

text \<open>
  The routines that insert get the address \<open>l\<close> of the list, which becomes the owner of the node;
  the ones that allocate get the address that \<^verbatim>\<open>malloc\<close> returned, whose node is zeroed.
\<close>

definition list_append_node :: "nat \<Rightarrow> list_t \<Rightarrow> 'v node_heap \<Rightarrow> nat \<Rightarrow> (list_t \<times> 'v node_heap) outcome" where
  "list_append_node l lst h a =
     obind (change_node h (Some a) (\<lambda>n. n\<lparr>node_owner := Some l\<rparr>)) (\<lambda>h.
     (case list_tail lst of
        Some t \<Rightarrow>
          obind (change_node h (Some t) (\<lambda>n. n\<lparr>node_next := Some a\<rparr>)) (\<lambda>h.
          obind (change_node h (Some a) (\<lambda>n. n\<lparr>node_prev := Some t, node_next := None\<rparr>)) (\<lambda>h.
          Done (lst\<lparr>list_tail := Some a, list_length := list_length lst + 1\<rparr>, h)))
      | None \<Rightarrow>
          obind (change_node h (Some a) (\<lambda>n. n\<lparr>node_next := None, node_prev := None\<rparr>)) (\<lambda>h.
          Done (lst\<lparr>list_head := Some a, list_tail := Some a, list_length := list_length lst + 1\<rparr>, h))))"

definition zeroed :: "'v \<Rightarrow> 'v node" where
  "zeroed v = \<lparr>node_next = None, node_prev = None, node_value = v, node_owner = None\<rparr>"

definition list_append :: "nat \<Rightarrow> list_t \<Rightarrow> 'v node_heap \<Rightarrow> nat \<Rightarrow> 'v \<Rightarrow> (list_t \<times> 'v node_heap) outcome" where
  "list_append l lst h a item = list_append_node l lst (h(a \<mapsto> zeroed item)) a"

definition list_append_node_after ::
  "nat \<Rightarrow> list_t \<Rightarrow> 'v node_heap \<Rightarrow> ptr \<Rightarrow> nat \<Rightarrow> (list_t \<times> 'v node_heap) outcome" where
  "list_append_node_after l lst h append_to a =
     obind (change_node h (Some a) (\<lambda>n. n\<lparr>node_owner := Some l\<rparr>)) (\<lambda>h.
     if append_to = None then
       obind (change_node h (Some a) (\<lambda>n. n\<lparr>node_next := list_head lst\<rparr>)) (\<lambda>h.
       obind (change_node h (list_head lst) (\<lambda>n. n\<lparr>node_prev := Some a\<rparr>)) (\<lambda>h.
       Done (lst\<lparr>list_head := Some a, list_length := list_length lst + 1\<rparr>, h)))
     else
       obind (if append_to = list_tail lst then Done (lst\<lparr>list_tail := Some a\<rparr>, h)
              else
                obind (node_at h append_to) (\<lambda>t.
                obind (change_node h (node_next t) (\<lambda>n. n\<lparr>node_prev := Some a\<rparr>)) (\<lambda>h.
                obind (node_at h append_to) (\<lambda>t.
                obind (change_node h (Some a) (\<lambda>n. n\<lparr>node_next := node_next t\<rparr>)) (\<lambda>h.
                Done (lst, h)))))) (\<lambda>(lst, h).
       obind (change_node h (Some a) (\<lambda>n. n\<lparr>node_prev := append_to\<rparr>)) (\<lambda>h.
       obind (change_node h append_to (\<lambda>n. n\<lparr>node_next := Some a\<rparr>)) (\<lambda>h.
       Done (lst\<lparr>list_length := list_length lst + 1\<rparr>, h)))))"

definition list_append_after ::
  "nat \<Rightarrow> list_t \<Rightarrow> 'v node_heap \<Rightarrow> ptr \<Rightarrow> nat \<Rightarrow> 'v \<Rightarrow> (list_t \<times> 'v node_heap) outcome" where
  "list_append_after l lst h append_to a item =
     list_append_node_after l lst (h(a \<mapsto> zeroed item)) append_to a"

definition list_append_node_before ::
  "nat \<Rightarrow> list_t \<Rightarrow> 'v node_heap \<Rightarrow> ptr \<Rightarrow> nat \<Rightarrow> (list_t \<times> 'v node_heap) outcome" where
  "list_append_node_before l lst h append_before a =
     obind (change_node h (Some a) (\<lambda>n. n\<lparr>node_owner := Some l\<rparr>)) (\<lambda>h.
     if append_before = None then
       obind (change_node h (Some a) (\<lambda>n. n\<lparr>node_next := None, node_prev := list_tail lst\<rparr>)) (\<lambda>h.
       obind (if list_tail lst \<noteq> None
              then change_node h (list_tail lst) (\<lambda>n. n\<lparr>node_next := Some a\<rparr>) else Done h) (\<lambda>h.
       Done (lst\<lparr>list_tail := Some a, list_length := list_length lst + 1\<rparr>, h)))
     else
       obind (if append_before = list_head lst then Done (lst\<lparr>list_head := Some a\<rparr>, h)
              else
                obind (node_at h append_before) (\<lambda>t.
                obind (change_node h (node_prev t) (\<lambda>n. n\<lparr>node_next := Some a\<rparr>)) (\<lambda>h.
                obind (node_at h append_before) (\<lambda>t.
                obind (change_node h (Some a) (\<lambda>n. n\<lparr>node_prev := node_prev t\<rparr>)) (\<lambda>h.
                Done (lst, h)))))) (\<lambda>(lst, h).
       obind (change_node h (Some a) (\<lambda>n. n\<lparr>node_next := append_before\<rparr>)) (\<lambda>h.
       obind (change_node h append_before (\<lambda>n. n\<lparr>node_prev := Some a\<rparr>)) (\<lambda>h.
       Done (lst\<lparr>list_length := list_length lst + 1\<rparr>, h)))))"

definition list_append_before ::
  "nat \<Rightarrow> list_t \<Rightarrow> 'v node_heap \<Rightarrow> ptr \<Rightarrow> nat \<Rightarrow> 'v \<Rightarrow> (list_t \<times> 'v node_heap) outcome" where
  "list_append_before l lst h append_before a item =
     list_append_node_before l lst (h(a \<mapsto> zeroed item)) append_before a"

text \<open>The searches follow the links as long as there are any; on a circular list they do not return.\<close>

partial_function (option) find_node :: "'v node_heap \<Rightarrow> ptr \<Rightarrow> 'v \<Rightarrow> ptr outcome option" where
  "find_node h p item =
     (case p of None \<Rightarrow> Some (Done None) | Some a \<Rightarrow>
       (case h a of None \<Rightarrow> Some Fault | Some n \<Rightarrow>
         if node_value n = item then Some (Done (Some a)) else find_node h (node_next n) item))"

definition list_find :: "list_t \<Rightarrow> 'v node_heap \<Rightarrow> 'v \<Rightarrow> ptr outcome option" where
  "list_find lst h item = find_node h (list_head lst) item"

definition list_delete :: "list_t \<Rightarrow> 'v node_heap \<Rightarrow> ptr \<Rightarrow> (list_t \<times> 'v node_heap) outcome" where
  "list_delete lst h p =
     (if p = None then Done (lst, h) else
        obind (node_at h p) (\<lambda>n.
        let lst = (if p = list_head lst then lst\<lparr>list_head := node_next n\<rparr> else lst);
            lst = (if p = list_tail lst then lst\<lparr>list_tail := node_prev n\<rparr> else lst) in
        obind (if node_next n \<noteq> None
               then change_node h (node_next n) (\<lambda>m. m\<lparr>node_prev := node_prev n\<rparr>) else Done h) (\<lambda>h.
        obind (node_at h p) (\<lambda>n.
        obind (if node_prev n \<noteq> None
               then change_node h (node_prev n) (\<lambda>m. m\<lparr>node_next := node_next n\<rparr>) else Done h) (\<lambda>h.
        obind (change_node h p (\<lambda>n. n\<lparr>node_prev := None, node_next := None, node_owner := None\<rparr>)) (\<lambda>h.
        Done (lst\<lparr>list_length := list_length lst - 1\<rparr>, h)))))))"

text \<open>Walks \<open>k\<close> links, or to the end; the result is the node reached and the number of links still missing.\<close>

fun walk_links :: "'v node_heap \<Rightarrow> ptr \<Rightarrow> nat \<Rightarrow> (ptr \<times> nat) outcome" where
  "walk_links h p 0 = Done (p, 0)"
| "walk_links h None (Suc k) = Done (None, Suc k)"
| "walk_links h (Some a) (Suc k) = obind (node_at h (Some a)) (\<lambda>n. walk_links h (node_next n) k)"

definition list_delete_index :: "list_t \<Rightarrow> 'v node_heap \<Rightarrow> u64 \<Rightarrow> (list_t \<times> 'v node_heap) outcome" where
  "list_delete_index lst h index =
     (if index > list_length lst then Done (lst, h) else
        obind (walk_links h (list_head lst) (unat index)) (\<lambda>(p, missing).
        if missing = 0 then list_delete lst h p else Done (lst, h)))"

definition list_pop :: "list_t \<Rightarrow> 'v node_heap \<Rightarrow> (ptr \<times> list_t \<times> 'v node_heap) outcome" where
  "list_pop lst h =
     (if list_tail lst = None then Done (None, lst, h) else
        obind (list_delete lst h (list_tail lst)) (\<lambda>(lst', h). Done (list_tail lst, lst', h)))"

definition list_popleft :: "list_t \<Rightarrow> 'v node_heap \<Rightarrow> (ptr \<times> list_t \<times> 'v node_heap) outcome" where
  "list_popleft lst h =
     (if list_head lst = None then Done (None, lst, h) else
        obind (list_delete lst h (list_head lst)) (\<lambda>(lst', h). Done (list_head lst, lst', h)))"

text \<open>Frees the nodes from \<open>p\<close> on; a freed node is no longer in the store.\<close>

partial_function (option) free_nodes :: "'v node_heap \<Rightarrow> ptr \<Rightarrow> 'v node_heap outcome option" where
  "free_nodes h p =
     (case p of None \<Rightarrow> Some (Done h) | Some a \<Rightarrow>
       (case h a of None \<Rightarrow> Some Fault | Some n \<Rightarrow> free_nodes (h(a := None)) (node_next n)))"

definition list_destroy :: "list_t \<Rightarrow> 'v node_heap \<Rightarrow> 'v node_heap outcome option" where
  "list_destroy lst h = free_nodes h (list_head lst)"

text \<open>A sequence of operations on one list, with what each of them returns.\<close>

datatype list_op = Append nat | Prepend nat | InsertAfter nat nat | InsertBefore nat nat
  | Delete nat | DeleteIndex nat | Pop | PopLeft

definition no_node :: "(list_t \<times> 'v node_heap) outcome \<Rightarrow> (ptr \<times> list_t \<times> 'v node_heap) outcome" where
  "no_node m = obind m (\<lambda>(lst, h). Done (None, lst, h))"

fun list_step :: "nat \<Rightarrow> list_op \<Rightarrow> list_t \<Rightarrow> 'v node_heap \<Rightarrow> (ptr \<times> list_t \<times> 'v node_heap) outcome" where
  "list_step l (Append a) lst h = no_node (list_append_node l lst h a)"
| "list_step l (Prepend a) lst h = no_node (list_append_node_after l lst h None a)"
| "list_step l (InsertAfter x a) lst h = no_node (list_append_node_after l lst h (Some x) a)"
| "list_step l (InsertBefore x a) lst h = no_node (list_append_node_before l lst h (Some x) a)"
| "list_step l (Delete a) lst h = no_node (list_delete lst h (Some a))"
| "list_step l (DeleteIndex i) lst h = no_node (list_delete_index lst h (word_of_nat i))"
| "list_step l Pop lst h = list_pop lst h"
| "list_step l PopLeft lst h = list_popleft lst h"

fun list_steps :: "nat \<Rightarrow> list_op list \<Rightarrow> list_t \<Rightarrow> 'v node_heap \<Rightarrow> (ptr list \<times> list_t \<times> 'v node_heap) outcome" where
  "list_steps l [] lst h = Done ([], lst, h)"
| "list_steps l (op # ops) lst h =
     obind (list_step l op lst h) (\<lambda>(r, lst, h).
     obind (list_steps l ops lst h) (\<lambda>(rs, lst, h). Done (r # rs, lst, h)))"

text \<open>The same operations on the sequence of addresses, and when they may be used.\<close>

definition before :: "nat \<Rightarrow> nat list \<Rightarrow> nat list" where
  "before x xs = takeWhile (\<lambda>y. y \<noteq> x) xs"

definition behind :: "nat \<Rightarrow> nat list \<Rightarrow> nat list" where
  "behind x xs = tl (dropWhile (\<lambda>y. y \<noteq> x) xs)"

fun seq_step :: "list_op \<Rightarrow> nat list \<Rightarrow> ptr \<times> nat list" where
  "seq_step (Append a) xs = (None, xs @ [a])"
| "seq_step (Prepend a) xs = (None, a # xs)"
| "seq_step (InsertAfter x a) xs = (None, before x xs @ x # a # behind x xs)"
| "seq_step (InsertBefore x a) xs = (None, before x xs @ a # x # behind x xs)"
| "seq_step (Delete a) xs = (None, before a xs @ behind a xs)"
| "seq_step (DeleteIndex i) xs = (None, take i xs @ drop (Suc i) xs)"
| "seq_step Pop xs = (if xs = [] then None else Some (last xs), butlast xs)"
| "seq_step PopLeft xs = (if xs = [] then None else Some (hd xs), tl xs)"

fun seq_steps :: "list_op list \<Rightarrow> nat list \<Rightarrow> ptr list \<times> nat list" where
  "seq_steps [] xs = ([], xs)"
| "seq_steps (op # ops) xs = (let (r, ys) = seq_step op xs; (rs, zs) = seq_steps ops ys in (r # rs, zs))"

fun usable :: "(nat \<Rightarrow> bool) \<Rightarrow> nat list \<Rightarrow> list_op \<Rightarrow> bool" where
  "usable A xs (Append a) = (A a \<and> a \<notin> set xs)"
| "usable A xs (Prepend a) = (A a \<and> a \<notin> set xs \<and> xs \<noteq> [])"
| "usable A xs (InsertAfter x a) = (A a \<and> a \<notin> set xs \<and> x \<in> set xs)"
| "usable A xs (InsertBefore x a) = (A a \<and> a \<notin> set xs \<and> x \<in> set xs)"
| "usable A xs (Delete a) = (a \<in> set xs)"
| "usable A xs (DeleteIndex i) = (i < 2 ^ 64 \<and> length xs < 2 ^ 64)"
| "usable A xs Pop = True"
| "usable A xs PopLeft = True"

fun usable_all :: "(nat \<Rightarrow> bool) \<Rightarrow> nat list \<Rightarrow> list_op list \<Rightarrow> bool" where
  "usable_all A xs [] = True"
| "usable_all A xs (op # ops) = (usable A xs op \<and> usable_all A (snd (seq_step op xs)) ops)"

section \<open>Well-formed lists\<close>

text \<open>
  \<open>seg l h p xs q\<close>: the nodes at \<open>xs\<close> belong to list \<open>l\<close> and are linked in this order in both
  directions, with \<open>p\<close> before the first and \<open>q\<close> behind the last one.
\<close>

definition first :: "nat list \<Rightarrow> ptr \<Rightarrow> ptr" where
  "first xs q = (case xs of [] \<Rightarrow> q | a # _ \<Rightarrow> Some a)"

definition final :: "ptr \<Rightarrow> nat list \<Rightarrow> ptr" where
  "final p xs = (if xs = [] then p else Some (last xs))"

fun seg :: "nat \<Rightarrow> 'v node_heap \<Rightarrow> ptr \<Rightarrow> nat list \<Rightarrow> ptr \<Rightarrow> bool" where
  "seg l h p [] q = True"
| "seg l h p (a # xs) q =
     (case h a of None \<Rightarrow> False
      | Some n \<Rightarrow> node_prev n = p \<and> node_next n = first xs q \<and> node_owner n = Some l \<and> seg l h (Some a) xs q)"

definition shape :: "nat list \<Rightarrow> list_t" where
  "shape xs = \<lparr>list_head = first xs None, list_tail = final None xs, list_length = word_of_nat (length xs)\<rparr>"

definition list_ok :: "nat \<Rightarrow> list_t \<Rightarrow> 'v node_heap \<Rightarrow> nat list \<Rightarrow> bool" where
  "list_ok l lst h xs \<longleftrightarrow> lst = shape xs \<and> distinct xs \<and> seg l h None xs None"

text \<open>A node that is in no list: its links are null, as \<^verbatim>\<open>memset\<close> and \<open>list_delete\<close> leave them.\<close>

definition detached :: "'v node_heap \<Rightarrow> nat \<Rightarrow> bool" where
  "detached h a = (case h a of None \<Rightarrow> False | Some n \<Rightarrow> node_next n = None \<and> node_prev n = None)"


text \<open>The store after node \<open>a\<close> has been linked in between \<open>us\<close> and \<open>vs\<close>, and after it has been taken out.\<close>

definition linked_in :: "nat \<Rightarrow> 'v node_heap \<Rightarrow> nat list \<Rightarrow> nat \<Rightarrow> nat list \<Rightarrow> 'v node_heap" where
  "linked_in l h us a vs = (\<lambda>b.
     if b = a then map_option (\<lambda>n. n\<lparr>node_prev := final None us, node_next := first vs None, node_owner := Some l\<rparr>) (h b)
     else if Some b = final None us then map_option (\<lambda>n. n\<lparr>node_next := Some a\<rparr>) (h b)
     else if Some b = first vs None then map_option (\<lambda>n. n\<lparr>node_prev := Some a\<rparr>) (h b)
     else h b)"

definition linked_out :: "'v node_heap \<Rightarrow> nat list \<Rightarrow> nat \<Rightarrow> nat list \<Rightarrow> 'v node_heap" where
  "linked_out h us a vs = (\<lambda>b.
     if b = a then map_option (\<lambda>n. n\<lparr>node_prev := None, node_next := None, node_owner := None\<rparr>) (h b)
     else if Some b = final None us then map_option (\<lambda>n. n\<lparr>node_next := first vs None\<rparr>) (h b)
     else if Some b = first vs None then map_option (\<lambda>n. n\<lparr>node_prev := final None us\<rparr>) (h b)
     else h b)"

section \<open>Segments\<close>

lemma first_simps [simp]: "first [] q = q" "first (a # xs) q = Some a"
  by (simp_all add: first_def)

lemma final_simps [simp]: "final p [] = p" "final p (xs @ [a]) = Some a" "final p [a] = Some a"
  by (simp_all add: final_def)

lemma first_append [simp]: "first (xs @ ys) q = first xs (first ys q)"
  by (cases xs) simp_all

lemma final_append [simp]: "final p (xs @ ys) = final (final p xs) ys"
  by (simp add: final_def)

lemma final_Cons [simp]: "final p (a # xs) = final (Some a) xs"
  by (simp add: final_def)

lemma seg_append [simp]:
  "seg l h p (xs @ ys) q \<longleftrightarrow> seg l h p xs (first ys q) \<and> seg l h (final p xs) ys q"
  by (induction xs arbitrary: p) (auto split: option.splits)

lemma seg_cong: "(\<And>b. b \<in> set xs \<Longrightarrow> h' b = h b) \<Longrightarrow> seg l h' p xs q = seg l h p xs q"
  by (induction xs arbitrary: p) (auto split: option.splits)

lemma seg_mapped: "seg l h p xs q \<Longrightarrow> a \<in> set xs \<Longrightarrow> \<exists>n. h a = Some n"
  by (induction xs arbitrary: p) (auto split: option.splits)

lemma node_at_eq [simp]: "node_at h (Some a) = Done n \<longleftrightarrow> h a = Some n"
  by (auto simp: node_at_def split: option.splits)

lemma node_at_mapped: "h a = Some n \<Longrightarrow> node_at h (Some a) = Done n"
  by simp

lemma change_node_mapped: "h a = Some n \<Longrightarrow> change_node h (Some a) f = Done (h(a \<mapsto> f n))"
  by (simp add: change_node_def)

lemmas node_steps = node_at_mapped change_node_mapped

text \<open>The last link of a segment and the first back link can be redirected.\<close>

lemma seg_redirect_next:
  assumes "seg l h p xs q" "distinct xs" "\<And>b. b \<in> set xs \<Longrightarrow> Some b \<noteq> final None xs \<Longrightarrow> h' b = h b"
    "\<And>b. Some b = final None xs \<Longrightarrow> h' b = map_option (\<lambda>n. n\<lparr>node_next := r\<rparr>) (h b)"
  shows "seg l h' p xs r"
proof (cases xs rule: rev_cases)
  case Nil
  then show ?thesis by simp
next
  case (snoc ys y)
  have "seg l h' p ys (Some y) = seg l h p ys (Some y)"
    using assms(2,3) snoc by (intro seg_cong) auto
  with assms(1) assms(4) [of y] snoc show ?thesis by (auto split: option.splits)
qed

lemma seg_redirect_prev:
  assumes "seg l h p xs q" "distinct xs" "\<And>b. b \<in> set xs \<Longrightarrow> Some b \<noteq> first xs None \<Longrightarrow> h' b = h b"
    "\<And>b. Some b = first xs None \<Longrightarrow> h' b = map_option (\<lambda>n. n\<lparr>node_prev := r\<rparr>) (h b)"
  shows "seg l h' r xs q"
proof (cases xs)
  case Nil
  then show ?thesis by simp
next
  case (Cons y ys)
  have "seg l h' (Some y) ys q = seg l h (Some y) ys q"
    using assms(2,3) Cons by (intro seg_cong) auto
  with assms(1) assms(4) [of y] Cons show ?thesis by (auto split: option.splits)
qed

lemma first_in: "Some b = first xs None \<Longrightarrow> b \<in> set xs"
  by (cases xs) auto

lemma final_in: "Some b = final None xs \<Longrightarrow> b \<in> set xs"
  by (auto simp: final_def split: if_splits)

text \<open>In a sequence without repetition the two neighbours and the node between them are different nodes.\<close>

lemma apart:
  assumes d: "distinct (us @ vs)" and a: "a \<notin> set (us @ vs)"
  shows "b \<in> set us \<Longrightarrow> b \<noteq> a \<and> Some b \<noteq> first vs None" "b \<in> set vs \<Longrightarrow> b \<noteq> a \<and> Some b \<noteq> final None us"
    "Some b = final None us \<Longrightarrow> b \<noteq> a \<and> Some b \<noteq> first vs None" "Some b = first vs None \<Longrightarrow> b \<noteq> a \<and> Some b \<noteq> final None us"
  using d a first_in [of b vs] final_in [of b us] by (metis disjoint_iff distinct_append in_set_conv_decomp set_append UnI1 UnI2)+

lemma seg_linked_in:
  assumes s: "seg l h None (us @ vs) None" and d: "distinct (us @ vs)" and a: "a \<notin> set (us @ vs)" "h a = Some n"
  shows "seg l (linked_in l h us a vs) None (us @ a # vs) None"
proof -
  have "seg l (linked_in l h us a vs) None us (Some a)"
    by (rule seg_redirect_next [where h = h and q = "first vs None"])
      (use s d apart [OF d a(1)] in \<open>simp_all add: linked_in_def\<close>)
  moreover have "seg l (linked_in l h us a vs) (Some a) vs None"
    by (rule seg_redirect_prev [where h = h and p = "final None us"])
      (use s d apart [OF d a(1)] in \<open>simp_all add: linked_in_def\<close>)
  ultimately show ?thesis using a by (simp add: linked_in_def)
qed

lemma seg_linked_out:
  assumes s: "seg l h None (us @ a # vs) None" and d: "distinct (us @ a # vs)"
  shows "seg l (linked_out h us a vs) None (us @ vs) None"
proof -
  have d': "distinct (us @ vs)" and a: "a \<notin> set (us @ vs)" using d by auto
  have "seg l (linked_out h us a vs) None us (first vs None)"
    by (rule seg_redirect_next [where h = h and q = "Some a"])
      (use s d apart [OF d' a] in \<open>simp_all add: linked_out_def\<close>)
  moreover have "seg l (linked_out h us a vs) (final None us) vs None"
    by (rule seg_redirect_prev [where h = h and p = "Some a"])
      (use s d apart [OF d' a] in \<open>simp_all add: linked_out_def split: option.splits\<close>)
  ultimately show ?thesis by simp
qed

section \<open>The routines on well-formed lists\<close>

lemma shape_sel [simp]:
  "list_head (shape xs) = first xs None" "list_tail (shape xs) = final None xs"
  "list_length (shape xs) = word_of_nat (length xs)"
  by (simp_all add: shape_def)

lemma final_None [simp]: "final None xs = None \<longleftrightarrow> xs = []"
  by (simp add: final_def)

lemma first_None [simp]: "first xs None = None \<longleftrightarrow> xs = []"
  by (cases xs) simp_all

lemma final_Some_ne [simp]: "x \<noteq> y \<Longrightarrow> x \<notin> set ys \<Longrightarrow> final (Some y) ys \<noteq> Some x"
    "x \<noteq> y \<Longrightarrow> x \<notin> set ys \<Longrightarrow> Some x \<noteq> final (Some y) ys"
  by (auto simp: final_def)

lemma first_Some_ne [simp]: "x \<noteq> y \<Longrightarrow> x \<notin> set ys \<Longrightarrow> first ys (Some y) \<noteq> Some x"
    "x \<noteq> y \<Longrightarrow> x \<notin> set ys \<Longrightarrow> Some x \<noteq> first ys (Some y)"
  by (cases ys; simp)+

lemmas list_run = list_ok_def node_steps shape_def Let_def

lemma list_append_node_eq:
  assumes "list_ok l lst h xs" "a \<notin> set xs" "h a = Some n"
  shows "list_append_node l lst h a = Done (shape (xs @ [a]), linked_in l h xs a [])"
proof (cases xs rule: rev_cases)
  case Nil
  with assms show ?thesis
    by (simp add: list_append_node_def list_run del: obind_eq_Done) (auto simp: linked_in_def fun_eq_iff)
next
  case (snoc ys y)
  with assms obtain m where "h y = Some m" by (auto simp: list_ok_def split: option.splits)
  with snoc assms show ?thesis
    by (simp add: list_append_node_def list_run del: obind_eq_Done) (auto simp: linked_in_def fun_eq_iff)
qed

lemma list_append_node_after_eq:
  assumes "list_ok l lst h (us @ x # vs)" "a \<notin> set (us @ x # vs)" "detached h a"
  shows "list_append_node_after l lst h (Some x) a =
    Done (shape (us @ x # a # vs), linked_in l h (us @ [x]) a vs)"
proof -
  obtain m where m: "h x = Some m" "node_next m = first vs None" using assms(1) by (auto simp: list_ok_def split: option.splits)
  obtain n where n: "h a = Some n" "node_next n = None" using assms(3) by (auto simp: detached_def split: option.splits)
  show ?thesis
  proof (cases vs)
    case Nil
    with assms(1,2) m n show ?thesis
      by (simp add: list_append_node_after_def list_run del: obind_eq_Done) (auto simp: linked_in_def fun_eq_iff)
  next
    case (Cons y ys)
    with assms(1) obtain k where "h y = Some k" by (auto simp: list_ok_def split: option.splits)
    with Cons assms(1,2) m n show ?thesis
      by (simp add: list_append_node_after_def list_run del: obind_eq_Done) (auto simp: linked_in_def fun_eq_iff)
  qed
qed

lemma list_append_node_first_eq:
  assumes "list_ok l lst h (x # vs)" "a \<notin> set (x # vs)" "detached h a"
  shows "list_append_node_after l lst h None a = Done (shape (a # x # vs), linked_in l h [] a (x # vs))"
proof -
  obtain m where m: "h x = Some m" using assms(1) by (auto simp: list_ok_def split: option.splits)
  obtain n where n: "h a = Some n" "node_prev n = None" using assms(3) by (auto simp: detached_def split: option.splits)
  show ?thesis using assms(1,2) m n
    by (simp add: list_append_node_after_def list_run del: obind_eq_Done) (auto simp: linked_in_def fun_eq_iff)
qed

lemma list_append_node_before_eq:
  assumes "list_ok l lst h (us @ x # vs)" "a \<notin> set (us @ x # vs)" "detached h a"
  shows "list_append_node_before l lst h (Some x) a =
    Done (shape (us @ a # x # vs), linked_in l h us a (x # vs))"
proof -
  obtain m where m: "h x = Some m" "node_prev m = final None us" using assms(1) by (auto simp: list_ok_def split: option.splits)
  obtain n where n: "h a = Some n" "node_prev n = None" using assms(3) by (auto simp: detached_def split: option.splits)
  show ?thesis
  proof (cases us rule: rev_cases)
    case Nil
    with assms(1,2) m n show ?thesis
      by (simp add: list_append_node_before_def list_run del: obind_eq_Done) (auto simp: linked_in_def fun_eq_iff)
  next
    case (snoc ys y)
    with assms(1) obtain k where "h y = Some k" by (auto simp: list_ok_def split: option.splits)
    with snoc assms(1,2) m n show ?thesis
      by (simp add: list_append_node_before_def list_run del: obind_eq_Done) (auto simp: linked_in_def fun_eq_iff)
  qed
qed

lemma list_append_node_last_eq:
  assumes "list_ok l lst h (us @ [x])" "a \<notin> set (us @ [x])" "h a = Some n"
  shows "list_append_node_before l lst h None a = Done (shape (us @ [x, a]), linked_in l h (us @ [x]) a [])"
proof -
  obtain m where m: "h x = Some m" using assms(1) by (auto simp: list_ok_def split: option.splits)
  show ?thesis using assms m
    by (simp add: list_append_node_before_def list_run del: obind_eq_Done) (auto simp: linked_in_def fun_eq_iff)
qed

lemma list_delete_eq:
  assumes "list_ok l lst h (us @ a # vs)"
  shows "list_delete lst h (Some a) = Done (shape (us @ vs), linked_out h us a vs)"
proof -
  obtain n where n: "h a = Some n" "node_prev n = final None us" "node_next n = first vs None"
    using assms by (auto simp: list_ok_def split: option.splits)
  show ?thesis
  proof (cases us rule: rev_cases)
    case Nil
    then show ?thesis using assms n
      by (cases vs; simp add: list_delete_def list_run del: obind_eq_Done split: option.splits)
        (auto simp: list_run linked_out_def fun_eq_iff)
  next
    case (snoc ys y)
    then obtain m where "h y = Some m" using assms by (auto simp: list_ok_def split: option.splits)
    then show ?thesis using assms n snoc
      by (cases vs; simp add: list_delete_def list_run del: obind_eq_Done split: option.splits)
        (auto simp: list_run linked_out_def fun_eq_iff)
  qed
qed

lemma list_ok_linked_in:
  "list_ok l lst h (us @ vs) \<Longrightarrow> a \<notin> set (us @ vs) \<Longrightarrow> h a = Some n \<Longrightarrow>
   list_ok l (shape (us @ a # vs)) (linked_in l h us a vs) (us @ a # vs)"
  using seg_linked_in [of l h us vs a n] by (simp add: list_ok_def)

lemma list_ok_linked_out:
  "list_ok l lst h (us @ a # vs) \<Longrightarrow> list_ok l (shape (us @ vs)) (linked_out h us a vs) (us @ vs)"
  using seg_linked_out [of l h us a vs] by (simp add: list_ok_def)

lemma list_ok_frame:
  "list_ok l lst h xs \<Longrightarrow> (\<And>b. b \<in> set xs \<Longrightarrow> h' b = h b) \<Longrightarrow> list_ok l lst h' xs"
  using seg_cong [of xs h' h] by (simp add: list_ok_def)

text \<open>Linking changes no value and no node outside the list.\<close>

definition node_values :: "'v node_heap \<Rightarrow> nat \<Rightarrow> 'v option" where
  "node_values h b = map_option node_value (h b)"

lemma linked_in_frame:
  "node_values (linked_in l h us a vs) = node_values h"
  "b \<notin> set us \<Longrightarrow> b \<notin> set vs \<Longrightarrow> b \<noteq> a \<Longrightarrow> linked_in l h us a vs b = h b"
  by (auto simp: node_values_def linked_in_def fun_eq_iff option.map_comp o_def dest: first_in final_in)

lemma linked_out_frame:
  "node_values (linked_out h us a vs) = node_values h"
  "b \<notin> set us \<Longrightarrow> b \<notin> set vs \<Longrightarrow> b \<noteq> a \<Longrightarrow> linked_out h us a vs b = h b"
  "h a \<noteq> None \<Longrightarrow> detached (linked_out h us a vs) a"
  by (auto simp: node_values_def linked_out_def fun_eq_iff option.map_comp o_def detached_def dest: first_in final_in)

lemma list_popleft_eq:
  "list_ok l lst h [] \<Longrightarrow> list_popleft lst h = Done (None, lst, h)"
  "list_ok l lst h (a # vs) \<Longrightarrow> list_popleft lst h = Done (Some a, shape vs, linked_out h [] a vs)"
  using list_delete_eq [of l lst h "[]" a vs]
  by (auto simp: list_popleft_def list_ok_def simp del: obind_eq_Done)

lemma list_pop_eq:
  "list_ok l lst h [] \<Longrightarrow> list_pop lst h = Done (None, lst, h)"
  "list_ok l lst h (us @ [a]) \<Longrightarrow> list_pop lst h = Done (Some a, shape us, linked_out h us a [])"
  using list_delete_eq [of l lst h us a "[]"]
  by (auto simp: list_pop_def list_ok_def simp del: obind_eq_Done)

text \<open>Following the links from inside a list.\<close>

lemma walk_links_seg:
  "seg l h p xs None \<Longrightarrow> k \<le> length xs \<Longrightarrow> walk_links h (first xs None) k = Done (first (drop k xs) None, 0)"
proof (induction k arbitrary: p xs)
  case 0
  then show ?case by simp
next
  case (Suc k)
  then obtain a ys where xs: "xs = a # ys" by (cases xs) auto
  with Suc show ?case by (auto split: option.splits simp del: obind_eq_Done simp: node_steps)
qed

lemma list_delete_index_eq:
  assumes ok: "list_ok l lst h xs" and b: "length xs < 2 ^ 64" "k < 2 ^ 64"
  shows "list_delete_index lst h (word_of_nat k) =
    (if k < length xs then Done (shape (take k xs @ drop (Suc k) xs), linked_out h (take k xs) (xs ! k) (drop (Suc k) xs))
     else Done (lst, h))"
proof -
  have u: "unat (word_of_nat k :: u64) = k" using b by (simp add: unsigned_of_nat take_bit_nat_eq_self)
  have l: "list_length lst = word_of_nat (length xs)" "list_head lst = first xs None" and seg: "seg l h None xs None"
    using ok by (simp_all add: list_ok_def)
  have c: "word_of_nat k > list_length lst \<longleftrightarrow> k > length xs"
    using b u by (simp add: l word_less_nat_alt unsigned_of_nat take_bit_nat_eq_self)
  show ?thesis
  proof (cases "k < length xs")
    case True
    then have xs: "xs = take k xs @ xs ! k # drop (Suc k) xs" by (simp add: id_take_nth_drop)
    have f: "first (drop k xs) None = Some (xs ! k)" using True by (simp add: first_def Cons_nth_drop_Suc [symmetric])
    have "list_delete_index lst h (word_of_nat k) = list_delete lst h (Some (xs ! k))"
      using True c walk_links_seg [OF seg, of k] by (simp add: list_delete_index_def u l(2) f del: obind_eq_Done)
    also have "\<dots> = Done (shape (take k xs @ drop (Suc k) xs), linked_out h (take k xs) (xs ! k) (drop (Suc k) xs))"
      using ok xs by (intro list_delete_eq [where l = l]) simp
    finally show ?thesis using True by simp
  next
    case False
    then show ?thesis
      using c walk_links_seg [OF seg, of k]
      by (auto simp: list_delete_index_def u l(2) list_delete_def simp del: obind_eq_Done)
  qed
qed

text \<open>The search returns on every well-formed list, with the first node that holds the item.\<close>

lemma find_node_seg:
  "seg l h p xs None \<Longrightarrow>
   find_node h (first xs None) item = Some (Done (List.find (\<lambda>a. node_values h a = Some item) xs))"
proof (induction xs arbitrary: p)
  case Nil
  then show ?case by (subst find_node.simps) simp
next
  case (Cons a xs)
  then show ?case by (subst find_node.simps) (auto simp: node_values_def split: option.splits)
qed

lemma free_nodes_seg:
  "seg l h p xs None \<Longrightarrow> distinct xs \<Longrightarrow>
   free_nodes h (first xs None) = Some (Done (\<lambda>b. if b \<in> set xs then None else h b))"
proof (induction xs arbitrary: h p)
  case Nil
  then show ?case by (subst free_nodes.simps) simp
next
  case (Cons a xs)
  then obtain n where n: "h a = Some n" "node_next n = first xs None" "seg l h (Some a) xs None"
    by (auto split: option.splits)
  have "seg l (h(a := None)) (Some a) xs None"
    by (subst seg_cong [where h = h]) (use Cons.prems n in auto)
  then have "free_nodes (h(a := None)) (first xs None) = Some (Done (\<lambda>b. if b \<in> set xs then None else (h(a := None)) b))"
    using Cons.prems(2) Cons.IH [of "h(a := None)" "Some a"] by (simp del: fun_upd_apply)
  moreover have "(\<lambda>b. if b \<in> set xs then None else (h(a := None)) b) = (\<lambda>b. if b \<in> set (a # xs) then None else h b)"
    by auto
  ultimately show ?case using n by (subst free_nodes.simps) simp
qed

section \<open>Sequences of operations\<close>

text \<open>All nodes of the store are in the list or detached.\<close>

definition store_ok :: "nat \<Rightarrow> list_t \<Rightarrow> 'v node_heap \<Rightarrow> nat list \<Rightarrow> bool" where
  "store_ok l lst h xs \<longleftrightarrow> list_ok l lst h xs \<and> (\<forall>a. h a \<noteq> None \<and> a \<notin> set xs \<longrightarrow> detached h a)"

lemma node_values_mapped: "node_values h' = node_values h \<Longrightarrow> h' a = None \<longleftrightarrow> h a = None"
  by (metis node_values_def option.map_disc_iff)

lemma detached_cong: "h' a = h a \<Longrightarrow> detached h' a = detached h a"
  by (simp add: detached_def)

lemma store_ok_linked_in:
  assumes s: "store_ok l lst h (us @ vs)" and a: "a \<notin> set (us @ vs)" "h a \<noteq> None"
  shows "store_ok l (shape (us @ a # vs)) (linked_in l h us a vs) (us @ a # vs)"
proof -
  obtain n where n: "h a = Some n" using a by auto
  have "detached (linked_in l h us a vs) b" if "linked_in l h us a vs b \<noteq> None" "b \<notin> set (us @ a # vs)" for b
    using that s by (auto simp: store_ok_def linked_in_frame detached_cong [of "linked_in l h us a vs" b h])
  then show ?thesis using s a n list_ok_linked_in by (fastforce simp: store_ok_def)
qed

lemma store_ok_linked_out:
  assumes s: "store_ok l lst h (us @ a # vs)"
  shows "store_ok l (shape (us @ vs)) (linked_out h us a vs) (us @ vs)"
proof -
  have a: "h a \<noteq> None" using s by (auto simp: store_ok_def list_ok_def split: option.splits)
  have "detached (linked_out h us a vs) b" if "linked_out h us a vs b \<noteq> None" "b \<notin> set (us @ vs)" for b
  proof (cases "b = a")
    case True
    then show ?thesis using a by (simp add: linked_out_frame)
  next
    case False
    then have "linked_out h us a vs b = h b" using that by (simp add: linked_out_frame)
    with that False s show ?thesis by (auto simp: store_ok_def detached_cong [of "linked_out h us a vs" b h])
  qed
  then show ?thesis using s list_ok_linked_out by (fastforce simp: store_ok_def)
qed

lemma before_behind: "x \<in> set xs \<Longrightarrow> before x xs @ x # behind x xs = xs"
proof -
  assume x: "x \<in> set xs"
  then have "dropWhile (\<lambda>y. y \<noteq> x) xs \<noteq> []" by (simp add: dropWhile_eq_Nil_conv)
  then obtain y ys where d: "dropWhile (\<lambda>y. y \<noteq> x) xs = y # ys" by (cases "dropWhile (\<lambda>y. y \<noteq> x) xs") auto
  then have "y = x" by (metis (mono_tags, lifting) dropWhile_eq_Cons_conv)
  with d takeWhile_dropWhile_id [of "\<lambda>y. y \<noteq> x" xs] show ?thesis by (simp add: before_def behind_def)
qed

lemma no_node_Done [simp]: "no_node (Done (lst, h)) = Done (None, lst, h)"
  by (simp add: no_node_def)

text \<open>One operation: the list follows the sequence, and no value and no allocation changes.\<close>

lemma list_step_refines:
  assumes ok: "store_ok l lst h xs" and u: "usable (\<lambda>a. h a \<noteq> None) xs op"
  shows "\<exists>h'. list_step l op lst h = Done (fst (seq_step op xs), shape (snd (seq_step op xs)), h') \<and>
    store_ok l (shape (snd (seq_step op xs))) h' (snd (seq_step op xs)) \<and> node_values h' = node_values h"
proof -
  have lok: "list_ok l lst h xs" and lst: "lst = shape xs" using ok by (simp_all add: store_ok_def list_ok_def)
  have det: "detached h a" if "h a \<noteq> None" "a \<notin> set xs" for a using ok that by (simp add: store_ok_def)
  note frames = linked_in_frame(1) linked_out_frame(1)
  show ?thesis
  proof (cases op)
    case (Append a)
    then obtain n where "h a = Some n" "a \<notin> set xs" using u by auto
    with Append list_append_node_eq [OF lok] store_ok_linked_in [of l lst h xs "[]" a] ok show ?thesis
      by (simp add: frames)
  next
    case (Prepend a)
    then obtain y ys where "xs = y # ys" "detached h a" "h a \<noteq> None" "a \<notin> set xs" using u det by (cases xs) auto
    with Prepend list_append_node_first_eq [of l lst h y ys a] store_ok_linked_in [of l lst h "[]" xs a] ok lok show ?thesis
      by (simp add: frames)
  next
    case (InsertAfter x a)
    then have x: "xs = before x xs @ x # behind x xs" and a: "detached h a" "h a \<noteq> None" "a \<notin> set xs"
      using u det by (auto simp: before_behind)
    show ?thesis
      using InsertAfter a x list_append_node_after_eq [of l lst h "before x xs" x "behind x xs" a]
        store_ok_linked_in [of l lst h "before x xs @ [x]" "behind x xs" a] ok lok by (simp add: frames)
  next
    case (InsertBefore x a)
    then have x: "xs = before x xs @ x # behind x xs" and a: "detached h a" "h a \<noteq> None" "a \<notin> set xs"
      using u det by (auto simp: before_behind)
    show ?thesis
      using InsertBefore a x list_append_node_before_eq [of l lst h "before x xs" x "behind x xs" a]
        store_ok_linked_in [of l lst h "before x xs" "x # behind x xs" a] ok lok by (simp add: frames)
  next
    case (Delete a)
    then have x: "xs = before a xs @ a # behind a xs" using u by (simp add: before_behind)
    show ?thesis
      using Delete x list_delete_eq [of l lst h "before a xs" a "behind a xs"]
        store_ok_linked_out [of l lst h "before a xs" a "behind a xs"] ok lok by (simp add: frames)
  next
    case (DeleteIndex i)
    have x: "xs = take i xs @ xs ! i # drop (Suc i) xs" if "i < length xs" using that by (simp add: id_take_nth_drop)
    show ?thesis
      using DeleteIndex u x list_delete_index_eq [OF lok, of i]
        store_ok_linked_out [of l lst h "take i xs" "xs ! i" "drop (Suc i) xs"] ok lst
      by (cases "i < length xs") (simp_all add: frames)
  next
    case Pop
    then show ?thesis
      using list_pop_eq [of l lst h] store_ok_linked_out [of l lst h "butlast xs" "last xs" "[]"] ok lok lst
      by (cases xs rule: rev_cases) (simp_all add: frames)
  next
    case PopLeft
    then show ?thesis
      using list_popleft_eq [of l lst h] store_ok_linked_out [of l lst h "[]" "hd xs" "tl xs"] ok lok lst
      by (cases xs) (simp_all add: frames)
  qed
qed

lemma list_steps_refine:
  "store_ok l lst h xs \<Longrightarrow> usable_all (\<lambda>a. h a \<noteq> None) xs ops \<Longrightarrow>
   \<exists>h'. list_steps l ops lst h = Done (fst (seq_steps ops xs), shape (snd (seq_steps ops xs)), h') \<and>
     store_ok l (shape (snd (seq_steps ops xs))) h' (snd (seq_steps ops xs)) \<and> node_values h' = node_values h"
proof (induction ops arbitrary: lst h xs)
  case Nil
  then show ?case by (simp add: store_ok_def list_ok_def)
next
  case (Cons op ops)
  define ys where "ys = snd (seq_step op xs)"
  obtain h1 where h1: "list_step l op lst h = Done (fst (seq_step op xs), shape ys, h1)"
    "store_ok l (shape ys) h1 ys" "node_values h1 = node_values h"
    using list_step_refines [of l lst h xs op] Cons.prems by (auto simp: ys_def)
  have "usable_all (\<lambda>a. h1 a \<noteq> None) ys ops"
    using Cons.prems(2) node_values_mapped [OF h1(3)] by (simp add: ys_def)
  from Cons.IH [OF h1(2) this] obtain h2 where
    "list_steps l ops (shape ys) h1 = Done (fst (seq_steps ops ys), shape (snd (seq_steps ops ys)), h2)"
    "store_ok l (shape (snd (seq_steps ops ys))) h2 (snd (seq_steps ops ys))" "node_values h2 = node_values h1"
    by auto
  with h1 show ?case by (simp add: ys_def Let_def case_prod_unfold)
qed

section \<open>The contract of a scheduling queue\<close>

text \<open>
  What a client of a queue of nodes relies on: appending puts a node at the end, removing takes the
  first one, both leave the values and all nodes of other queues alone. From it follows the
  behaviour of several queues that share one store.
\<close>

definition queues_ok ::
  "(nat \<Rightarrow> 'l \<Rightarrow> 'v node_heap \<Rightarrow> nat list \<Rightarrow> bool) \<Rightarrow> 'l list \<Rightarrow> 'v node_heap \<Rightarrow> nat list list \<Rightarrow> bool" where
  "queues_ok holds qs h xss \<longleftrightarrow>
     length xss = length qs \<and> (\<forall>i < length qs. holds i (qs ! i) h (xss ! i)) \<and>
     (\<forall>i < length qs. \<forall>j < length qs. i \<noteq> j \<longrightarrow> set (xss ! i) \<inter> set (xss ! j) = {})"

locale node_queue =
  fixes append_node :: "nat \<Rightarrow> 'l \<Rightarrow> 'v node_heap \<Rightarrow> nat \<Rightarrow> ('l \<times> 'v node_heap) outcome"
    and popleft_node :: "'l \<Rightarrow> 'v node_heap \<Rightarrow> (ptr \<times> 'l \<times> 'v node_heap) outcome"
    and queue_length :: "'l \<Rightarrow> u64"
    and holds :: "nat \<Rightarrow> 'l \<Rightarrow> 'v node_heap \<Rightarrow> nat list \<Rightarrow> bool"
  assumes append_law:
      "holds l q h xs \<Longrightarrow> a \<notin> set xs \<Longrightarrow> h a \<noteq> None \<Longrightarrow>
       \<exists>q' h'. append_node l q h a = Done (q', h') \<and> holds l q' h' (xs @ [a]) \<and>
         node_values h' = node_values h \<and> (\<forall>b. b \<notin> set xs \<longrightarrow> b \<noteq> a \<longrightarrow> h' b = h b)"
    and popleft_law:
      "holds l q h xs \<Longrightarrow>
       \<exists>q' h'. popleft_node q h = Done (first xs None, q', h') \<and> holds l q' h' (tl xs) \<and>
         node_values h' = node_values h \<and> (\<forall>b. b \<notin> set xs \<longrightarrow> h' b = h b)"
    and frame_law: "holds l q h xs \<Longrightarrow> (\<And>b. b \<in> set xs \<Longrightarrow> h' b = h b) \<Longrightarrow> holds l q h' xs"
    and length_law: "holds l q h xs \<Longrightarrow> queue_length q = word_of_nat (length xs)"
begin

lemma queues_append:
  assumes q: "queues_ok holds qs h xss" and i: "i < length qs" and a: "\<forall>j < length qs. a \<notin> set (xss ! j)" "h a \<noteq> None"
  shows "\<exists>q' h'. append_node i (qs ! i) h a = Done (q', h') \<and>
    queues_ok holds (qs[i := q']) h' (xss[i := xss ! i @ [a]]) \<and> node_values h' = node_values h"
proof -
  obtain q' h' where r: "append_node i (qs ! i) h a = Done (q', h')" "holds i q' h' (xss ! i @ [a])"
    "node_values h' = node_values h" and keep: "\<And>b. b \<notin> set (xss ! i) \<Longrightarrow> b \<noteq> a \<Longrightarrow> h' b = h b"
    using append_law [of i "qs ! i" h "xss ! i" a] q i a by (auto simp: queues_ok_def)
  have "holds j (qs ! j) h' (xss ! j)" if j: "j < length qs" "j \<noteq> i" for j
  proof (rule frame_law)
    show "holds j (qs ! j) h (xss ! j)" using q j by (simp add: queues_ok_def)
    have "set (xss ! i) \<inter> set (xss ! j) = {}" using q i j unfolding queues_ok_def by metis
    then show "h' b = h b" if "b \<in> set (xss ! j)" for b using that a(1) j by (intro keep) auto
  qed
  with r q i a have "queues_ok holds (qs[i := q']) h' (xss[i := xss ! i @ [a]])"
    by (auto simp: queues_ok_def nth_list_update)
  with r show ?thesis by blast
qed

lemma queues_popleft:
  assumes q: "queues_ok holds qs h xss" and i: "i < length qs"
  shows "\<exists>q' h'. popleft_node (qs ! i) h = Done (first (xss ! i) None, q', h') \<and>
    queues_ok holds (qs[i := q']) h' (xss[i := tl (xss ! i)]) \<and> node_values h' = node_values h"
proof -
  obtain q' h' where r: "popleft_node (qs ! i) h = Done (first (xss ! i) None, q', h')" "holds i q' h' (tl (xss ! i))"
    "node_values h' = node_values h" and keep: "\<And>b. b \<notin> set (xss ! i) \<Longrightarrow> h' b = h b"
    using popleft_law [of i "qs ! i" h "xss ! i"] q i by (auto simp: queues_ok_def)
  have "holds j (qs ! j) h' (xss ! j)" if j: "j < length qs" "j \<noteq> i" for j
  proof (rule frame_law)
    show "holds j (qs ! j) h (xss ! j)" using q j by (simp add: queues_ok_def)
    have "set (xss ! i) \<inter> set (xss ! j) = {}" using q i j unfolding queues_ok_def by metis
    then show "h' b = h b" if "b \<in> set (xss ! j)" for b using that by (intro keep) auto
  qed
  moreover have "set (tl (xss ! i)) \<subseteq> set (xss ! i)" by (cases "xss ! i") auto
  ultimately have "queues_ok holds (qs[i := q']) h' (xss[i := tl (xss ! i)])"
    using r q i by (auto simp: queues_ok_def nth_list_update) blast+
  with r show ?thesis by blast
qed

lemma queues_length:
  "queues_ok holds qs h xss \<Longrightarrow> i < length qs \<Longrightarrow> queue_length (qs ! i) = word_of_nat (length (xss ! i))"
  using length_law by (auto simp: queues_ok_def)

end

interpretation lq: node_queue list_append_node list_popleft list_length list_ok
proof unfold_locales
  fix l q and h :: "'a node_heap" and xs a
  assume ok: "list_ok l q h xs" and a: "a \<notin> set xs" "h a \<noteq> None"
  then show "\<exists>q' h'. list_append_node l q h a = Done (q', h') \<and> list_ok l q' h' (xs @ [a]) \<and>
      node_values h' = node_values h \<and> (\<forall>b. b \<notin> set xs \<longrightarrow> b \<noteq> a \<longrightarrow> h' b = h b)"
    using list_append_node_eq [OF ok a(1)] list_ok_linked_in [of l q h xs "[]" a] by (auto simp: linked_in_frame)
next
  fix l q and h :: "'a node_heap" and xs
  assume ok: "list_ok l q h xs"
  show "\<exists>q' h'. list_popleft q h = Done (first xs None, q', h') \<and> list_ok l q' h' (tl xs) \<and>
      node_values h' = node_values h \<and> (\<forall>b. b \<notin> set xs \<longrightarrow> h' b = h b)"
  proof (cases xs)
    case Nil
    with ok list_popleft_eq(1) show ?thesis by fastforce
  next
    case (Cons y ys)
    with ok list_popleft_eq(2) [of l q h y ys] list_ok_linked_out [of l q h "[]" y ys] show ?thesis
      by (auto simp: linked_out_frame)
  qed
next
  fix l q and h h' :: "'a node_heap" and xs
  show "list_ok l q h xs \<Longrightarrow> (\<And>b. b \<in> set xs \<Longrightarrow> h' b = h b) \<Longrightarrow> list_ok l q h' xs" by (rule list_ok_frame)
next
  fix l q and h :: "'a node_heap" and xs
  show "list_ok l q h xs \<Longrightarrow> list_length q = word_of_nat (length xs)" by (simp add: list_ok_def)
qed

section \<open>Properties\<close>


definition three_nodes :: "nat \<Rightarrow> nat node option" where
  "three_nodes a = (if a < 3 then Some (zeroed (a + 10)) else None)"


text \<open>
  The two insertions that the comments describe for a null position are wrong on an empty list:
  inserting after null follows a null pointer, and inserting before null leaves the head unset, so the
  list has length 1 but neither a search nor \<open>list_popleft\<close> sees its node.
\<close>

theorem list_insert_at_null:
  "list_append_after l list_create h None a item = Fault \<and>
   (\<exists>lst h'. list_append_before l list_create h None a item = Done (lst, h') \<and> list_length lst = 1 \<and>
     list_find lst h' item = Some (Done None) \<and> list_popleft lst h' = Done (None, lst, h'))"
proof -
  have "find_node g None item = Some (Done None)" for g :: "'a node_heap"
    by (subst find_node.simps) simp
  then show ?thesis
    by (simp add: list_append_after_def list_append_node_after_def list_append_before_def list_append_node_before_def
        list_create_def change_node_def list_find_def list_popleft_def)
qed

end
