(* ===== verification/Scheduler.thy ===== *)
theory Scheduler
  imports Linked_List
begin

text \<open>
  The run queues of \<^verbatim>\<open>hexahedron/task/scheduler.c\<close>: one queue of threads for every processor, from
  which an idle processor takes the first thread of the longest other queue. The state also holds
  the thread structures with their sleep records and the queue of timed sleepers, on which the
  sleep routines and the context switch work. A thread is named by its address; the node that links
  it into a run queue is the one with the same name. A routine that runs under a spinlock is one
  step. The queues are used only through the contract of \<open>node_queue\<close>.
\<close>

section \<open>State\<close>

definition THREAD_STATUS_STOPPED :: u32 where "THREAD_STATUS_STOPPED = 0x02"
definition THREAD_STATUS_RUNNING :: u32 where "THREAD_STATUS_RUNNING = 0x04"
definition THREAD_STATUS_SLEEPING :: u32 where "THREAD_STATUS_SLEEPING = 0x08"
definition THREAD_STATUS_STOPPING :: u32 where "THREAD_STATUS_STOPPING = 0x10"

datatype wakeup_reason = WAKEUP_SIGNAL | WAKEUP_TIME | WAKEUP_ANOTHER_THREAD

record thread =
  th_status :: u32
  sl_thread :: ptr
  sl_next :: ptr
  sl_prev :: ptr
  sl_lock :: bool
  sl_reason :: wakeup_reason
  sl_seconds :: u64
  sl_subseconds :: u64
  sl_queue :: ptr
  sl_interruptible :: bool

record time_entry =
  te_thread :: ptr
  te_seconds :: u64
  te_subseconds :: u64

definition SCHEDULER_STATE_INACTIVE :: nat where "SCHEDULER_STATE_INACTIVE = 0"
definition SCHEDULER_STATE_ACTIVE :: nat where "SCHEDULER_STATE_ACTIVE = 2"

record cpu =
  cpu_state :: nat
  cpu_queue :: list_t
  cpu_current :: ptr
  cpu_idle :: nat

record kstate =
  k_threads :: "nat \<Rightarrow> thread option"
  k_nodes :: "nat node_heap"
  k_cpus :: "cpu list"
  k_time :: "time_entry list"
  k_queues :: "nat \<Rightarrow> ptr"

definition cpu_of :: "kstate \<Rightarrow> nat \<Rightarrow> cpu" where
  "cpu_of s c = k_cpus s ! c"

definition set_cpu :: "nat \<Rightarrow> (cpu \<Rightarrow> cpu) \<Rightarrow> kstate \<Rightarrow> kstate" where
  "set_cpu c f s = s\<lparr>k_cpus := (k_cpus s)[c := f (cpu_of s c)]\<rparr>"

section \<open>The run queues\<close>

text \<open>\<open>c\<close> is the processor that runs the routine (\<^verbatim>\<open>current_cpu\<close>).\<close>

definition scheduler_initCPU :: "nat \<Rightarrow> kstate \<Rightarrow> kstate" where
  "scheduler_initCPU c = set_cpu c (\<lambda>p. p\<lparr>cpu_queue := list_create, cpu_state := SCHEDULER_STATE_ACTIVE\<rparr>)"

definition enqueue :: "nat \<Rightarrow> nat \<Rightarrow> kstate \<Rightarrow> kstate outcome" where
  "enqueue c t s =
     obind (list_append_node c (cpu_queue (cpu_of s c)) (k_nodes s) t) (\<lambda>(q, h).
     Done (set_cpu c (\<lambda>p. p\<lparr>cpu_queue := q\<rparr>) (s\<lparr>k_nodes := h\<rparr>)))"

definition dequeue :: "nat \<Rightarrow> kstate \<Rightarrow> (ptr \<times> kstate) outcome" where
  "dequeue c s =
     obind (list_popleft (cpu_queue (cpu_of s c)) (k_nodes s)) (\<lambda>(n, q, h).
     Done (n, set_cpu c (\<lambda>p. p\<lparr>cpu_queue := q\<rparr>) (s\<lparr>k_nodes := h\<rparr>)))"

definition scheduler_insertThread :: "nat \<Rightarrow> nat \<Rightarrow> kstate \<Rightarrow> kstate outcome" where
  "scheduler_insertThread c t s =
     oassert (cpu_state (cpu_of s c) = SCHEDULER_STATE_ACTIVE) (enqueue c t s)"

fun most_loaded :: "cpu list \<Rightarrow> nat \<Rightarrow> nat option \<Rightarrow> u64 \<Rightarrow> nat option" where
  "most_loaded [] i best highest = best"
| "most_loaded (p # ps) i best highest =
     (if cpu_state p = SCHEDULER_STATE_ACTIVE \<and> list_length (cpu_queue p) > highest
      then most_loaded ps (Suc i) (Some i) (list_length (cpu_queue p))
      else most_loaded ps (Suc i) best highest)"

definition scheduler_findMostLoadedCPU :: "kstate \<Rightarrow> nat option" where
  "scheduler_findMostLoadedCPU s = most_loaded (k_cpus s) 0 None 0"

text \<open>The value of the node that was taken from a queue.\<close>

definition thread_of_node :: "kstate \<Rightarrow> nat \<Rightarrow> nat outcome" where
  "thread_of_node s n = obind (node_at (k_nodes s) (Some n)) (\<lambda>x. Done (node_value x))"

text \<open>
  The part of \<open>scheduler_get\<close> behind the call of \<open>sleep_callback\<close>: the own queue first, then the
  longest one, then the idle thread.
\<close>

definition take_thread :: "nat \<Rightarrow> kstate \<Rightarrow> (nat \<times> kstate) outcome" where
  "take_thread c s =
     obind (dequeue c s) (\<lambda>(n, s). (case n of
       Some a \<Rightarrow> obind (thread_of_node s a) (\<lambda>t. Done (t, s))
     | None \<Rightarrow> (case scheduler_findMostLoadedCPU s of
         None \<Rightarrow> Done (cpu_idle (cpu_of s c), s)
       | Some v \<Rightarrow> obind (dequeue v s) (\<lambda>(n, s). (case n of
           Some a \<Rightarrow> obind (thread_of_node s a) (\<lambda>t. Done (t, s))
         | None \<Rightarrow> Done (cpu_idle (cpu_of s c), s))))))"

section \<open>Well-formed run queues\<close>

text \<open>\<open>xss ! c\<close> is the sequence of threads that wait for processor \<open>c\<close>.\<close>

definition sched_ok :: "kstate \<Rightarrow> nat list list \<Rightarrow> bool" where
  "sched_ok s xss \<longleftrightarrow>
     queues_ok list_ok (map cpu_queue (k_cpus s)) (k_nodes s) xss \<and>
     (\<forall>t. k_threads s t \<noteq> None \<longrightarrow> node_values (k_nodes s) t = Some t) \<and>
     (\<forall>c < length (k_cpus s). \<forall>t \<in> set (xss ! c). k_threads s t \<noteq> None) \<and>
     finite (dom (k_threads s)) \<and> card (dom (k_threads s)) < 2 ^ 64"

definition queued :: "nat list list \<Rightarrow> nat set" where
  "queued xss = (\<Union>xs \<in> set xss. set xs)"

text \<open>Everything but the run queues and the nodes.\<close>

definition same_but_queues :: "kstate \<Rightarrow> kstate \<Rightarrow> bool" where
  "same_but_queues s s' \<longleftrightarrow>
     k_threads s' = k_threads s \<and> k_time s' = k_time s \<and> k_queues s' = k_queues s \<and>
     map (\<lambda>p. (cpu_state p, cpu_current p, cpu_idle p)) (k_cpus s') = map (\<lambda>p. (cpu_state p, cpu_current p, cpu_idle p)) (k_cpus s)"

lemma sched_length: "sched_ok s xss \<Longrightarrow> length xss = length (k_cpus s)"
  by (simp add: sched_ok_def queues_ok_def)

lemma queued_iff: "sched_ok s xss \<Longrightarrow> t \<in> queued xss \<longleftrightarrow> (\<exists>c < length (k_cpus s). t \<in> set (xss ! c))"
  unfolding queued_def sched_length [symmetric] UN_iff by (metis in_set_conv_nth)

lemma set_cpu_queue:
  "map cpu_queue (k_cpus (set_cpu c (\<lambda>p. p\<lparr>cpu_queue := q\<rparr>) (s\<lparr>k_nodes := h\<rparr>))) = (map cpu_queue (k_cpus s))[c := q]"
  by (simp add: set_cpu_def cpu_of_def map_update)

lemma set_cpu_same:
  "c < length (k_cpus s) \<Longrightarrow> same_but_queues s (set_cpu c (\<lambda>p. p\<lparr>cpu_queue := q\<rparr>) (s\<lparr>k_nodes := h\<rparr>))"
  by (simp add: same_but_queues_def set_cpu_def cpu_of_def map_update list_update_same_conv)

lemma same_but_queues_trans:
  "same_but_queues s s' \<Longrightarrow> same_but_queues s' s'' \<Longrightarrow> same_but_queues s s''"
  by (simp add: same_but_queues_def)

lemma same_but_queues_length: "same_but_queues s s' \<Longrightarrow> length (k_cpus s') = length (k_cpus s)"
  by (auto simp: same_but_queues_def dest: map_eq_imp_length_eq)

lemma same_but_queues_cpu:
  assumes "same_but_queues s s'" "c < length (k_cpus s)"
  shows "cpu_state (cpu_of s' c) = cpu_state (cpu_of s c)" "cpu_current (cpu_of s' c) = cpu_current (cpu_of s c)"
    "cpu_idle (cpu_of s' c) = cpu_idle (cpu_of s c)"
proof -
  have "map (\<lambda>p. (cpu_state p, cpu_current p, cpu_idle p)) (k_cpus s') ! c = map (\<lambda>p. (cpu_state p, cpu_current p, cpu_idle p)) (k_cpus s) ! c"
    using assms(1) by (simp add: same_but_queues_def)
  with assms same_but_queues_length [OF assms(1)] show "cpu_state (cpu_of s' c) = cpu_state (cpu_of s c)"
    "cpu_current (cpu_of s' c) = cpu_current (cpu_of s c)" "cpu_idle (cpu_of s' c) = cpu_idle (cpu_of s c)"
    by (simp_all add: cpu_of_def)
qed

text \<open>Inserting a thread that waits nowhere puts it at the end of the queue of the processor.\<close>

lemma enqueue_effect:
  assumes ok: "sched_ok s xss" and c: "c < length (k_cpus s)" and t: "t \<notin> queued xss" "k_threads s t \<noteq> None"
  shows "\<exists>s'. enqueue c t s = Done s' \<and> sched_ok s' (xss[c := xss ! c @ [t]]) \<and> same_but_queues s s'"
proof -
  have q: "queues_ok list_ok (map cpu_queue (k_cpus s)) (k_nodes s) xss" using ok by (simp add: sched_ok_def)
  have "node_values (k_nodes s) t = Some t" using ok t by (simp add: sched_ok_def)
  then have "k_nodes s t \<noteq> None" by (auto simp: node_values_def)
  moreover have "\<forall>j < length (map cpu_queue (k_cpus s)). t \<notin> set (xss ! j)" using t(1) queued_iff [OF ok] by auto
  ultimately obtain q' h' where r: "list_append_node c (map cpu_queue (k_cpus s) ! c) (k_nodes s) t = Done (q', h')"
    "queues_ok list_ok ((map cpu_queue (k_cpus s))[c := q']) h' (xss[c := xss ! c @ [t]])"
    "node_values h' = node_values (k_nodes s)"
    using lq.queues_append [OF q, of c t] c by auto
  define s' where "s' = set_cpu c (\<lambda>p. p\<lparr>cpu_queue := q'\<rparr>) (s\<lparr>k_nodes := h'\<rparr>)"
  have same: "same_but_queues s s'" using c by (simp add: s'_def set_cpu_same)
  have "k_nodes s' = h'" "map cpu_queue (k_cpus s') = (map cpu_queue (k_cpus s))[c := q']"
    by (simp_all add: s'_def set_cpu_queue) (simp add: set_cpu_def)
  moreover have "k_threads s' = k_threads s" "length (k_cpus s') = length (k_cpus s)"
    using same by (simp_all add: same_but_queues_length) (simp add: same_but_queues_def)
  ultimately have "sched_ok s' (xss[c := xss ! c @ [t]])"
    using ok r(2,3) t c sched_length [OF ok] by (auto simp: sched_ok_def nth_list_update)
  with r(1) c same show ?thesis by (simp add: enqueue_def cpu_of_def s'_def del: obind_eq_Done)
qed

lemma dequeue_effect:
  assumes ok: "sched_ok s xss" and c: "c < length (k_cpus s)"
  shows "\<exists>s'. dequeue c s = Done (first (xss ! c) None, s') \<and> sched_ok s' (xss[c := tl (xss ! c)]) \<and> same_but_queues s s'"
proof -
  have q: "queues_ok list_ok (map cpu_queue (k_cpus s)) (k_nodes s) xss" using ok by (simp add: sched_ok_def)
  obtain q' h' where r: "list_popleft (map cpu_queue (k_cpus s) ! c) (k_nodes s) = Done (first (xss ! c) None, q', h')"
    "queues_ok list_ok ((map cpu_queue (k_cpus s))[c := q']) h' (xss[c := tl (xss ! c)])"
    "node_values h' = node_values (k_nodes s)"
    using lq.queues_popleft [OF q, of c] c by auto
  define s' where "s' = set_cpu c (\<lambda>p. p\<lparr>cpu_queue := q'\<rparr>) (s\<lparr>k_nodes := h'\<rparr>)"
  have same: "same_but_queues s s'" using c by (simp add: s'_def set_cpu_same)
  have "k_nodes s' = h'" "map cpu_queue (k_cpus s') = (map cpu_queue (k_cpus s))[c := q']"
    by (simp_all add: s'_def set_cpu_queue) (simp add: set_cpu_def)
  moreover have "k_threads s' = k_threads s" "length (k_cpus s') = length (k_cpus s)"
    using same by (simp_all add: same_but_queues_length) (simp add: same_but_queues_def)
  moreover have "set (tl (xss ! c)) \<subseteq> set (xss ! c)" by (cases "xss ! c") auto
  ultimately have "sched_ok s' (xss[c := tl (xss ! c)])"
    using ok r(2,3) c sched_length [OF ok] by (auto simp: sched_ok_def nth_list_update)
  with r(1) c same show ?thesis by (simp add: dequeue_def cpu_of_def s'_def del: obind_eq_Done)
qed

lemma sched_queue:
  assumes "sched_ok s xss" "c < length (k_cpus s)"
  shows "list_length (cpu_queue (k_cpus s ! c)) = word_of_nat (length (xss ! c))" "length (xss ! c) < 2 ^ 64" "distinct (xss ! c)"
proof -
  have ok: "list_ok c (cpu_queue (k_cpus s ! c)) (k_nodes s) (xss ! c)" using assms by (auto simp: sched_ok_def queues_ok_def)
  then show "list_length (cpu_queue (k_cpus s ! c)) = word_of_nat (length (xss ! c))" "distinct (xss ! c)"
    by (simp_all add: list_ok_def)
  then have "length (xss ! c) = card (set (xss ! c))" by (simp add: distinct_card)
  also have "\<dots> \<le> card (dom (k_threads s))" using assms by (intro card_mono) (auto simp: sched_ok_def)
  finally show "length (xss ! c) < 2 ^ 64" using assms(1) by (simp add: sched_ok_def)
qed

text \<open>The processor chosen for stealing has a longest queue among the active ones.\<close>

lemma most_loaded_spec:
  assumes "most_loaded ps i best highest = r"
  shows "(r = best \<and> (\<forall>p \<in> set ps. cpu_state p = SCHEDULER_STATE_ACTIVE \<longrightarrow> list_length (cpu_queue p) \<le> highest)) \<or>
    (\<exists>k < length ps. r = Some (i + k) \<and> cpu_state (ps ! k) = SCHEDULER_STATE_ACTIVE \<and> highest < list_length (cpu_queue (ps ! k)) \<and>
      (\<forall>p \<in> set ps. cpu_state p = SCHEDULER_STATE_ACTIVE \<longrightarrow> list_length (cpu_queue p) \<le> list_length (cpu_queue (ps ! k))))"
  using assms
proof (induction ps arbitrary: i best highest)
  case Nil
  then show ?case by simp
next
  case (Cons p ps)
  show ?case
  proof (cases "cpu_state p = SCHEDULER_STATE_ACTIVE \<and> list_length (cpu_queue p) > highest")
    case True
    with Cons.prems have "most_loaded ps (Suc i) (Some i) (list_length (cpu_queue p)) = r" by simp
    from Cons.IH [OF this] show ?thesis
    proof (elim disjE exE conjE)
      assume "r = Some i" "\<forall>q \<in> set ps. cpu_state q = SCHEDULER_STATE_ACTIVE \<longrightarrow> list_length (cpu_queue q) \<le> list_length (cpu_queue p)"
      with True show ?thesis by (intro disjI2 exI [of _ 0]) auto
    next
      fix k assume "k < length ps" "r = Some (Suc i + k)" "cpu_state (ps ! k) = SCHEDULER_STATE_ACTIVE"
        "list_length (cpu_queue p) < list_length (cpu_queue (ps ! k))"
        "\<forall>q \<in> set ps. cpu_state q = SCHEDULER_STATE_ACTIVE \<longrightarrow> list_length (cpu_queue q) \<le> list_length (cpu_queue (ps ! k))"
      with True show ?thesis by (intro disjI2 exI [of _ "Suc k"]) auto
    qed
  next
    case False
    with Cons.prems have "most_loaded ps (Suc i) best highest = r" by auto
    from Cons.IH [OF this] False show ?thesis
    proof (elim disjE exE conjE)
      fix k assume "k < length ps" "r = Some (Suc i + k)" "cpu_state (ps ! k) = SCHEDULER_STATE_ACTIVE"
        "highest < list_length (cpu_queue (ps ! k))"
        "\<forall>q \<in> set ps. cpu_state q = SCHEDULER_STATE_ACTIVE \<longrightarrow> list_length (cpu_queue q) \<le> list_length (cpu_queue (ps ! k))"
      with False show ?thesis by (intro disjI2 exI [of _ "Suc k"]) auto
    qed auto
  qed
qed

definition active :: "kstate \<Rightarrow> nat \<Rightarrow> bool" where
  "active s c \<longleftrightarrow> c < length (k_cpus s) \<and> cpu_state (cpu_of s c) = SCHEDULER_STATE_ACTIVE"

lemma findMostLoaded_effect:
  assumes ok: "sched_ok s xss"
  shows "(scheduler_findMostLoadedCPU s = None \<and> (\<forall>w. active s w \<longrightarrow> xss ! w = [])) \<or>
    (\<exists>v. scheduler_findMostLoadedCPU s = Some v \<and> active s v \<and> xss ! v \<noteq> [] \<and>
      (\<forall>w. active s w \<longrightarrow> length (xss ! w) \<le> length (xss ! v)))"
proof -
  have le: "list_length (cpu_queue (k_cpus s ! v)) \<le> list_length (cpu_queue (k_cpus s ! w)) \<longleftrightarrow> length (xss ! v) \<le> length (xss ! w)"
    if "v < length (k_cpus s)" "w < length (k_cpus s)" for v w
    using sched_queue [OF ok that(1)] sched_queue [OF ok that(2)] by (simp add: word_le_nat_alt unsigned_of_nat take_bit_nat_eq_self)
  have z: "0 < list_length (cpu_queue (k_cpus s ! v)) \<longleftrightarrow> xss ! v \<noteq> []" if "v < length (k_cpus s)" for v
    using sched_queue [OF ok that] by (simp add: word_less_nat_alt unsigned_of_nat take_bit_nat_eq_self)
  from most_loaded_spec [of "k_cpus s" 0 None 0 "scheduler_findMostLoadedCPU s"] show ?thesis
    by (simp add: scheduler_findMostLoadedCPU_def active_def cpu_of_def) (metis le z nth_mem word_gt_0)
qed

text \<open>
  The next thread of a processor: the first one of its own queue, otherwise the first one of a longest
  queue of an active processor, and the idle thread only when all these queues are empty.
\<close>

definition taken_from :: "kstate \<Rightarrow> nat \<Rightarrow> nat list list \<Rightarrow> nat \<Rightarrow> nat \<Rightarrow> nat list list \<Rightarrow> bool" where
  "taken_from s c xss v t xss' \<longleftrightarrow>
     v < length (k_cpus s) \<and> xss ! v = t # tl (xss ! v) \<and> xss' = xss[v := tl (xss ! v)] \<and>
     (v = c \<or> xss ! c = [] \<and> active s v \<and> (\<forall>w. active s w \<longrightarrow> length (xss ! w) \<le> length (xss ! v)))"

definition all_empty :: "kstate \<Rightarrow> nat \<Rightarrow> nat list list \<Rightarrow> bool" where
  "all_empty s c xss \<longleftrightarrow> xss ! c = [] \<and> (\<forall>w. active s w \<longrightarrow> xss ! w = [])"

lemma thread_of_node_queued:
  assumes ok: "sched_ok s xss" and same: "same_but_queues s s'" and ok': "sched_ok s' xss'"
    and c: "c < length (k_cpus s)" "t \<in> set (xss ! c)"
  shows "thread_of_node s' t = Done t"
proof -
  have "k_threads s t \<noteq> None" using ok c by (simp add: sched_ok_def)
  then have "node_values (k_nodes s') t = Some t" using same ok' by (simp add: sched_ok_def same_but_queues_def)
  then show ?thesis by (auto simp: thread_of_node_def node_values_def)
qed

lemma same_active: "same_but_queues s s' \<Longrightarrow> active s' = active s"
  using same_but_queues_length same_but_queues_cpu(1) by (fastforce simp: active_def fun_eq_iff)

lemma take_thread_effect:
  assumes ok: "sched_ok s xss" and c: "c < length (k_cpus s)"
  shows "\<exists>t s' xss'. take_thread c s = Done (t, s') \<and> sched_ok s' xss' \<and> same_but_queues s s' \<and>
    ((\<exists>v. taken_from s c xss v t xss') \<or> all_empty s c xss \<and> t = cpu_idle (cpu_of s c) \<and> xss' = xss)"
proof -
  obtain s1 where d: "dequeue c s = Done (first (xss ! c) None, s1)" and ok1: "sched_ok s1 (xss[c := tl (xss ! c)])"
    and same: "same_but_queues s s1"
    using dequeue_effect [OF ok c] by auto
  show ?thesis
  proof (cases "xss ! c")
    case (Cons t ys)
    then have "thread_of_node s1 t = Done t" using thread_of_node_queued [OF ok same ok1 c] by simp
    moreover have "taken_from s c xss c t (xss[c := tl (xss ! c)])" using Cons c by (simp add: taken_from_def)
    ultimately show ?thesis using d Cons ok1 same
      by (intro exI [of _ t] exI [of _ s1] exI [of _ "xss[c := tl (xss ! c)]"])
        (auto simp: take_thread_def simp del: obind_eq_Done)
  next
    case Nil
    then have x: "xss[c := tl (xss ! c)] = xss" by (metis list.sel(2) list_update_id)
    note ok1' = ok1 [unfolded x]
    have len: "length (k_cpus s1) = length (k_cpus s)" and act: "active s1 = active s"
      and idle: "cpu_idle (cpu_of s1 c) = cpu_idle (cpu_of s c)"
      using same c by (simp_all add: same_but_queues_length same_active same_but_queues_cpu)
    from findMostLoaded_effect [OF ok1'] show ?thesis
    proof (elim disjE exE conjE)
      assume "scheduler_findMostLoadedCPU s1 = None" "\<forall>w. active s1 w \<longrightarrow> xss ! w = []"
      with d Nil ok1' same idle act show ?thesis
        by (intro exI [of _ "cpu_idle (cpu_of s c)"] exI [of _ s1] exI [of _ xss])
          (auto simp: take_thread_def all_empty_def simp del: obind_eq_Done)
    next
      fix v assume v: "scheduler_findMostLoadedCPU s1 = Some v" "active s1 v" "xss ! v \<noteq> []"
        "\<forall>w. active s1 w \<longrightarrow> length (xss ! w) \<le> length (xss ! v)"
      then have vl: "v < length (k_cpus s1)" by (simp add: active_def)
      obtain t ys where t: "xss ! v = t # ys" using v(3) by (cases "xss ! v") auto
      obtain s2 where d2: "dequeue v s1 = Done (Some t, s2)" and ok2: "sched_ok s2 (xss[v := tl (xss ! v)])"
        and same2: "same_but_queues s1 s2"
        using dequeue_effect [OF ok1' vl] t by auto
      have "thread_of_node s2 t = Done t" using thread_of_node_queued [OF ok1' same2 ok2 vl] t by simp
      moreover have "taken_from s c xss v t (xss[v := tl (xss ! v)])"
        using v Nil t vl len act by (auto simp: taken_from_def)
      ultimately show ?thesis using d Nil d2 ok2 v(1) same_but_queues_trans [OF same same2]
        by (intro exI [of _ t] exI [of _ s2] exI [of _ "xss[v := tl (xss ! v)]"])
          (auto simp: take_thread_def simp del: obind_eq_Done)
    qed
  qed
qed

end
