(* ===== verification/Sleep.thy ===== *)
theory Sleep
  imports Scheduler
begin

text \<open>
  Sleeping and waking of \<^verbatim>\<open>hexahedron/task/sleep.c\<close>, the choice of the next thread and the context
  switch of \<^verbatim>\<open>scheduler.c\<close> and \<^verbatim>\<open>process.c\<close>. A sleep queue is a chain of the sleep records inside the
  threads, followed through their pointers. A thread that prepares to sleep takes the lock of its
  sleep record, and the switch to the next thread releases it on the new stack; a routine that has to
  wait for this lock is a step that can be taken only when the lock is free, and its definition
  starts from there. The time that a routine reads from the clock is an argument.
\<close>

section \<open>Waking\<close>

definition thread_at :: "kstate \<Rightarrow> ptr \<Rightarrow> thread outcome" where
  "thread_at s p = (case p of None \<Rightarrow> Fault | Some t \<Rightarrow> (case k_threads s t of None \<Rightarrow> Fault | Some r \<Rightarrow> Done r))"

definition change_thread :: "ptr \<Rightarrow> (thread \<Rightarrow> thread) \<Rightarrow> kstate \<Rightarrow> kstate outcome" where
  "change_thread p f s = (case p of None \<Rightarrow> Fault | Some t \<Rightarrow>
     (case k_threads s t of None \<Rightarrow> Fault | Some r \<Rightarrow> Done (s\<lparr>k_threads := (k_threads s)(t \<mapsto> f r)\<rparr>)))"

definition sleeping :: "thread \<Rightarrow> bool" where
  "sleeping r \<longleftrightarrow> th_status r AND THREAD_STATUS_SLEEPING \<noteq> 0"

definition current :: "nat \<Rightarrow> kstate \<Rightarrow> ptr" where
  "current c s = cpu_current (cpu_of s c)"

text \<open>
  \<open>sleep_wakeupReason\<close> in its two critical sections: the removal of the thread from the time queue,
  under the time lock, and the wakeup itself, under the lock of the sleep record.
\<close>

definition wakeup_untime :: "nat \<Rightarrow> wakeup_reason \<Rightarrow> kstate \<Rightarrow> kstate outcome" where
  "wakeup_untime t reason s =
     obind (thread_at s (Some t)) (\<lambda>r.
     if reason \<noteq> WAKEUP_TIME \<and> (sl_seconds r \<noteq> 0 \<or> sl_subseconds r \<noteq> 0)
     then Done (s\<lparr>k_time := filter (\<lambda>e. te_thread e \<noteq> Some t) (k_time s)\<rparr>) else Done s)"

definition wakeup_locked :: "nat \<Rightarrow> nat \<Rightarrow> wakeup_reason \<Rightarrow> kstate \<Rightarrow> (nat \<times> kstate) outcome" where
  "wakeup_locked c t reason s =
     obind (thread_at s (Some t)) (\<lambda>r.
     if reason = WAKEUP_SIGNAL \<and> \<not> sl_interruptible r then Done (1, s)
     else if \<not> sleeping r then Done (1, s)
     else
       obind (change_thread (Some t)
         (\<lambda>r. r\<lparr>sl_queue := None, th_status := th_status r AND NOT THREAD_STATUS_SLEEPING, sl_reason := reason\<rparr>) s) (\<lambda>s.
       obind (scheduler_insertThread c t s) (\<lambda>s. Done (0, s))))"

definition sleep_wakeupReason :: "nat \<Rightarrow> nat \<Rightarrow> wakeup_reason \<Rightarrow> kstate \<Rightarrow> (nat \<times> kstate) outcome" where
  "sleep_wakeupReason c t reason s = obind (wakeup_untime t reason s) (wakeup_locked c t reason)"

definition sleep_wakeup :: "nat \<Rightarrow> nat \<Rightarrow> kstate \<Rightarrow> (nat \<times> kstate) outcome" where
  "sleep_wakeup c t = sleep_wakeupReason c t WAKEUP_ANOTHER_THREAD"

text \<open>
  The timer: entries without a thread or of a thread that does not sleep are dropped, expired ones
  wake their thread. The result of the loop is the list of entries that stay.
\<close>

definition expired :: "u64 \<times> u64 \<Rightarrow> time_entry \<Rightarrow> bool" where
  "expired now e \<longleftrightarrow> fst now > te_seconds e \<or> fst now = te_seconds e \<and> snd now > te_subseconds e"

fun expire_loop :: "nat \<Rightarrow> u64 \<times> u64 \<Rightarrow> time_entry list \<Rightarrow> kstate \<Rightarrow> (time_entry list \<times> kstate) outcome" where
  "expire_loop c now [] s = Done ([], s)"
| "expire_loop c now (e # es) s =
     (case te_thread e of
        None \<Rightarrow> expire_loop c now es s
      | Some t \<Rightarrow>
          obind (thread_at s (Some t)) (\<lambda>r.
          if \<not> sleeping r then expire_loop c now es s
          else if Some t \<noteq> current c s \<and> expired now e
          then obind (sleep_wakeupReason c t WAKEUP_TIME s) (\<lambda>(_, s). expire_loop c now es s)
          else obind (expire_loop c now es s) (\<lambda>(kept, s). Done (e # kept, s))))"

definition sleep_callback :: "nat \<Rightarrow> bool \<Rightarrow> u64 \<times> u64 \<Rightarrow> kstate \<Rightarrow> kstate outcome" where
  "sleep_callback c time_lock_free now s =
     (if \<not> time_lock_free then Done s
      else obind (expire_loop c now (k_time s) s) (\<lambda>(kept, s). Done (s\<lparr>k_time := kept\<rparr>)))"

section \<open>Choosing and switching threads\<close>

definition scheduler_get :: "nat \<Rightarrow> bool \<Rightarrow> u64 \<times> u64 \<Rightarrow> kstate \<Rightarrow> (nat \<times> kstate) outcome" where
  "scheduler_get c time_lock_free now s =
     (if cpu_state (cpu_of s c) \<noteq> SCHEDULER_STATE_ACTIVE then Done (cpu_idle (cpu_of s c), s)
      else obind (sleep_callback c time_lock_free now s) (take_thread c))"

definition run_thread :: "nat \<Rightarrow> nat \<Rightarrow> kstate \<Rightarrow> kstate outcome" where
  "run_thread c t s =
     change_thread (Some t) (\<lambda>r. r\<lparr>th_status := th_status r OR THREAD_STATUS_RUNNING\<rparr>)
       (set_cpu c (\<lambda>p. p\<lparr>cpu_current := Some t\<rparr>) s)"

definition process_switchNextThread :: "nat \<Rightarrow> bool \<Rightarrow> u64 \<times> u64 \<Rightarrow> kstate \<Rightarrow> kstate outcome" where
  "process_switchNextThread c time_lock_free now s =
     obind (scheduler_get c time_lock_free now s) (\<lambda>(t, s). run_thread c t s)"

text \<open>A thread that exits is marked as stopped on the stack of the idle thread; it is in no queue.\<close>

definition thread_safeExit :: "ptr \<Rightarrow> nat \<Rightarrow> bool \<Rightarrow> u64 \<times> u64 \<Rightarrow> kstate \<Rightarrow> kstate outcome" where
  "thread_safeExit t c time_lock_free now s =
     obind (change_thread t
       (\<lambda>r. r\<lparr>th_status := (th_status r OR THREAD_STATUS_STOPPED) AND NOT THREAD_STATUS_STOPPING\<rparr>) s)
       (process_switchNextThread c time_lock_free now)"

definition thread_exit :: "nat \<Rightarrow> bool \<Rightarrow> u64 \<times> u64 \<Rightarrow> kstate \<Rightarrow> kstate outcome" where
  "thread_exit c time_lock_free now s = thread_safeExit (current c s) c time_lock_free now s"

text \<open>\<^verbatim>\<open>__unlock_thread\<close> of \<^verbatim>\<open>context.S\<close>, called on the stack of the next thread.\<close>

definition unlock_thread :: "nat \<Rightarrow> kstate \<Rightarrow> kstate outcome" where
  "unlock_thread t = change_thread (Some t) (\<lambda>r. if sleeping r then r\<lparr>sl_lock := False\<rparr> else r)"

definition process_yield :: "nat \<Rightarrow> bool \<Rightarrow> bool \<Rightarrow> u64 \<times> u64 \<Rightarrow> kstate \<Rightarrow> kstate outcome" where
  "process_yield c reschedule time_lock_free now s =
     (case current c s of
        None \<Rightarrow> process_switchNextThread c time_lock_free now s
      | Some prev \<Rightarrow>
          if prev = cpu_idle (cpu_of s c) then process_switchNextThread c time_lock_free now s else
          obind (thread_at s (Some prev)) (\<lambda>r.
          if th_status r AND THREAD_STATUS_STOPPING \<noteq> 0 then thread_exit c time_lock_free now s else
          obind (scheduler_get c time_lock_free now s) (\<lambda>(t, s).
          obind (run_thread c t s) (\<lambda>s.
          obind (thread_at s (Some prev)) (\<lambda>r.
          obind (if reschedule \<and> \<not> sleeping r then enqueue c prev s else Done s) (unlock_thread prev))))))"

section \<open>Going to sleep\<close>

definition prepare_sleep :: "bool \<Rightarrow> nat \<Rightarrow> kstate \<Rightarrow> kstate outcome" where
  "prepare_sleep interruptible c s =
     change_thread (current c s) (\<lambda>r. r\<lparr>sl_lock := True, sl_seconds := 0, sl_subseconds := 0, sl_queue := None,
       sl_interruptible := interruptible, th_status := th_status r OR THREAD_STATUS_SLEEPING\<rparr>) s"

definition sleep_prepare :: "nat \<Rightarrow> kstate \<Rightarrow> kstate outcome" where
  "sleep_prepare = prepare_sleep True"

definition sleep_prepareUninterruptible :: "nat \<Rightarrow> kstate \<Rightarrow> kstate outcome" where
  "sleep_prepareUninterruptible = prepare_sleep False"

definition sleep_time :: "nat \<Rightarrow> u64 \<Rightarrow> u64 \<Rightarrow> kstate \<Rightarrow> kstate outcome" where
  "sleep_time c seconds subseconds s =
     obind (sleep_prepare c s) (\<lambda>s.
     change_thread (current c s) (\<lambda>r. r\<lparr>sl_seconds := seconds, sl_subseconds := subseconds\<rparr>) s)"

text \<open>
  \<open>sleep_enter\<close> before and behind the switch to another thread: a timed sleeper enters the time queue
  at its end; when the thread runs again it reads why it was woken.
\<close>

definition enter_time_queue :: "nat \<Rightarrow> u64 \<times> u64 \<Rightarrow> kstate \<Rightarrow> kstate outcome" where
  "enter_time_queue c now s =
     obind (thread_at s (current c s)) (\<lambda>r.
     if sl_seconds r \<noteq> 0 \<or> sl_subseconds r \<noteq> 0
     then Done (s\<lparr>k_time := k_time s @ [\<lparr>te_thread = current c s, te_seconds = fst now + sl_seconds r,
       te_subseconds = snd now + sl_subseconds r\<rparr>]\<rparr>)
     else Done s)"

definition sleep_enter :: "nat \<Rightarrow> bool \<Rightarrow> u64 \<times> u64 \<Rightarrow> u64 \<times> u64 \<Rightarrow> kstate \<Rightarrow> kstate outcome" where
  "sleep_enter c time_lock_free now now' s =
     obind (enter_time_queue c now s) (process_yield c False time_lock_free now')"

definition sleep_enter_return :: "nat \<Rightarrow> bool \<Rightarrow> u64 \<times> u64 \<Rightarrow> kstate \<Rightarrow> (wakeup_reason option \<times> kstate) outcome" where
  "sleep_enter_return c time_lock_free now s =
     obind (change_thread (current c s) (\<lambda>r. r\<lparr>sl_seconds := 0, sl_subseconds := 0\<rparr>) s) (\<lambda>s.
     obind (thread_at s (current c s)) (\<lambda>r.
     if th_status r AND THREAD_STATUS_STOPPING \<noteq> 0
     then obind (thread_exit c time_lock_free now s) (\<lambda>s. Done (None, s))
     else Done (Some (sl_reason r), s)))"

definition sleep_exit :: "nat \<Rightarrow> kstate \<Rightarrow> kstate outcome" where
  "sleep_exit c s =
     change_thread (current c s)
       (\<lambda>r. r\<lparr>sl_queue := None, th_status := th_status r AND NOT THREAD_STATUS_SLEEPING, sl_lock := False\<rparr>) s"

section \<open>Sleep queues\<close>

text \<open>The last record of a chain of sleepers; on a circular chain the walk does not end.\<close>

partial_function (option) chain_last :: "kstate \<Rightarrow> nat \<Rightarrow> nat outcome option" where
  "chain_last s t =
     (case k_threads s t of None \<Rightarrow> Some Fault
      | Some r \<Rightarrow> (case sl_next r of None \<Rightarrow> Some (Done t) | Some u \<Rightarrow> chain_last s u))"

definition sleep_inQueue :: "nat \<Rightarrow> nat \<Rightarrow> kstate \<Rightarrow> kstate outcome option" where
  "sleep_inQueue c q s =
     (let cur = current c s in
      case change_thread cur (\<lambda>r. r\<lparr>sl_next := None, sl_thread := cur\<rparr>) s of
        Done s \<Rightarrow>
          (case (case k_queues s q of
                   Some t0 \<Rightarrow> (case chain_last s t0 of
                       None \<Rightarrow> None
                     | Some m \<Rightarrow> Some (obind m (\<lambda>l.
                         obind (change_thread (Some l) (\<lambda>r. r\<lparr>sl_next := cur\<rparr>) s)
                           (change_thread cur (\<lambda>r. r\<lparr>sl_prev := Some l\<rparr>)))))
                 | None \<Rightarrow> Some (change_thread cur (\<lambda>r. r\<lparr>sl_prev := None\<rparr>) (s\<lparr>k_queues := (k_queues s)(q := cur)\<rparr>))) of
             None \<Rightarrow> None
           | Some m \<Rightarrow> Some (obind m (\<lambda>s.
               obind (sleep_prepare c s) (change_thread cur (\<lambda>r. r\<lparr>sl_queue := Some q\<rparr>)))))
      | Panic \<Rightarrow> Some Panic
      | Fault \<Rightarrow> Some Fault)"

text \<open>Taking the first record off a chain.\<close>

definition unlink :: "nat \<Rightarrow> ptr \<Rightarrow> kstate \<Rightarrow> kstate outcome" where
  "unlink q nx s = (let s = s\<lparr>k_queues := (k_queues s)(q := nx)\<rparr> in
     case nx of None \<Rightarrow> Done s | Some u \<Rightarrow> change_thread (Some u) (\<lambda>r. r\<lparr>sl_prev := None\<rparr>) s)"

text \<open>
  The loop of \<open>sleep_wakeupQueue\<close> takes records from the head until it has woken as many threads as
  asked for (0 for all); \<open>awoken\<close> counts the records that still belong to the queue.
\<close>

partial_function (option) wakeup_loop :: "nat \<Rightarrow> nat \<Rightarrow> int \<Rightarrow> int \<Rightarrow> kstate \<Rightarrow> (int \<times> kstate) outcome option" where
  "wakeup_loop c q amounts awoken s =
     (case k_queues s q of
        None \<Rightarrow> Some (Done (awoken, s))
      | Some t \<Rightarrow>
          if amounts \<noteq> 0 \<and> awoken \<ge> amounts then Some (Done (awoken, s)) else
          (case thread_at s (Some t) of Fault \<Rightarrow> Some Fault | Panic \<Rightarrow> Some Panic | Done r \<Rightarrow>
          (case unlink q (sl_next r) s of Fault \<Rightarrow> Some Fault | Panic \<Rightarrow> Some Panic | Done s \<Rightarrow>
          (case thread_at s (Some t) of Fault \<Rightarrow> Some Fault | Panic \<Rightarrow> Some Panic | Done r \<Rightarrow>
           if sl_queue r = Some q
           then (case sl_thread r of None \<Rightarrow> Some Fault | Some u \<Rightarrow>
             (case sleep_wakeup c u s of Fault \<Rightarrow> Some Fault | Panic \<Rightarrow> Some Panic
              | Done (_, s) \<Rightarrow> wakeup_loop c q amounts (awoken + 1) s))
           else wakeup_loop c q amounts awoken s))))"

definition sleep_wakeupQueue :: "nat \<Rightarrow> nat \<Rightarrow> int \<Rightarrow> kstate \<Rightarrow> (int \<times> kstate) outcome option" where
  "sleep_wakeupQueue c q amounts s = wakeup_loop c q amounts 0 s"

definition sleep_createQueue :: "nat \<Rightarrow> kstate \<Rightarrow> kstate" where
  "sleep_createQueue q s = s\<lparr>k_queues := (k_queues s)(q := None)\<rparr>"

end
