(* ===== verification/Dispatch.thy ===== *)
theory Dispatch
  imports Sleep
begin

text \<open>
  The threads of the machine as a whole: processors that yield, threads that are created, prepare to
  sleep, sleep and are woken, in any order. The invariant says that a thread is at most once in the
  run queues and that no sleeping or running thread is in one of them; every step returns and keeps
  it. From it follows that a waiting thread gets a processor.
\<close>

section \<open>Steps\<close>

text \<open>\<open>thread_createStructure\<close>: a zeroed thread structure whose scheduler node refers to it.\<close>

definition zero_thread :: "u32 \<Rightarrow> thread" where
  "zero_thread status = \<lparr>th_status = status, sl_thread = None, sl_next = None, sl_prev = None, sl_lock = False,
     sl_reason = WAKEUP_SIGNAL, sl_seconds = 0, sl_subseconds = 0, sl_queue = None, sl_interruptible = False\<rparr>"

definition thread_createStructure :: "nat \<Rightarrow> u32 \<Rightarrow> kstate \<Rightarrow> kstate" where
  "thread_createStructure t status s =
     s\<lparr>k_threads := (k_threads s)(t \<mapsto> zero_thread status), k_nodes := (k_nodes s)(t \<mapsto> zeroed t)\<rparr>"

datatype kevent =
    Spawn nat nat
  | Yield nat bool bool "u64 \<times> u64"
  | Wake nat nat wakeup_reason
  | Prepare nat bool
  | SetTime nat u64 u64
  | EnterTime nat "u64 \<times> u64"
  | SleepExit nat

fun kstep :: "kevent \<Rightarrow> kstate \<Rightarrow> kstate outcome" where
  "kstep (Spawn c t) s = scheduler_insertThread c t (thread_createStructure t THREAD_STATUS_RUNNING s)"
| "kstep (Yield c reschedule lk now) s = process_yield c reschedule lk now s"
| "kstep (Wake c t reason) s = obind (sleep_wakeupReason c t reason s) (\<lambda>(_, s). Done s)"
| "kstep (Prepare c interruptible) s = prepare_sleep interruptible c s"
| "kstep (SetTime c seconds subseconds) s =
     change_thread (current c s) (\<lambda>r. r\<lparr>sl_seconds := seconds, sl_subseconds := subseconds\<rparr>) s"
| "kstep (EnterTime c now) s = enter_time_queue c now s"
| "kstep (SleepExit c) s = sleep_exit c s"

text \<open>
  When a step can be taken: the processor exists and runs a thread where the routine needs one, a new
  thread has a new address, and the lock of a sleep record that has to be taken is free. The idle
  thread does not sleep.
\<close>

definition lock_free :: "kstate \<Rightarrow> nat \<Rightarrow> bool" where
  "lock_free s t = (case k_threads s t of None \<Rightarrow> False | Some r \<Rightarrow> \<not> sl_lock r)"

definition runs_thread :: "nat \<Rightarrow> kstate \<Rightarrow> bool" where
  "runs_thread c s \<longleftrightarrow> c < length (k_cpus s) \<and> current c s \<noteq> None \<and> current c s \<noteq> Some (cpu_idle (cpu_of s c))"

fun enabled :: "kstate \<Rightarrow> kevent \<Rightarrow> bool" where
  "enabled s (Spawn c t) \<longleftrightarrow> c < length (k_cpus s) \<and> k_threads s t = None \<and> k_nodes s t = None \<and>
     card (dom (k_threads s)) + 1 < 2 ^ 64"
| "enabled s (Yield c reschedule lk now) \<longleftrightarrow> c < length (k_cpus s) \<and>
     (\<forall>e \<in> set (k_time s). te_thread e = None \<or> te_thread e = current c s \<or> lock_free s (the (te_thread e)))"
| "enabled s (Wake c t reason) \<longleftrightarrow> c < length (k_cpus s) \<and> lock_free s t"
| "enabled s (Prepare c interruptible) \<longleftrightarrow> runs_thread c s"
| "enabled s (SetTime c seconds subseconds) \<longleftrightarrow> runs_thread c s"
| "enabled s (EnterTime c now) \<longleftrightarrow> runs_thread c s"
| "enabled s (SleepExit c) \<longleftrightarrow> runs_thread c s"

fun ksteps :: "kevent list \<Rightarrow> kstate \<Rightarrow> kstate list outcome" where
  "ksteps [] s = Done []"
| "ksteps (ev # evs) s = obind (kstep ev s) (\<lambda>s. obind (ksteps evs s) (\<lambda>ss. Done (s # ss)))"

fun enabled_all :: "kevent list \<Rightarrow> kstate \<Rightarrow> bool" where
  "enabled_all [] s = True"
| "enabled_all (ev # evs) s = (enabled s ev \<and> (case kstep ev s of Done s' \<Rightarrow> enabled_all evs s' | _ \<Rightarrow> True))"

section \<open>The invariant\<close>

definition idle_of :: "kstate \<Rightarrow> nat \<Rightarrow> nat" where
  "idle_of s c = cpu_idle (cpu_of s c)"

definition running :: "kstate \<Rightarrow> nat \<Rightarrow> bool" where
  "running s t \<longleftrightarrow> (\<exists>c < length (k_cpus s). current c s = Some t)"

definition is_idle :: "kstate \<Rightarrow> nat \<Rightarrow> bool" where
  "is_idle s t \<longleftrightarrow> (\<exists>c < length (k_cpus s). idle_of s c = t)"

text \<open>What a thread structure may be, given where the thread is.\<close>

definition thread_ok :: "kstate \<Rightarrow> nat list list \<Rightarrow> nat \<Rightarrow> thread \<Rightarrow> bool" where
  "thread_ok s xss t r \<longleftrightarrow>
     (sleeping r \<longrightarrow> t \<notin> queued xss \<and> \<not> is_idle s t \<and> (sl_lock r \<or> \<not> running s t))"

definition kinv :: "kstate \<Rightarrow> nat list list \<Rightarrow> bool" where
  "kinv s xss \<longleftrightarrow>
     sched_ok s xss \<and> (\<forall>c < length (k_cpus s). active s c) \<and>
     (\<forall>t. running s t \<or> is_idle s t \<longrightarrow> k_threads s t \<noteq> None \<and> t \<notin> queued xss) \<and>
     (\<forall>c < length (k_cpus s). \<forall>d < length (k_cpus s). c \<noteq> d \<longrightarrow> current c s = current d s \<longrightarrow> current c s = None) \<and>
     (\<forall>c < length (k_cpus s). \<forall>d < length (k_cpus s). current c s = Some (idle_of s d) \<or> idle_of s c = idle_of s d \<longrightarrow> c = d) \<and>
     (\<forall>t r. k_threads s t = Some r \<longrightarrow> thread_ok s xss t r) \<and>
     (\<forall>e \<in> set (k_time s). \<forall>t. te_thread e = Some t \<longrightarrow> k_threads s t \<noteq> None)"


lemma sleeping_bit: "sleeping r \<longleftrightarrow> bit (th_status r) 3"
  using bit_mask_test [of "th_status r" 3] by (simp add: sleeping_def THREAD_STATUS_SLEEPING_def)

lemma kinv_D:
  assumes "kinv s xss"
  shows "sched_ok s xss" "c < length (k_cpus s) \<Longrightarrow> active s c"
    "running s t \<Longrightarrow> k_threads s t \<noteq> None \<and> t \<notin> queued xss" "is_idle s t \<Longrightarrow> k_threads s t \<noteq> None \<and> t \<notin> queued xss"
    "k_threads s t = Some r \<Longrightarrow> thread_ok s xss t r"
    "e \<in> set (k_time s) \<Longrightarrow> te_thread e = Some t \<Longrightarrow> k_threads s t \<noteq> None"
    "c < length (k_cpus s) \<Longrightarrow> d < length (k_cpus s) \<Longrightarrow> current c s = Some t \<Longrightarrow> current d s = Some t \<Longrightarrow> c = d"
    "c < length (k_cpus s) \<Longrightarrow> d < length (k_cpus s) \<Longrightarrow> current c s = Some (idle_of s d) \<Longrightarrow> c = d"
  using assms unfolding kinv_def by (blast, blast, blast, blast, blast, blast, metis option.distinct(1), blast)

text \<open>Where the threads are does not depend on the order of the run queues.\<close>

lemma same_places:
  assumes "same_but_queues s s'"
  shows "running s' = running s" "is_idle s' = is_idle s"
    "c < length (k_cpus s) \<Longrightarrow> current c s' = current c s" "c < length (k_cpus s) \<Longrightarrow> idle_of s' c = idle_of s c"
  using same_but_queues_cpu [OF assms] same_but_queues_length [OF assms]
  by (auto simp: running_def is_idle_def current_def idle_of_def fun_eq_iff)

lemma kinv_same:
  assumes k: "kinv s xss" and same: "same_but_queues s s'" and ok: "sched_ok s' xss'"
    and sub: "\<And>t. t \<in> queued xss' \<Longrightarrow> t \<notin> queued xss \<Longrightarrow>
      \<not> running s t \<and> \<not> is_idle s t \<and> (\<forall>r. k_threads s t = Some r \<longrightarrow> \<not> sleeping r)"
  shows "kinv s' xss'"
proof -
  have th: "k_threads s' = k_threads s" "k_time s' = k_time s" and len: "length (k_cpus s') = length (k_cpus s)"
    using same same_but_queues_length [OF same] by (simp_all add: same_but_queues_def)
  have q: "t \<notin> queued xss'" if "running s t \<or> is_idle s t" for t
    using sub [of t] that kinv_D(3,4) [OF k, of t] by blast
  have tok: "thread_ok s' xss' t r" if "k_threads s t = Some r" for t r
    using sub [of t] that kinv_D(5) [OF k that] by (auto simp: thread_ok_def same_places [OF same])
  show ?thesis
    unfolding kinv_def
  proof (intro conjI)
    show "sched_ok s' xss'" by (rule ok)
    show "\<forall>t. running s' t \<or> is_idle s' t \<longrightarrow> k_threads s' t \<noteq> None \<and> t \<notin> queued xss'"
      using q kinv_D(3,4) [OF k] by (simp add: same_places [OF same] th)
  qed (use k tok in \<open>auto simp: kinv_def same_places [OF same] same_active [OF same] th len\<close>)
qed

lemma kinv_change:
  assumes k: "kinv s xss" and r: "k_threads s t = Some r" and ok: "thread_ok s xss t r'"
  shows "kinv (s\<lparr>k_threads := (k_threads s)(t \<mapsto> r')\<rparr>) xss"
proof -
  let ?s = "s\<lparr>k_threads := (k_threads s)(t \<mapsto> r')\<rparr>"
  have eqs: "running ?s = running s" "is_idle ?s = is_idle s" "active ?s = active s" "current c ?s = current c s"
    "idle_of ?s c = idle_of s c" for c
    by (simp_all add: running_def is_idle_def active_def cpu_of_def current_def idle_of_def fun_eq_iff)
  have dom: "insert t (dom (k_threads s)) = dom (k_threads s)" using r by auto
  have "sched_ok ?s xss" using kinv_D(1) [OF k] r by (simp add: sched_ok_def dom)
  moreover have "\<forall>u r. k_threads ?s u = Some r \<longrightarrow> thread_ok ?s xss u r"
    using k ok by (auto simp: kinv_def thread_ok_def eqs)
  ultimately show ?thesis using k by (auto simp: kinv_def eqs)
qed

lemma kinv_time:
  assumes k: "kinv s xss" and e: "\<And>e t. e \<in> set es \<Longrightarrow> te_thread e = Some t \<Longrightarrow> k_threads s t \<noteq> None"
  shows "kinv (s\<lparr>k_time := es\<rparr>) xss"
proof -
  let ?s = "s\<lparr>k_time := es\<rparr>"
  have eqs: "running ?s = running s" "is_idle ?s = is_idle s" "active ?s = active s" "current c ?s = current c s"
    "idle_of ?s c = idle_of s c" "sched_ok ?s xss = sched_ok s xss" "thread_ok ?s xss = thread_ok s xss" for c
    by (simp_all add: running_def is_idle_def active_def cpu_of_def current_def idle_of_def fun_eq_iff sched_ok_def thread_ok_def)
  show ?thesis using k e by (simp add: kinv_def eqs)
qed

section \<open>Waking threads\<close>

text \<open>Run queues only grow at their ends, and no processor changes its thread and no lock its state.\<close>

definition grown :: "nat list list \<Rightarrow> nat list list \<Rightarrow> bool" where
  "grown xss xss' \<longleftrightarrow> length xss' = length xss \<and> (\<forall>c < length xss. \<exists>zs. xss' ! c = xss ! c @ zs)"

definition quiet :: "kstate \<Rightarrow> kstate \<Rightarrow> bool" where
  "quiet s s' \<longleftrightarrow> length (k_cpus s') = length (k_cpus s) \<and>
     (\<forall>c < length (k_cpus s). current c s' = current c s \<and> idle_of s' c = idle_of s c) \<and>
     (\<forall>u. map_option sl_lock (k_threads s' u) = map_option sl_lock (k_threads s u))"

lemma grown_refl [simp]: "grown xss xss"
  by (simp add: grown_def)

lemma grown_trans: "grown xss yss \<Longrightarrow> grown yss zss \<Longrightarrow> grown xss zss"
  unfolding grown_def by (metis append.assoc)

lemma grown_append: "c < length xss \<Longrightarrow> grown xss (xss[c := xss ! c @ ys])"
  by (auto simp: grown_def nth_list_update)

lemma quiet_refl [simp]: "quiet s s"
  by (simp add: quiet_def)

lemma quiet_trans: "quiet s s' \<Longrightarrow> quiet s' s'' \<Longrightarrow> quiet s s''"
  by (simp add: quiet_def)

lemma same_quiet: "same_but_queues s s' \<Longrightarrow> quiet s s'"
  by (simp add: quiet_def same_places same_but_queues_length) (simp add: same_but_queues_def)

lemma change_quiet:
  "k_threads s t = Some r \<Longrightarrow> sl_lock (f r) = sl_lock r \<Longrightarrow> quiet s (s\<lparr>k_threads := (k_threads s)(t \<mapsto> f r)\<rparr>)"
  by (simp add: quiet_def current_def idle_of_def cpu_of_def)

lemma quiet_lock_free: "quiet s s' \<Longrightarrow> lock_free s' t = lock_free s t"
proof -
  assume "quiet s s'"
  then have "map_option sl_lock (k_threads s' t) = map_option sl_lock (k_threads s t)" by (simp add: quiet_def)
  then show ?thesis by (auto simp: lock_free_def split: option.splits)
qed

lemma quiet_thread: "quiet s s' \<Longrightarrow> k_threads s' t = None \<longleftrightarrow> k_threads s t = None"
  unfolding quiet_def by (metis option.map_disc_iff)

lemma quiet_places: "quiet s s' \<Longrightarrow> running s' t = running s t" "quiet s s' \<Longrightarrow> is_idle s' t = is_idle s t"
  by (auto simp: quiet_def running_def is_idle_def)

lemma queued_append:
  "c < length xss \<Longrightarrow> queued (xss[c := xss ! c @ ys]) = queued xss \<union> set ys"
proof -
  assume c: "c < length xss"
  have "t \<in> queued (xss[c := xss ! c @ ys]) \<longleftrightarrow> t \<in> queued xss \<union> set ys" for t
  proof -
    have "t \<in> queued (xss[c := xss ! c @ ys]) \<longleftrightarrow> (\<exists>i < length xss. t \<in> set ((xss[c := xss ! c @ ys]) ! i))"
      unfolding queued_def UN_iff by (metis in_set_conv_nth length_list_update)
    also have "\<dots> \<longleftrightarrow> (\<exists>i < length xss. t \<in> set (xss ! i)) \<or> t \<in> set ys"
      using c by (auto simp: nth_list_update)
    also have "\<dots> \<longleftrightarrow> t \<in> queued xss \<union> set ys"
      unfolding queued_def UN_iff Un_iff by (metis in_set_conv_nth)
    finally show ?thesis .
  qed
  then show ?thesis by blast
qed

lemma kinv_enqueue:
  assumes k: "kinv s xss" and c: "c < length (k_cpus s)" and t: "k_threads s t = Some r" "\<not> sleeping r"
    and away: "t \<notin> queued xss" "\<not> running s t" "\<not> is_idle s t"
  shows "\<exists>s'. enqueue c t s = Done s' \<and> kinv s' (xss[c := xss ! c @ [t]]) \<and> same_but_queues s s'"
proof -
  have ok: "sched_ok s xss" by (rule kinv_D(1) [OF k])
  obtain s' where e: "enqueue c t s = Done s'" "sched_ok s' (xss[c := xss ! c @ [t]])" "same_but_queues s s'"
    using enqueue_effect [OF ok c away(1)] t by auto
  have "queued (xss[c := xss ! c @ [t]]) = queued xss \<union> {t}"
    using queued_append [of c xss "[t]"] c sched_length [OF ok] by simp
  then have "kinv s' (xss[c := xss ! c @ [t]])"
    using away t by (intro kinv_same [OF k e(3,2)]) auto
  with e show ?thesis by blast
qed

text \<open>A sleeping thread whose lock is free is appended to the run queue of the processor that wakes it.\<close>

definition woken :: "wakeup_reason \<Rightarrow> thread \<Rightarrow> thread" where
  "woken reason r = r\<lparr>sl_queue := None, th_status := th_status r AND NOT THREAD_STATUS_SLEEPING, sl_reason := reason\<rparr>"

lemma woken_sel [simp]: "\<not> sleeping (woken reason r)" "sl_lock (woken reason r) = sl_lock r" "sl_queue (woken reason r) = None"
  "sl_next (woken reason r) = sl_next r" "sl_thread (woken reason r) = sl_thread r"
  by (simp_all add: woken_def sleeping_bit THREAD_STATUS_SLEEPING_def bit_simps)

lemma wakeup_locked_wakes:
  assumes k: "kinv s xss" and c: "c < length (k_cpus s)" and r: "k_threads s t = Some r" "\<not> sl_lock r" "sleeping r"
    and i: "reason \<noteq> WAKEUP_SIGNAL \<or> sl_interruptible r"
  shows "\<exists>s'. wakeup_locked c t reason s = Done (0, s') \<and> kinv s' (xss[c := xss ! c @ [t]]) \<and>
    same_but_queues (s\<lparr>k_threads := (k_threads s)(t \<mapsto> woken reason r)\<rparr>) s'"
proof -
  define s1 where "s1 = s\<lparr>k_threads := (k_threads s)(t \<mapsto> woken reason r)\<rparr>"
  have k1: "kinv s1 xss" unfolding s1_def by (intro kinv_change [OF k r(1)]) (simp add: thread_ok_def)
  have q1: "quiet s s1" unfolding s1_def by (rule change_quiet [where f = "woken reason", OF r(1)]) simp
  have away: "t \<notin> queued xss" "\<not> running s t" "\<not> is_idle s t"
    using kinv_D(5) [OF k r(1)] r(2,3) by (auto simp: thread_ok_def)
  have c1: "c < length (k_cpus s1)" using c by (simp add: s1_def)
  obtain s2 where s2: "enqueue c t s1 = Done s2" "kinv s2 (xss[c := xss ! c @ [t]])" "same_but_queues s1 s2"
    using kinv_enqueue [OF k1 c1, of t "woken reason r"] away quiet_places [OF q1] by (auto simp: s1_def)
  have "cpu_state (cpu_of s1 c) = SCHEDULER_STATE_ACTIVE" using kinv_D(2) [OF k1 c1] by (simp add: active_def)
  then have "wakeup_locked c t reason s = Done (0, s2)"
    using r i s2(1) by (auto simp: wakeup_locked_def thread_at_def change_thread_def scheduler_insertThread_def
        s1_def woken_def simp del: obind_eq_Done)
  with s2 show ?thesis by (auto simp: s1_def)
qed

lemma wakeup_locked_effect:
  assumes k: "kinv s xss" and c: "c < length (k_cpus s)" and l: "lock_free s t"
  shows "\<exists>n s' xss'. wakeup_locked c t reason s = Done (n, s') \<and> kinv s' xss' \<and> grown xss xss' \<and> quiet s s' \<and> k_time s' = k_time s"
proof -
  obtain r where r: "k_threads s t = Some r" "\<not> sl_lock r" using l by (auto simp: lock_free_def split: option.splits)
  show ?thesis
  proof (cases "(reason = WAKEUP_SIGNAL \<and> \<not> sl_interruptible r) \<or> \<not> sleeping r")
    case True
    then have "wakeup_locked c t reason s = Done (1, s)"
      using r by (auto simp: wakeup_locked_def thread_at_def simp del: obind_eq_Done)
    with k show ?thesis by (metis grown_refl quiet_refl)
  next
    case False
    then obtain s' where w: "wakeup_locked c t reason s = Done (0, s')" "kinv s' (xss[c := xss ! c @ [t]])"
      "same_but_queues (s\<lparr>k_threads := (k_threads s)(t \<mapsto> woken reason r)\<rparr>) s'"
      using wakeup_locked_wakes [OF k c r, of reason] by auto
    have "quiet s (s\<lparr>k_threads := (k_threads s)(t \<mapsto> woken reason r)\<rparr>)"
      by (rule change_quiet [where f = "woken reason", OF r(1)]) simp
    then have "quiet s s'" using same_quiet [OF w(3)] by (rule quiet_trans)
    moreover have "k_time s' = k_time s" using w(3) by (simp add: same_but_queues_def)
    ultimately show ?thesis
      using w(1,2) grown_append [of c xss "[t]"] c sched_length [OF kinv_D(1) [OF k]] by auto
  qed
qed

lemma sleep_wakeupReason_effect:
  assumes k: "kinv s xss" and c: "c < length (k_cpus s)" and l: "lock_free s t"
  shows "\<exists>n s' xss'. sleep_wakeupReason c t reason s = Done (n, s') \<and> kinv s' xss' \<and> grown xss xss' \<and> quiet s s' \<and>
    set (k_time s') \<subseteq> set (k_time s)"
proof -
  obtain r where r: "k_threads s t = Some r" using l by (auto simp: lock_free_def split: option.splits)
  define es where "es = (if reason \<noteq> WAKEUP_TIME \<and> (sl_seconds r \<noteq> 0 \<or> sl_subseconds r \<noteq> 0)
    then filter (\<lambda>e. te_thread e \<noteq> Some t) (k_time s) else k_time s)"
  define s1 where "s1 = s\<lparr>k_time := es\<rparr>"
  have sub: "set es \<subseteq> set (k_time s)" by (auto simp: es_def)
  have u: "wakeup_untime t reason s = Done s1"
    using r by (simp add: wakeup_untime_def thread_at_def s1_def es_def)
  have k1: "kinv s1 xss" unfolding s1_def using sub kinv_D(6) [OF k] by (intro kinv_time [OF k]) blast
  have q1: "quiet s s1" by (simp add: s1_def quiet_def current_def idle_of_def cpu_of_def)
  from wakeup_locked_effect [OF k1, of c t reason] c l obtain n s2 xss' where
    w: "wakeup_locked c t reason s1 = Done (n, s2)" "kinv s2 xss'" "grown xss xss'" "quiet s1 s2" "k_time s2 = k_time s1"
    using quiet_lock_free [OF q1] by (auto simp: s1_def)
  with u sub q1 show ?thesis
    by (intro exI [of _ n] exI [of _ s2] exI [of _ xss'])
      (auto simp: sleep_wakeupReason_def s1_def intro: quiet_trans simp del: obind_eq_Done)
qed

definition entries_free :: "kstate \<Rightarrow> nat \<Rightarrow> time_entry list \<Rightarrow> bool" where
  "entries_free s c es \<longleftrightarrow> (\<forall>e \<in> set es. \<forall>t. te_thread e = Some t \<longrightarrow>
     k_threads s t \<noteq> None \<and> (Some t = current c s \<or> lock_free s t))"

lemma expire_loop_effect:
  assumes "kinv s xss" "c < length (k_cpus s)" "entries_free s c es"
  shows "\<exists>kept s' xss'. expire_loop c now es s = Done (kept, s') \<and> kinv s' xss' \<and> grown xss xss' \<and> quiet s s' \<and> set kept \<subseteq> set es"
  using assms
proof (induction es arbitrary: s xss)
  case Nil
  then show ?case by (auto intro!: exI [of _ xss])
next
  case (Cons e es)
  have rest: "entries_free s c es" using Cons.prems(3) by (simp add: entries_free_def)
  obtain kept s' xss' where go: "expire_loop c now es s = Done (kept, s')" "kinv s' xss'" "grown xss xss'" "quiet s s'" "set kept \<subseteq> set es"
    using Cons.IH [OF Cons.prems(1,2) rest] by blast
  show ?case
  proof (cases "te_thread e")
    case None
    with go show ?thesis by (intro exI [of _ kept] exI [of _ s'] exI [of _ xss']) auto
  next
    case (Some t)
    with Cons.prems(3) obtain r where r: "k_threads s t = Some r" by (auto simp: entries_free_def)
    consider "\<not> sleeping r" | "sleeping r" "\<not> (Some t \<noteq> current c s \<and> expired now e)" | "sleeping r" "Some t \<noteq> current c s" "expired now e" by blast
    then show ?thesis
    proof cases
      case 1
      with go r Some show ?thesis
        by (intro exI [of _ kept] exI [of _ s'] exI [of _ xss']) (auto simp: thread_at_def simp del: obind_eq_Done)
    next
      case 2
      with go r Some show ?thesis
        by (intro exI [of _ "e # kept"] exI [of _ s'] exI [of _ xss']) (auto simp: thread_at_def simp del: obind_eq_Done)
    next
      case 3
      then have "lock_free s t" using Cons.prems(3) Some by (auto simp: entries_free_def)
      then obtain n s1 yss where w: "sleep_wakeupReason c t WAKEUP_TIME s = Done (n, s1)" "kinv s1 yss" "grown xss yss" "quiet s s1"
        using sleep_wakeupReason_effect [OF Cons.prems(1,2)] by blast
      have "c < length (k_cpus s1)" using Cons.prems(2) w(4) by (simp add: quiet_def)
      moreover have "entries_free s1 c es"
        using rest Cons.prems(2) w(4) quiet_thread [OF w(4)] quiet_lock_free [OF w(4)] by (simp add: quiet_def entries_free_def)
      ultimately obtain kept s2 xss2 where g: "expire_loop c now es s1 = Done (kept, s2)" "kinv s2 xss2" "grown yss xss2" "quiet s1 s2" "set kept \<subseteq> set es"
        using Cons.IH [OF w(2)] by blast
      with w r Some 3 show ?thesis
        by (intro exI [of _ kept] exI [of _ s2] exI [of _ xss2])
          (auto simp: thread_at_def simp del: obind_eq_Done intro: quiet_trans grown_trans)
    qed
  qed
qed

lemma sleep_callback_effect:
  assumes k: "kinv s xss" and e: "enabled s (Yield c b lk now)"
  shows "\<exists>s' xss'. sleep_callback c lk now s = Done s' \<and> kinv s' xss' \<and> grown xss xss' \<and> quiet s s'"
proof (cases lk)
  case False
  with k show ?thesis by (auto simp: sleep_callback_def intro!: exI [of _ xss])
next
  case True
  have c: "c < length (k_cpus s)" using e by simp
  have "entries_free s c (k_time s)"
    unfolding entries_free_def using e kinv_D(6) [OF k] by (metis enabled.simps(2) option.distinct(1) option.sel)
  then obtain kept s1 xss' where g: "expire_loop c now (k_time s) s = Done (kept, s1)" "kinv s1 xss'" "grown xss xss'" "quiet s s1"
    "set kept \<subseteq> set (k_time s)"
    using expire_loop_effect [OF k c] by blast
  have "kinv (s1\<lparr>k_time := kept\<rparr>) xss'"
    using g(5) kinv_D(6) [OF k] quiet_thread [OF g(4)] by (intro kinv_time [OF g(2)]) blast
  moreover have "quiet s1 (s1\<lparr>k_time := kept\<rparr>)" by (simp add: quiet_def current_def idle_of_def cpu_of_def)
  ultimately show ?thesis using True g
    by (intro exI [of _ "s1\<lparr>k_time := kept\<rparr>"] exI [of _ xss'])
      (auto simp: sleep_callback_def simp del: obind_eq_Done intro: quiet_trans)
qed

section \<open>Choosing the next thread\<close>

text \<open>The thread \<open>t\<close> is taken from the head of queue \<open>v\<close>, or it is the idle thread of \<open>c\<close>.\<close>

definition chosen :: "kstate \<Rightarrow> nat \<Rightarrow> nat list list \<Rightarrow> nat \<Rightarrow> nat list list \<Rightarrow> bool" where
  "chosen s c xss t xss' \<longleftrightarrow>
     (\<exists>v < length (k_cpus s). xss ! v = t # tl (xss ! v) \<and> xss' = xss[v := tl (xss ! v)] \<and> (v = c \<or> xss ! c = [])) \<or>
     (t = idle_of s c \<and> xss' = xss \<and> (\<forall>v < length (k_cpus s). xss ! v = []))"

lemma queued_tl: "queued (xss[v := tl (xss ! v)]) \<subseteq> queued xss"
proof (cases "v < length xss")
  case True
  have "set (tl (xss ! v)) \<subseteq> set (xss ! v)" by (cases "xss ! v") auto
  then show ?thesis
    using True set_update_subset_insert [of xss v "tl (xss ! v)"] unfolding queued_def by (fastforce dest: nth_mem)
qed (simp add: list_update_beyond)

lemma scheduler_get_effect:
  assumes k: "kinv s xss" and e: "enabled s (Yield c b lk now)"
  shows "\<exists>t s' xss1 xss'. scheduler_get c lk now s = Done (t, s') \<and> kinv s' xss' \<and> quiet s s' \<and> grown xss xss1 \<and>
    chosen s c xss1 t xss' \<and> t \<notin> queued xss' \<and> (\<exists>r. k_threads s' t = Some r \<and> \<not> sleeping r) \<and>
    (t = idle_of s c \<or> \<not> is_idle s t \<and> \<not> running s t)"
proof -
  have c: "c < length (k_cpus s)" using e by simp
  obtain s1 xss1 where cb: "sleep_callback c lk now s = Done s1" "kinv s1 xss1" "grown xss xss1" and q1: "quiet s s1"
    using sleep_callback_effect [OF k e] by blast
  have c1: "c < length (k_cpus s1)" and len: "length (k_cpus s1) = length (k_cpus s)" using c q1 by (simp_all add: quiet_def)
  have ok1: "sched_ok s1 xss1" by (rule kinv_D(1) [OF cb(2)])
  obtain t s2 xss2 where t: "take_thread c s1 = Done (t, s2)" "sched_ok s2 xss2" and same: "same_but_queues s1 s2"
    and origin: "(\<exists>v. taken_from s1 c xss1 v t xss2) \<or> all_empty s1 c xss1 \<and> t = cpu_idle (cpu_of s1 c) \<and> xss2 = xss1"
    using take_thread_effect [OF ok1 c1] by blast
  have idle: "cpu_idle (cpu_of s1 c) = idle_of s c" using q1 c by (auto simp: quiet_def idle_of_def)
  have sub: "queued xss2 \<subseteq> queued xss1" using origin queued_tl by (auto simp: taken_from_def)
  have k2: "kinv s2 xss2" using sub by (intro kinv_same [OF cb(2) same t(2)]) blast
  have th: "k_threads s2 = k_threads s1" using same by (simp add: same_but_queues_def)
  have run: "scheduler_get c lk now s = Done (t, s2)"
    using cb(1) t(1) kinv_D(2) [OF k c] by (simp add: scheduler_get_def active_def del: obind_eq_Done)
  have q: "quiet s s2" using q1 same_quiet [OF same] by (rule quiet_trans)
  from origin show ?thesis
  proof (elim disjE exE conjE)
    fix v assume v: "taken_from s1 c xss1 v t xss2"
    then have vl: "v < length (k_cpus s1)" and hd: "xss1 ! v = t # tl (xss1 ! v)" and x2: "xss2 = xss1[v := tl (xss1 ! v)]"
      by (simp_all add: taken_from_def)
    have tq: "t \<in> queued xss1" using hd vl queued_iff [OF ok1] by (metis list.set_intros(1))
    have "t \<notin> set (xss2 ! w)" if w: "w < length (k_cpus s1)" for w
    proof (cases "w = v")
      case True
      then show ?thesis using sched_queue(3) [OF ok1 vl] hd x2 w sched_length [OF ok1] by (metis distinct.simps(2) nth_list_update_eq)
    next
      case False
      have "t \<in> set (xss1 ! v)" using hd by (metis list.set_intros(1))
      moreover have "set (xss1 ! w) \<inter> set (xss1 ! v) = {}"
        using ok1 w vl False by (simp add: sched_ok_def queues_ok_def)
      ultimately show ?thesis using False x2 by auto
    qed
    then have notq: "t \<notin> queued xss2" using queued_iff [OF t(2)] same_but_queues_length [OF same] by auto
    obtain r where r: "k_threads s1 t = Some r"
      using ok1 vl hd unfolding sched_ok_def by (metis list.set_intros(1) not_None_eq)
    have ns: "\<not> sleeping r" using kinv_D(5) [OF cb(2) r] tq by (auto simp: thread_ok_def)
    have away: "\<not> is_idle s t" "\<not> running s t"
      using kinv_D(3,4) [OF cb(2), of t] tq quiet_places [OF q1, of t] by blast+
    have "chosen s c xss1 t xss2" using v len by (auto simp: chosen_def taken_from_def)
    with run k2 q cb(3) notq r ns away th show ?thesis by fastforce
  next
    assume em: "all_empty s1 c xss1" "t = cpu_idle (cpu_of s1 c)" "xss2 = xss1"
    have all: "\<forall>v < length (k_cpus s). xss1 ! v = []" using em(1) kinv_D(2) [OF cb(2)] len by (auto simp: all_empty_def)
    have ti: "t = idle_of s c" "is_idle s1 t" using em(2) idle c1 by (auto simp: is_idle_def idle_of_def)
    then obtain r where r: "k_threads s1 t = Some r" using kinv_D(4) [OF cb(2)] by blast
    have ns: "\<not> sleeping r" using kinv_D(5) [OF cb(2) r] ti(2) by (auto simp: thread_ok_def)
    have "t \<notin> queued xss2" using kinv_D(4) [OF cb(2) ti(2)] em(3) by simp
    moreover have "chosen s c xss1 t xss2" using ti(1) em(3) all by (simp add: chosen_def)
    ultimately show ?thesis using run k2 q cb(3) r ns th ti(1) by fastforce
  qed
qed

section \<open>Switching\<close>

text \<open>Putting a thread that waits nowhere on processor \<open>c\<close>.\<close>

lemma run_thread_effect:
  assumes k: "kinv s xss" and c: "c < length (k_cpus s)" and t: "k_threads s t = Some r" "\<not> sleeping r" "t \<notin> queued xss"
    and away: "t = idle_of s c \<or> \<not> is_idle s t \<and> \<not> running s t"
  shows "\<exists>s'. run_thread c t s = Done s' \<and> kinv s' xss \<and> length (k_cpus s') = length (k_cpus s) \<and> current c s' = Some t \<and>
    (\<forall>d. d \<noteq> c \<longrightarrow> current d s' = current d s) \<and> (\<forall>d. idle_of s' d = idle_of s d) \<and>
    (\<forall>u. u \<noteq> t \<longrightarrow> k_threads s' u = k_threads s u)"
proof -
  define s1 where "s1 = set_cpu c (\<lambda>p. p\<lparr>cpu_current := Some t\<rparr>) s"
  have cur: "current d s1 = (if d = c then Some t else current d s)" for d
    using c by (auto simp: s1_def set_cpu_def current_def cpu_of_def nth_list_update)
  have idle: "idle_of s1 d = idle_of s d" for d
    using c by (cases "d = c") (auto simp: s1_def set_cpu_def idle_of_def cpu_of_def)
  have q: "map cpu_queue (k_cpus s1) = map cpu_queue (k_cpus s)"
    using c by (simp add: s1_def set_cpu_def cpu_of_def map_update list_update_same_conv)
  have len: "length (k_cpus s1) = length (k_cpus s)" and th: "k_threads s1 = k_threads s" "k_nodes s1 = k_nodes s" "k_time s1 = k_time s"
    by (simp_all add: s1_def set_cpu_def)
  have act: "active s1 d = active s d" for d
    using c by (cases "d = c") (auto simp: s1_def set_cpu_def active_def cpu_of_def)
  have ok: "sched_ok s1 xss" using kinv_D(1) [OF k] by (simp add: sched_ok_def q th len)
  have ii: "is_idle s1 u = is_idle s u" for u by (simp add: is_idle_def len idle)
  have run: "running s1 u \<Longrightarrow> u = t \<or> running s u" for u by (auto simp: running_def len cur split: if_splits)
  have elsewhere: "current d s \<noteq> Some t" if "d < length (k_cpus s)" "d \<noteq> c" for d
    using away that k c by (auto simp: running_def kinv_def)
  have only: "c = d" if "d < length (k_cpus s)" "t = idle_of s d" for d
  proof -
    from away show ?thesis
    proof
      assume "t = idle_of s c"
      with that k c show ?thesis by (simp add: kinv_def)
    next
      assume "\<not> is_idle s t \<and> \<not> running s t"
      with that show ?thesis by (auto simp: is_idle_def)
    qed
  qed
  have k1: "kinv s1 xss"
    unfolding kinv_def
  proof (intro conjI allI impI)
    show "thread_ok s1 xss u x" if "k_threads s1 u = Some x" for u x
      using kinv_D(5) [OF k, of u x] that t run [of u] by (auto simp: thread_ok_def th ii)
    show "k_threads s1 u \<noteq> None" "u \<notin> queued xss" if "running s1 u \<or> is_idle s1 u" for u
      using that run [of u] t kinv_D(3,4) [OF k, of u] by (auto simp: ii th)
    show "current d s1 = None" if "d < length (k_cpus s1)" "e < length (k_cpus s1)" "d \<noteq> e" "current d s1 = current e s1" for d e
      using that elsewhere k by (auto simp: cur len kinv_def split: if_splits)
    show "d = e" if "d < length (k_cpus s1)" "e < length (k_cpus s1)" "current d s1 = Some (idle_of s1 e) \<or> idle_of s1 d = idle_of s1 e" for d e
      using that only k by (auto simp: cur len idle kinv_def split: if_splits)
  qed (use ok k kinv_D(2,6) [OF k] in \<open>auto simp: act len th kinv_def\<close>)
  have r1: "k_threads s1 t = Some r" using t by (simp add: th)
  define f :: "thread \<Rightarrow> thread" where "f = (\<lambda>r. r\<lparr>th_status := th_status r OR THREAD_STATUS_RUNNING\<rparr>)"
  define s2 where "s2 = s1\<lparr>k_threads := (k_threads s1)(t \<mapsto> f r)\<rparr>"
  have "\<not> sleeping (f r)" using t(2) by (simp add: sleeping_bit f_def THREAD_STATUS_RUNNING_def bit_simps)
  then have "kinv s2 xss" unfolding s2_def by (intro kinv_change [OF k1 r1]) (simp add: thread_ok_def)
  moreover have "run_thread c t s = Done s2"
    using r1 by (simp add: run_thread_def change_thread_def s1_def [symmetric] s2_def f_def)
  moreover have "current d s2 = current d s1" "idle_of s2 d = idle_of s1 d" for d
    by (simp_all add: s2_def current_def idle_of_def cpu_of_def)
  ultimately show ?thesis by (intro exI [of _ s2]) (simp add: s2_def len cur idle th)
qed

text \<open>
  How far the queues have moved: a waiting thread has got a processor, or it is no further from the
  head of its queue than before, and one place nearer if the processor of the queue has switched.
\<close>

definition moved :: "kstate \<Rightarrow> nat set \<Rightarrow> nat list list \<Rightarrow> nat list list \<Rightarrow> bool" where
  "moved s' Y xss xss' \<longleftrightarrow> (\<forall>c us t vs. c < length xss \<and> xss ! c = us @ t # vs \<longrightarrow>
     running s' t \<or> (\<exists>us' vs'. xss' ! c = us' @ t # vs' \<and> length us' + (if c \<in> Y then 1 else 0) \<le> length us))"

lemma grown_moved: "grown xss xss' \<Longrightarrow> moved s' {} xss xss'"
  by (fastforce simp: grown_def moved_def)

lemma chosen_moved:
  assumes g: "grown xss xss1" and ch: "chosen s c xss1 t xss2" and g2: "grown xss2 xss3" and run: "running s' t"
    and len: "length xss = length (k_cpus s)"
  shows "moved s' {c} xss xss3"
  unfolding moved_def
proof (intro allI impI)
  fix d us u vs assume d: "d < length xss \<and> xss ! d = us @ u # vs"
  then obtain zs where x1: "xss1 ! d = us @ u # zs" using g unfolding grown_def by fastforce
  from ch consider (taken) v where "v < length (k_cpus s)" "xss1 ! v = t # tl (xss1 ! v)" "xss2 = xss1[v := tl (xss1 ! v)]"
      "v = c \<or> xss1 ! c = []"
    | (none) "\<forall>v < length (k_cpus s). xss1 ! v = []"
    unfolding chosen_def by blast
  then show "running s' u \<or> (\<exists>us' vs'. xss3 ! d = us' @ u # vs' \<and> length us' + (if d \<in> {c} then 1 else 0) \<le> length us)"
  proof cases
    case v: taken
    have l1: "length xss1 = length (k_cpus s)" using g len by (simp add: grown_def)
    have ext: "\<exists>vs'. xss3 ! d = us' @ u # vs'" if "xss2 ! d = us' @ u # vs''" for us' vs''
      using g2 that d l1 v(3) len unfolding grown_def by fastforce
    show ?thesis
    proof (cases "d = v")
      case True
      show ?thesis
      proof (cases us)
        case Nil
        with x1 v(2) True run show ?thesis by (metis append_Nil list.inject)
      next
        case (Cons x us')
        then have "xss2 ! d = us' @ u # zs" using x1 v(3) True v(1) l1 by simp
        then obtain vs' where "xss3 ! d = us' @ u # vs'" using ext by blast
        with Cons show ?thesis by (intro disjI2 exI [of _ us'] exI [of _ vs']) simp
      qed
    next
      case False
      then have "d \<noteq> c" using v(4) x1 by auto
      have "xss2 ! d = us @ u # zs" using x1 v(3) False by simp
      then obtain vs' where "xss3 ! d = us @ u # vs'" using ext by blast
      with \<open>d \<noteq> c\<close> show ?thesis by (intro disjI2 exI [of _ us] exI [of _ vs']) simp
    qed
  next
    case none
    with x1 d len show ?thesis by auto
  qed
qed

lemma switchNextThread_effect:
  assumes k: "kinv s xss" and e: "enabled s (Yield c b lk now)"
  shows "\<exists>s' xss'. process_switchNextThread c lk now s = Done s' \<and> kinv s' xss' \<and> moved s' {c} xss xss' \<and>
    length (k_cpus s') = length (k_cpus s)"
proof -
  have c: "c < length (k_cpus s)" using e by simp
  obtain t s1 xss1 xss2 r where g: "scheduler_get c lk now s = Done (t, s1)" "kinv s1 xss2" "grown xss xss1" "chosen s c xss1 t xss2"
    and q: "quiet s s1" and t: "t \<notin> queued xss2" "k_threads s1 t = Some r" "\<not> sleeping r"
    "t = idle_of s c \<or> \<not> is_idle s t \<and> \<not> running s t"
    using scheduler_get_effect [OF k e] by blast
  have c1: "c < length (k_cpus s1)" using q c by (simp add: quiet_def)
  have "t = idle_of s1 c \<or> \<not> is_idle s1 t \<and> \<not> running s1 t"
    using t(4) q c quiet_places [OF q] by (simp add: quiet_def)
  then obtain s2 where s2: "run_thread c t s1 = Done s2" "kinv s2 xss2" "length (k_cpus s2) = length (k_cpus s1)" "current c s2 = Some t"
    using run_thread_effect [OF g(2) c1 t(2,3,1)] by blast
  have "running s2 t" using s2(3,4) c1 by (auto simp: running_def)
  then have "moved s2 {c} xss xss2"
    using chosen_moved [OF g(3,4) grown_refl] sched_length [OF kinv_D(1) [OF k]] by simp
  with g(1) s2 q show ?thesis by (auto simp: process_switchNextThread_def quiet_def simp del: obind_eq_Done)
qed

lemma thread_exit_effect:
  assumes k: "kinv s xss" and e: "enabled s (Yield c b lk now)" and t: "current c s = Some t"
  shows "\<exists>s' xss'. thread_exit c lk now s = Done s' \<and> kinv s' xss' \<and> moved s' {c} xss xss' \<and>
    length (k_cpus s') = length (k_cpus s)"
proof -
  have "running s t" using e t by (auto simp: running_def)
  then obtain r where r: "k_threads s t = Some r" using kinv_D(3) [OF k] by blast
  define f :: "thread \<Rightarrow> thread" where
    "f = (\<lambda>r. r\<lparr>th_status := (th_status r OR THREAD_STATUS_STOPPED) AND NOT THREAD_STATUS_STOPPING\<rparr>)"
  define s1 where "s1 = s\<lparr>k_threads := (k_threads s)(t \<mapsto> f r)\<rparr>"
  have fr: "sleeping (f r) = sleeping r" "sl_lock (f r) = sl_lock r"
    by (simp_all add: sleeping_bit f_def THREAD_STATUS_STOPPED_def THREAD_STATUS_STOPPING_def bit_simps)
  have k1: "kinv s1 xss" unfolding s1_def
    using kinv_D(5) [OF k r] fr by (intro kinv_change [OF k r]) (simp add: thread_ok_def)
  have q: "quiet s s1" unfolding s1_def by (rule change_quiet [where f = f, OF r fr(2)])
  have e1: "enabled s1 (Yield c b lk now)"
    using e q quiet_lock_free [OF q] by (simp add: quiet_def) (simp add: s1_def)
  have "thread_exit c lk now s = process_switchNextThread c lk now s1"
    using t r by (simp add: thread_exit_def thread_safeExit_def change_thread_def s1_def f_def del: obind_eq_Done)
  with switchNextThread_effect [OF k1 e1] show ?thesis by (simp add: s1_def)
qed

text \<open>The thread that has been switched away from: back into the queue, or its sleep lock released.\<close>

lemma requeue_effect:
  assumes k: "kinv s xss" and c: "c < length (k_cpus s)" and y: "k_threads s prev = Some y"
    and away: "prev \<notin> queued xss" "\<not> running s prev" "\<not> is_idle s prev"
  shows "\<exists>s' xss'. obind (if b \<and> \<not> sleeping y then enqueue c prev s else Done s) (unlock_thread prev) = Done s' \<and>
    kinv s' xss' \<and> grown xss xss' \<and> length (k_cpus s') = length (k_cpus s) \<and> running s' = running s"
proof -
  have "\<exists>s1 xss1. (if b \<and> \<not> sleeping y then enqueue c prev s else Done s) = Done s1 \<and> kinv s1 xss1 \<and> grown xss xss1 \<and> same_but_queues s s1"
  proof (cases "b \<and> \<not> sleeping y")
    case True
    have "c < length xss" using sched_length [OF kinv_D(1) [OF k]] c by simp
    then have "grown xss (xss[c := xss ! c @ [prev]])" by (rule grown_append)
    with True kinv_enqueue [OF k c y _ away] show ?thesis by auto
  next
    case False
    with k show ?thesis by (auto intro!: exI [of _ xss] simp: same_but_queues_def)
  qed
  then obtain s1 xss1 where s1: "(if b \<and> \<not> sleeping y then enqueue c prev s else Done s) = Done s1" "kinv s1 xss1"
    "grown xss xss1" "same_but_queues s s1" by blast
  have y1: "k_threads s1 prev = Some y" using s1(4) y by (simp add: same_but_queues_def)
  define f where "f = (\<lambda>r. if sleeping r then r\<lparr>sl_lock := False\<rparr> else r)"
  define s2 where "s2 = s1\<lparr>k_threads := (k_threads s1)(prev \<mapsto> f y)\<rparr>"
  have "thread_ok s1 xss1 prev (f y)"
    using kinv_D(5) [OF s1(2) y1] away(2) same_places [OF s1(4)] by (auto simp: thread_ok_def f_def sleeping_def)
  then have "kinv s2 xss1" unfolding s2_def by (rule kinv_change [OF s1(2) y1])
  moreover have "obind (if b \<and> \<not> sleeping y then enqueue c prev s else Done s) (unlock_thread prev) = Done s2"
    unfolding s1(1) using y1 by (simp add: unlock_thread_def change_thread_def s2_def f_def)
  moreover have "running s2 = running s1" by (simp add: running_def s2_def current_def cpu_of_def fun_eq_iff)
  ultimately show ?thesis
    using s1(3) same_places(1) [OF s1(4)] same_but_queues_length [OF s1(4)] by (intro exI [of _ s2] exI [of _ xss1]) (simp add: s2_def)
qed

lemma process_yield_effect:
  assumes k: "kinv s xss" and e: "enabled s (Yield c b lk now)"
  shows "\<exists>s' xss'. process_yield c b lk now s = Done s' \<and> kinv s' xss' \<and> moved s' {c} xss xss' \<and>
    length (k_cpus s') = length (k_cpus s)"
proof -
  have c: "c < length (k_cpus s)" using e by simp
  show ?thesis
  proof (cases "current c s = None \<or> current c s = Some (idle_of s c)")
    case True
    then have "process_yield c b lk now s = process_switchNextThread c lk now s"
      by (auto simp: process_yield_def idle_of_def)
    with switchNextThread_effect [OF k e] show ?thesis by simp
  next
    case False
    then obtain prev where prev: "current c s = Some prev" "prev \<noteq> idle_of s c" by auto
    have run: "running s prev" using prev c by (auto simp: running_def)
    then obtain r where r: "k_threads s prev = Some r" using kinv_D(3) [OF k] by blast
    have noidle: "\<not> is_idle s prev" using kinv_D(8) [OF k c] prev unfolding is_idle_def by blast
    have alone: "current d s \<noteq> Some prev" if "d < length (k_cpus s)" "d \<noteq> c" for d
      using kinv_D(7) [OF k c that(1) prev(1)] that(2) by blast
    show ?thesis
    proof (cases "th_status r AND THREAD_STATUS_STOPPING \<noteq> 0")
      case True
      then have "process_yield c b lk now s = thread_exit c lk now s"
        using prev r by (simp add: process_yield_def idle_of_def thread_at_def del: obind_eq_Done)
      with thread_exit_effect [OF k e prev(1)] show ?thesis by simp
    next
      case False
      obtain t s1 xss1 xss2 x where g: "scheduler_get c lk now s = Done (t, s1)" "kinv s1 xss2" "grown xss xss1" "chosen s c xss1 t xss2"
        and q: "quiet s s1" and t: "t \<notin> queued xss2" "k_threads s1 t = Some x" "\<not> sleeping x"
        "t = idle_of s c \<or> \<not> is_idle s t \<and> \<not> running s t"
        using scheduler_get_effect [OF k e] by blast
      have c1: "c < length (k_cpus s1)" and len1: "length (k_cpus s1) = length (k_cpus s)" using q c by (simp_all add: quiet_def)
      have tp: "t \<noteq> prev" using t(4) prev(2) run by auto
      have "t = idle_of s1 c \<or> \<not> is_idle s1 t \<and> \<not> running s1 t"
        using t(4) q c quiet_places [OF q] by (simp add: quiet_def)
      then obtain s2 where s2: "run_thread c t s1 = Done s2" "kinv s2 xss2" "length (k_cpus s2) = length (k_cpus s1)" "current c s2 = Some t"
        "\<forall>d. d \<noteq> c \<longrightarrow> current d s2 = current d s1" "\<forall>d. idle_of s2 d = idle_of s1 d" "\<forall>u. u \<noteq> t \<longrightarrow> k_threads s2 u = k_threads s1 u"
        using run_thread_effect [OF g(2) c1 t(2,3,1)] by blast
      have len2: "length (k_cpus s2) = length (k_cpus s)" using s2(3) len1 by simp
      have away: "prev \<notin> queued xss2" "\<not> running s2 prev" "\<not> is_idle s2 prev"
        using kinv_D(3) [OF g(2), of prev] run quiet_places [OF q, of prev] noidle s2(4,5,6) tp alone q len2
        unfolding running_def is_idle_def quiet_def by (metis option.inject)+
      have "k_threads s1 prev \<noteq> None" using r quiet_thread [OF q, of prev] by simp
      then obtain y where y: "k_threads s2 prev = Some y" using s2(7) tp by force
      have "running s2 t" using s2(3,4) c1 by (auto simp: running_def)
      moreover obtain s3 xss3 where s3: "obind (if b \<and> \<not> sleeping y then enqueue c prev s2 else Done s2) (unlock_thread prev) = Done s3"
        "kinv s3 xss3" "grown xss2 xss3" "length (k_cpus s3) = length (k_cpus s2)" "running s3 = running s2"
        using requeue_effect [OF s2(2) _ y away] c len2 by metis
      ultimately have "moved s3 {c} xss xss3" using chosen_moved [OF g(3,4) s3(3)] sched_length [OF kinv_D(1) [OF k]] by simp
      moreover have "process_yield c b lk now s = Done s3"
        using prev r False g(1) s2(1) y s3(1) by (simp add: process_yield_def idle_of_def thread_at_def del: obind_eq_Done)
      ultimately show ?thesis using s3(2,4) len2 by auto
    qed
  qed
qed

section \<open>Every step\<close>

lemma spawn_effect:
  assumes k: "kinv s xss" and e: "enabled s (Spawn c t)"
  shows "\<exists>s' xss'. kstep (Spawn c t) s = Done s' \<and> kinv s' xss' \<and> grown xss xss' \<and> length (k_cpus s') = length (k_cpus s)"
proof -
  have new: "c < length (k_cpus s)" "k_threads s t = None" "k_nodes s t = None" "card (dom (k_threads s)) + 1 < 2 ^ 64" using e by simp_all
  define s1 where "s1 = thread_createStructure t THREAD_STATUS_RUNNING s"
  have ok: "sched_ok s xss" by (rule kinv_D(1) [OF k])
  have nq: "t \<notin> queued xss"
    using ok new(2) queued_iff [OF ok, of t] unfolding sched_ok_def by blast
  have eqs: "running s1 = running s" "is_idle s1 = is_idle s" "active s1 = active s" "current d s1 = current d s"
    "idle_of s1 d = idle_of s d" "k_cpus s1 = k_cpus s" "k_time s1 = k_time s" for d
    by (simp_all add: s1_def thread_createStructure_def running_def is_idle_def active_def cpu_of_def current_def idle_of_def fun_eq_iff)
  have "queues_ok list_ok (map cpu_queue (k_cpus s)) (k_nodes s1) xss"
  proof -
    have "list_ok d (cpu_queue (k_cpus s ! d)) (k_nodes s1) (xss ! d)" if d: "d < length (k_cpus s)" for d
    proof (rule list_ok_frame)
      show "list_ok d (cpu_queue (k_cpus s ! d)) (k_nodes s) (xss ! d)" using ok d by (auto simp: sched_ok_def queues_ok_def)
      show "k_nodes s1 b = k_nodes s b" if "b \<in> set (xss ! d)" for b
        using nq that queued_iff [OF ok, of t] d by (auto simp: s1_def thread_createStructure_def)
    qed
    with ok show ?thesis by (simp add: sched_ok_def queues_ok_def)
  qed
  moreover have "finite (dom (k_threads s1)) \<and> card (dom (k_threads s1)) < 2 ^ 64"
    using ok new(2,4) by (simp add: sched_ok_def s1_def thread_createStructure_def card_insert_if)
  ultimately have ok1: "sched_ok s1 xss"
    using ok by (auto simp: sched_ok_def eqs s1_def thread_createStructure_def node_values_def zeroed_def)
  have ns: "\<not> sleeping (zero_thread THREAD_STATUS_RUNNING)"
    by (simp add: sleeping_bit zero_thread_def THREAD_STATUS_RUNNING_def bit_simps)
  have th: "k_threads s1 u = (if u = t then Some (zero_thread THREAD_STATUS_RUNNING) else k_threads s u)" for u
    by (simp add: s1_def thread_createStructure_def)
  have k1: "kinv s1 xss"
    unfolding kinv_def
  proof (intro conjI allI impI)
    show "thread_ok s1 xss u x" if "k_threads s1 u = Some x" for u x
      using that kinv_D(5) [OF k, of u x] ns by (auto simp: th thread_ok_def eqs split: if_splits)
    show "k_threads s1 u \<noteq> None" "u \<notin> queued xss" if "running s1 u \<or> is_idle s1 u" for u
      using that kinv_D(3,4) [OF k, of u] by (auto simp: eqs th)
  qed (use ok1 k in \<open>auto simp: eqs th kinv_def\<close>)
  have away: "\<not> running s1 t" "\<not> is_idle s1 t" using kinv_D(3,4) [OF k, of t] new(2) by (auto simp: eqs)
  obtain s2 where s2: "enqueue c t s1 = Done s2" "kinv s2 (xss[c := xss ! c @ [t]])" "same_but_queues s1 s2"
    using kinv_enqueue [OF k1 _ _ ns nq away, of c] new(1) by (auto simp: th eqs)
  have "cpu_state (cpu_of s1 c) = SCHEDULER_STATE_ACTIVE" using kinv_D(2) [OF k1, of c] new(1) by (simp add: active_def cpu_of_def eqs)
  then have "kstep (Spawn c t) s = Done s2" using s2(1) by (simp add: scheduler_insertThread_def s1_def [symmetric])
  moreover have "grown xss (xss[c := xss ! c @ [t]])" using new(1) sched_length [OF ok] by (intro grown_append) simp
  ultimately show ?thesis using s2 same_but_queues_length [OF s2(3)] by (auto simp: eqs)
qed

text \<open>A step of the thread that runs on \<open>c\<close> on its own structure.\<close>

lemma own_change_effect:
  assumes k: "kinv s xss" and e: "runs_thread c s"
    and f: "\<And>r. sleeping (f r) \<Longrightarrow> sl_lock (f r) \<or> sleeping r \<and> sl_lock (f r) = sl_lock r"
  shows "\<exists>s'. change_thread (current c s) f s = Done s' \<and> kinv s' xss \<and> length (k_cpus s') = length (k_cpus s)"
proof -
  obtain t where t: "current c s = Some t" "t \<noteq> idle_of s c" "c < length (k_cpus s)"
    using e by (auto simp: runs_thread_def idle_of_def)
  have run: "running s t" using t by (auto simp: running_def)
  then obtain r where r: "k_threads s t = Some r" "t \<notin> queued xss" using kinv_D(3) [OF k] by blast
  have "\<not> is_idle s t" using kinv_D(8) [OF k t(3)] t(1,2) unfolding is_idle_def by blast
  then have "thread_ok s xss t (f r)" using f [of r] r(2) kinv_D(5) [OF k r(1)] by (auto simp: thread_ok_def)
  then have "kinv (s\<lparr>k_threads := (k_threads s)(t \<mapsto> f r)\<rparr>) xss" by (rule kinv_change [OF k r(1)])
  then show ?thesis using t r by (simp add: change_thread_def)
qed

fun switches :: "nat \<Rightarrow> kevent \<Rightarrow> bool" where
  "switches c (Yield d b lk now) = (d = c)"
| "switches c ev = False"

lemma enter_time_effect:
  assumes k: "kinv s xss" and e: "runs_thread c s"
  shows "\<exists>s'. enter_time_queue c now s = Done s' \<and> kinv s' xss \<and> length (k_cpus s') = length (k_cpus s)"
proof -
  obtain t where t: "current c s = Some t" "c < length (k_cpus s)" using e by (auto simp: runs_thread_def)
  then obtain r where r: "k_threads s t = Some r" using kinv_D(3) [OF k, of t] by (auto simp: running_def)
  have "kinv (s\<lparr>k_time := k_time s @ [\<lparr>te_thread = Some t, te_seconds = a, te_subseconds = b\<rparr>]\<rparr>) xss" for a b
    using kinv_D(6) [OF k] r by (intro kinv_time [OF k]) auto
  with k t r show ?thesis by (auto simp: enter_time_queue_def thread_at_def simp del: obind_eq_Done)
qed

lemma kstep_effect:
  assumes k: "kinv s xss" and e: "enabled s ev"
  shows "\<exists>s' xss'. kstep ev s = Done s' \<and> kinv s' xss' \<and> moved s' {c. switches c ev} xss xss' \<and> length (k_cpus s') = length (k_cpus s)"
proof -
  have stay: "\<exists>s' xss'. kstep ev s = Done s' \<and> kinv s' xss' \<and> moved s' {c. switches c ev} xss xss' \<and> length (k_cpus s') = length (k_cpus s)"
    if "kstep ev s = Done s'" "kinv s' xss'" "grown xss xss'" "{c. switches c ev} = {}" "length (k_cpus s') = length (k_cpus s)" for s' xss'
    using that grown_moved [OF that(3)] by auto
  show ?thesis
  proof (cases ev)
    case (Spawn c t)
    then obtain s' xss' where "kstep (Spawn c t) s = Done s'" "kinv s' xss'" "grown xss xss'" "length (k_cpus s') = length (k_cpus s)"
      using spawn_effect [OF k, of c t] e by blast
    then show ?thesis using Spawn by (intro stay [of s' xss']) simp_all
  next
    case (Yield c b lk now)
    then have "{d. switches d ev} = {c}" by auto
    with Yield process_yield_effect [OF k, of c b lk now] e show ?thesis by auto
  next
    case (Wake c t reason)
    obtain n s' xss' where w: "sleep_wakeupReason c t reason s = Done (n, s')" "kinv s' xss'" "grown xss xss'" "quiet s s'"
      using sleep_wakeupReason_effect [OF k, of c t reason] e Wake by auto
    show ?thesis by (rule stay [of s' xss']) (use w Wake in \<open>auto simp: quiet_def\<close>)
  next
    case (Prepare c i)
    have "\<exists>s'. prepare_sleep i c s = Done s' \<and> kinv s' xss \<and> length (k_cpus s') = length (k_cpus s)"
      unfolding prepare_sleep_def using e Prepare by (intro own_change_effect [OF k]) auto
    then obtain s' where "kstep ev s = Done s'" "kinv s' xss" "length (k_cpus s') = length (k_cpus s)" using Prepare by auto
    then show ?thesis using Prepare by (intro stay [of s' xss]) simp_all
  next
    case (SetTime c a b)
    have "\<exists>s'. kstep (SetTime c a b) s = Done s' \<and> kinv s' xss \<and> length (k_cpus s') = length (k_cpus s)"
      unfolding kstep.simps using e SetTime by (intro own_change_effect [OF k]) (auto simp: sleeping_def)
    then obtain s' where "kstep ev s = Done s'" "kinv s' xss" "length (k_cpus s') = length (k_cpus s)" using SetTime by auto
    then show ?thesis using SetTime by (intro stay [of s' xss]) simp_all
  next
    case (EnterTime c now)
    then obtain s' where "kstep ev s = Done s'" "kinv s' xss" "length (k_cpus s') = length (k_cpus s)"
      using enter_time_effect [OF k, of c now] e by auto
    then show ?thesis using EnterTime by (intro stay [of s' xss]) simp_all
  next
    case (SleepExit c)
    have "\<exists>s'. sleep_exit c s = Done s' \<and> kinv s' xss \<and> length (k_cpus s') = length (k_cpus s)"
      unfolding sleep_exit_def using e SleepExit
      by (intro own_change_effect [OF k]) (auto simp: sleeping_bit THREAD_STATUS_SLEEPING_def bit_simps)
    then obtain s' where "kstep ev s = Done s'" "kinv s' xss" "length (k_cpus s') = length (k_cpus s)" using SleepExit by auto
    then show ?thesis using SleepExit by (intro stay [of s' xss]) simp_all
  qed
qed

lemma ksteps_kinv:
  "kinv s xss \<Longrightarrow> enabled_all evs s \<Longrightarrow>
   \<exists>ss. ksteps evs s = Done ss \<and> (\<forall>s' \<in> set ss. \<exists>xss'. kinv s' xss')"
proof (induction evs arbitrary: s xss)
  case Nil
  then show ?case by simp
next
  case (Cons ev evs)
  then obtain s1 xss1 where "kstep ev s = Done s1" "kinv s1 xss1" using kstep_effect [of s xss ev] by auto
  with Cons show ?case by fastforce
qed

lemma ksteps_reach:
  "kinv s xss \<Longrightarrow> enabled_all evs s \<Longrightarrow> c < length (k_cpus s) \<Longrightarrow> xss ! c = us @ t # vs \<Longrightarrow>
   length us < length (filter (switches c) evs) \<Longrightarrow> \<exists>ss. ksteps evs s = Done ss \<and> (\<exists>s' \<in> set ss. running s' t)"
proof (induction evs arbitrary: s xss us vs)
  case Nil
  then show ?case by simp
next
  case (Cons ev evs)
  have en: "enabled s ev" using Cons.prems(2) by simp
  obtain s1 xss1 where s1: "kstep ev s = Done s1" "kinv s1 xss1" "moved s1 {c. switches c ev} xss xss1"
    "length (k_cpus s1) = length (k_cpus s)"
    using kstep_effect [OF Cons.prems(1) en] by blast
  have en1: "enabled_all evs s1" using Cons.prems(2) s1(1) by simp
  have "c < length xss" using Cons.prems(3) sched_length [OF kinv_D(1) [OF Cons.prems(1)]] by simp
  then have "running s1 t \<or> (\<exists>us' vs'. xss1 ! c = us' @ t # vs' \<and> length us' + (if c \<in> {c. switches c ev} then 1 else 0) \<le> length us)"
    using s1(3) Cons.prems(4) unfolding moved_def by blast
  then consider (now) "running s1 t"
    | (later) us' vs' where "xss1 ! c = us' @ t # vs'" "length us' + (if switches c ev then 1 else 0) \<le> length us"
    unfolding mem_Collect_eq by blast
  then show ?case
  proof cases
    case now
    with s1(1) ksteps_kinv [OF s1(2) en1] show ?thesis by auto
  next
    case later
    have "length us' < length (filter (switches c) evs)" using later(2) Cons.prems(5) by (auto split: if_splits)
    with Cons.IH [OF s1(2) en1 _ later(1)] Cons.prems(3) s1(1,4) show ?thesis by auto
  qed
qed

section \<open>Properties\<close>

text \<open>The machine after the schedulers of \<open>n\<close> processors have been initialised, each with its idle thread.\<close>

definition boot :: "nat \<Rightarrow> kstate" where
  "boot n = fold scheduler_initCPU [0..<n]
     \<lparr>k_threads = (\<lambda>t. if t < n then Some (zero_thread 0) else None),
      k_nodes = (\<lambda>t. if t < n then Some (zeroed t) else None),
      k_cpus = map (\<lambda>c. \<lparr>cpu_state = SCHEDULER_STATE_INACTIVE, cpu_queue = list_create, cpu_current = None, cpu_idle = c\<rparr>) [0..<n],
      k_time = [], k_queues = (\<lambda>_. None)\<rparr>"

lemma fold_initCPU:
  "m \<le> n \<Longrightarrow> fold scheduler_initCPU [0..<m]
     (s\<lparr>k_cpus := map (\<lambda>c. \<lparr>cpu_state = i, cpu_queue = q, cpu_current = None, cpu_idle = c\<rparr>) [0..<n]\<rparr>) =
   s\<lparr>k_cpus := map (\<lambda>c. \<lparr>cpu_state = (if c < m then SCHEDULER_STATE_ACTIVE else i),
     cpu_queue = (if c < m then list_create else q), cpu_current = None, cpu_idle = c\<rparr>) [0..<n]\<rparr>"
proof (induction m)
  case 0
  then show ?case by simp
next
  case (Suc m)
  let ?p = "\<lambda>m c. \<lparr>cpu_state = (if c < m then SCHEDULER_STATE_ACTIVE else i), cpu_queue = (if c < m then list_create else q),
    cpu_current = None, cpu_idle = c\<rparr>"
  have "(map (?p m) [0..<n])[m := ?p (Suc m) m] = map (?p (Suc m)) [0..<n]"
    using Suc.prems by (intro nth_equalityI) (auto simp: nth_list_update)
  with Suc show ?case by (simp add: scheduler_initCPU_def set_cpu_def cpu_of_def)
qed

lemma boot_eq:
  "boot n = \<lparr>k_threads = (\<lambda>t. if t < n then Some (zero_thread 0) else None),
     k_nodes = (\<lambda>t. if t < n then Some (zeroed t) else None),
     k_cpus = map (\<lambda>c. \<lparr>cpu_state = SCHEDULER_STATE_ACTIVE, cpu_queue = list_create, cpu_current = None, cpu_idle = c\<rparr>) [0..<n],
     k_time = [], k_queues = (\<lambda>_. None)\<rparr>"
proof -
  define s where "s = \<lparr>k_threads = (\<lambda>t. if t < n then Some (zero_thread 0) else None),
    k_nodes = (\<lambda>t. if t < n then Some (zeroed t) else None), k_cpus = [], k_time = [], k_queues = (\<lambda>_. None)\<rparr>"
  show ?thesis
    using fold_initCPU [where m = n and n = n and s = s and i = SCHEDULER_STATE_INACTIVE and q = list_create] by (simp add: boot_def s_def)
qed

lemma boot_kinv:
  assumes n: "n < 2 ^ 64"
  shows "kinv (boot n) (replicate n [])"
proof -
  have d: "dom (\<lambda>t. if t < n then Some (zero_thread 0) else None) = {0..<n}" by (auto split: if_splits)
  have q: "queued (replicate n []) = {}" by (auto simp: queued_def)
  have ns: "\<not> sleeping (zero_thread 0)" by (simp add: sleeping_def zero_thread_def)
  have "sched_ok (boot n) (replicate n [])"
    using n by (simp add: sched_ok_def queues_ok_def boot_eq d list_ok_def list_create_def shape_def node_values_def zeroed_def)
  with q ns show ?thesis
    by (auto simp: kinv_def boot_eq active_def running_def is_idle_def current_def idle_of_def cpu_of_def thread_ok_def split: if_splits)
qed



text \<open>
  C5. A thread that waits behind \<open>k\<close> others in the queue of a processor runs, on this or another
  processor, by the time this processor has switched \<open>k + 1\<close> times, whatever else happens in between.
\<close>

theorem waiting_thread_runs:
  assumes "kinv s xss" "enabled_all evs s" "c < length (k_cpus s)" "xss ! c = us @ t # vs"
    "length us < length (filter (switches c) evs)"
  shows "\<exists>ss. ksteps evs s = Done ss \<and> (\<exists>s' \<in> set ss. running s' t)"
  using assms by (rule ksteps_reach)

definition two_waiting :: kstate where
  "two_waiting =
     \<lparr>k_threads = [0 \<mapsto> zero_thread 0, 5 \<mapsto> zero_thread THREAD_STATUS_RUNNING, 6 \<mapsto> zero_thread THREAD_STATUS_RUNNING],
      k_nodes = [0 \<mapsto> zeroed 0, 5 \<mapsto> \<lparr>node_next = Some 6, node_prev = None, node_value = 5, node_owner = Some 0\<rparr>,
        6 \<mapsto> \<lparr>node_next = None, node_prev = Some 5, node_value = 6, node_owner = Some 0\<rparr>],
      k_cpus = [\<lparr>cpu_state = SCHEDULER_STATE_ACTIVE, cpu_queue = shape [5, 6], cpu_current = Some 0, cpu_idle = 0\<rparr>],
      k_time = [], k_queues = (\<lambda>_. None)\<rparr>"

theorem waiting_thread_runs_witness:
  "\<exists>ss. ksteps [Yield 0 True True (1, 0), Yield 0 True True (2, 0)] two_waiting = Done ss \<and> (\<exists>s' \<in> set ss. running s' 6)"
proof (rule waiting_thread_runs [where xss = "[[5, 6]]" and c = 0 and us = "[5]" and vs = "[]"])
  have "sched_ok two_waiting [[5, 6]]"
    by (auto simp: sched_ok_def queues_ok_def two_waiting_def list_ok_def node_values_def zeroed_def)
  moreover have "\<not> sleeping (zero_thread 0)" "\<not> sleeping (zero_thread THREAD_STATUS_RUNNING)"
    by (simp_all add: sleeping_def zero_thread_def THREAD_STATUS_RUNNING_def THREAD_STATUS_SLEEPING_def)
  ultimately show "kinv two_waiting [[5, 6]]"
    by (auto simp: kinv_def two_waiting_def active_def running_def is_idle_def current_def idle_of_def cpu_of_def thread_ok_def
        queued_def split: if_splits)
  show "enabled_all [Yield 0 True True (1, 0), Yield 0 True True (2, 0)] two_waiting"
    by (simp add: two_waiting_def process_yield_def process_switchNextThread_def scheduler_get_def sleep_callback_def
        take_thread_def dequeue_def list_popleft_def list_delete_def node_at_def change_node_def shape_def cpu_of_def set_cpu_def
        current_def thread_of_node_def run_thread_def change_thread_def Let_def split: outcome.split)
qed (simp_all add: two_waiting_def)

end
