(* ===== verification/Sleep_Queue.thy ===== *)
theory Sleep_Queue
  imports Dispatch
begin

text \<open>
  The sleep queues of \<^verbatim>\<open>sleep.c\<close>, on which mutexes and read/write semaphores are built: a chain of
  sleep records that is extended at its end and woken from its head. The chain is well formed for a
  sequence of threads when the links run through exactly this sequence.
\<close>

section \<open>Chains\<close>

definition link_of :: "kstate \<Rightarrow> nat \<Rightarrow> (ptr \<times> ptr) option" where
  "link_of s t = map_option (\<lambda>r. (sl_next r, sl_thread r)) (k_threads s t)"

fun links :: "kstate \<Rightarrow> nat list \<Rightarrow> bool" where
  "links s [] = True"
| "links s (t # ts) = (link_of s t = Some (first ts None, Some t) \<and> links s ts)"

definition chain :: "kstate \<Rightarrow> nat \<Rightarrow> nat list \<Rightarrow> bool" where
  "chain s q xs \<longleftrightarrow> k_queues s q = first xs None \<and> distinct xs \<and> links s xs"

text \<open>A record in the chain still waits when the thread has not been woken by something else.\<close>

definition waits :: "kstate \<Rightarrow> nat \<Rightarrow> nat \<Rightarrow> bool" where
  "waits s q t = (case k_threads s t of None \<Rightarrow> False | Some r \<Rightarrow> sl_queue r = Some q)"

text \<open>The first \<open>n\<close> waiting threads of a sequence, and the rest of the sequence.\<close>

fun first_waiting :: "(nat \<Rightarrow> bool) \<Rightarrow> nat \<Rightarrow> nat list \<Rightarrow> nat list \<times> nat list" where
  "first_waiting w n [] = ([], [])"
| "first_waiting w n (t # ts) =
     (if n = 0 then ([], t # ts)
      else if w t then (case first_waiting w (n - 1) ts of (ws, rest) \<Rightarrow> (t # ws, rest))
      else first_waiting w n ts)"

lemma links_cong: "(\<And>t. t \<in> set xs \<Longrightarrow> link_of s' t = link_of s t) \<Longrightarrow> links s' xs = links s xs"
  by (induction xs) auto

lemma links_mapped: "links s xs \<Longrightarrow> t \<in> set xs \<Longrightarrow> \<exists>r. k_threads s t = Some r \<and> sl_thread r = Some t"
  by (induction xs) (auto simp: link_of_def)

lemma chain_last_links: "links s (t # ts) \<Longrightarrow> chain_last s t = Some (Done (last (t # ts)))"
  by (induction ts arbitrary: t) (subst chain_last.simps, auto simp: link_of_def)+

lemma links_snoc:
  "links s xs \<Longrightarrow> link_of s' t = Some (None, Some t) \<Longrightarrow> (\<And>u. u \<in> set (butlast xs) \<Longrightarrow> link_of s' u = link_of s u) \<Longrightarrow>
   (xs \<noteq> [] \<Longrightarrow> link_of s' (last xs) = Some (Some t, Some (last xs))) \<Longrightarrow> links s' (xs @ [t])"
proof (induction xs)
  case (Cons u us)
  then show ?case by (cases us) auto
qed simp

lemma change_thread_eq: "k_threads s t = Some r \<Longrightarrow> change_thread (Some t) f s = Done (s\<lparr>k_threads := (k_threads s)(t \<mapsto> f r)\<rparr>)"
  by (simp add: change_thread_def)

lemma thread_at_eq: "k_threads s t = Some r \<Longrightarrow> thread_at s (Some t) = Done r"
  by (simp add: thread_at_def)

lemma current_update [simp]:
  "current c (s\<lparr>k_threads := x\<rparr>) = current c s" "current c (s\<lparr>k_queues := y\<rparr>) = current c s" "current c (s\<lparr>k_time := z\<rparr>) = current c s"
  by (simp_all add: current_def cpu_of_def)

lemmas thread_steps = change_thread_eq thread_at_eq

section \<open>Going to sleep in a queue\<close>

text \<open>The sleep record of a thread that waits in queue \<open>q\<close>.\<close>

definition waiting_record :: "nat \<Rightarrow> nat \<Rightarrow> thread \<Rightarrow> bool" where
  "waiting_record q t r \<longleftrightarrow> sleeping r \<and> sl_lock r \<and> sl_queue r = Some q \<and> sl_thread r = Some t \<and> sl_next r = None"

lemma sleep_inQueue_effect:
  assumes ch: "chain s q xs" and t: "current c s = Some t" "t \<notin> set xs" "k_threads s t = Some r"
  shows "\<exists>s' r'. sleep_inQueue c q s = Some (Done s') \<and> chain s' q (xs @ [t]) \<and> k_threads s' t = Some r' \<and> waiting_record q t r' \<and>
    (\<forall>u. u \<noteq> t \<longrightarrow> u \<notin> set xs \<longrightarrow> k_threads s' u = k_threads s u) \<and>
    (\<forall>u. u \<noteq> t \<longrightarrow> waits s' q u = waits s q u) \<and> (\<forall>p. p \<noteq> q \<longrightarrow> k_queues s' p = k_queues s p)"
proof -
  define r1 where "r1 = r\<lparr>sl_next := None, sl_thread := Some t\<rparr>"
  define r2 where "r2 p = r1\<lparr>sl_prev := p, sl_lock := True, sl_seconds := 0, sl_subseconds := 0,
    sl_interruptible := True, th_status := th_status r OR THREAD_STATUS_SLEEPING, sl_queue := Some q\<rparr>" for p
  have w: "waiting_record q t (r2 p)" for p
    by (simp add: waiting_record_def r2_def r1_def sleeping_bit THREAD_STATUS_SLEEPING_def bit_simps)
  show ?thesis
  proof (cases xs)
    case Nil
    then have "k_queues s q = None" using ch by (simp add: chain_def)
    then have "sleep_inQueue c q s = Some (Done (s\<lparr>k_queues := (k_queues s)(q := Some t), k_threads := (k_threads s)(t \<mapsto> r2 None)\<rparr>))"
      using t by (simp add: sleep_inQueue_def thread_steps Let_def sleep_prepare_def prepare_sleep_def r2_def r1_def del: obind_eq_Done)
    with Nil w show ?thesis by (auto simp: chain_def link_of_def r2_def r1_def waits_def)
  next
    case (Cons a as)
    define l where "l = last xs"
    have lx: "l \<in> set xs" "l \<noteq> t" using Cons t(2) by (auto simp: l_def)
    then obtain rl where rl: "k_threads s l = Some rl" "sl_thread rl = Some l" using links_mapped [of s xs l] ch by (auto simp: chain_def)
    define s1 where "s1 = s\<lparr>k_threads := (k_threads s)(t \<mapsto> r1)\<rparr>"
    have "links s1 xs = links s xs" using t(2) by (intro links_cong) (auto simp: s1_def link_of_def)
    then have last: "chain_last s1 a = Some (Done l)" using ch Cons chain_last_links [of s1 a as] by (simp add: chain_def l_def)
    define s' where "s' = s\<lparr>k_threads := (k_threads s)(t \<mapsto> r2 (Some l), l \<mapsto> rl\<lparr>sl_next := Some t\<rparr>)\<rparr>"
    have "k_queues s q = Some a" using ch Cons by (simp add: chain_def)
    then have run: "sleep_inQueue c q s = Some (Done s')"
      using t lx last rl by (simp add: sleep_inQueue_def thread_steps Let_def s1_def [symmetric] r1_def [symmetric] del: obind_eq_Done)
        (simp add: s1_def s'_def thread_steps sleep_prepare_def prepare_sleep_def r2_def r1_def fun_upd_twist del: obind_eq_Done)
    have "links s' (xs @ [t])"
    proof (rule links_snoc)
      show "links s xs" using ch by (simp add: chain_def)
      show "link_of s' u = link_of s u" if "u \<in> set (butlast xs)" for u
      proof -
        have "butlast xs @ [l] = xs" using Cons by (simp add: l_def)
        then have "distinct (butlast xs @ [l])" using ch by (simp add: chain_def)
        then have "u \<noteq> l" using that by auto
        with that t(2) show ?thesis by (auto simp: s'_def link_of_def dest: in_set_butlastD)
      qed
      show "link_of s' t = Some (None, Some t)" using lx by (simp add: s'_def link_of_def r2_def r1_def)
      show "link_of s' (last xs) = Some (Some t, Some (last xs))" using rl by (simp add: s'_def link_of_def l_def [symmetric])
    qed
    then have "chain s' q (xs @ [t])" using ch t(2) Cons by (simp add: chain_def s'_def)
    with run w lx rl show ?thesis by (auto simp: s'_def waits_def)
  qed
qed

section \<open>Waking the threads of a queue\<close>

lemma kinv_queues:
  assumes k: "kinv s xss"
  shows "kinv (s\<lparr>k_queues := y\<rparr>) xss"
proof -
  let ?s = "s\<lparr>k_queues := y\<rparr>"
  have eqs: "running ?s = running s" "is_idle ?s = is_idle s" "active ?s = active s"
    "idle_of ?s c = idle_of s c" "sched_ok ?s xss = sched_ok s xss" "thread_ok ?s xss = thread_ok s xss" for c
    by (simp_all add: running_def is_idle_def active_def cpu_of_def idle_of_def fun_eq_iff sched_ok_def thread_ok_def)
  show ?thesis using k by (simp add: kinv_def eqs)
qed

lemma sleep_wakeup_wakes:
  assumes k: "kinv s xss" and c: "c < length (k_cpus s)" and r: "k_threads s t = Some r" "\<not> sl_lock r" "sleeping r"
  shows "\<exists>s'. sleep_wakeup c t s = Done (0, s') \<and> kinv s' (xss[c := xss ! c @ [t]]) \<and> length (k_cpus s') = length (k_cpus s) \<and>
    k_threads s' = (k_threads s)(t \<mapsto> woken WAKEUP_ANOTHER_THREAD r) \<and> k_queues s' = k_queues s"
proof -
  obtain es where u: "wakeup_untime t WAKEUP_ANOTHER_THREAD s = Done (s\<lparr>k_time := es\<rparr>)" and sub: "set es \<subseteq> set (k_time s)"
  proof (cases "sl_seconds r \<noteq> 0 \<or> sl_subseconds r \<noteq> 0")
    case True
    then show ?thesis using r that [of "filter (\<lambda>e. te_thread e \<noteq> Some t) (k_time s)"] by (simp add: wakeup_untime_def thread_steps)
  next
    case False
    then show ?thesis using r that [of "k_time s"] by (simp add: wakeup_untime_def thread_steps)
  qed
  have "kinv (s\<lparr>k_time := es\<rparr>) xss" using sub kinv_D(6) [OF k] by (intro kinv_time [OF k]) blast
  from wakeup_locked_wakes [OF this, of c t r WAKEUP_ANOTHER_THREAD] c r obtain s' where
    w: "wakeup_locked c t WAKEUP_ANOTHER_THREAD (s\<lparr>k_time := es\<rparr>) = Done (0, s')" "kinv s' (xss[c := xss ! c @ [t]])"
    "same_but_queues (s\<lparr>k_time := es, k_threads := (k_threads s)(t \<mapsto> woken WAKEUP_ANOTHER_THREAD r)\<rparr>) s'"
    by auto
  with u same_but_queues_length [OF w(3)] show ?thesis
    by (simp add: sleep_wakeup_def sleep_wakeupReason_def same_but_queues_def del: obind_eq_Done)
qed

lemma unlink_effect:
  assumes k: "kinv s xss" and ch: "chain s q (t # ts)"
  shows "\<exists>s' r. k_threads s t = Some r \<and> sl_thread r = Some t \<and> unlink q (sl_next r) s = Done s' \<and> kinv s' xss \<and> chain s' q ts \<and> k_threads s' t = Some r \<and>
    k_cpus s' = k_cpus s \<and>
    (\<forall>u. map_option (\<lambda>r. r\<lparr>sl_prev := None\<rparr>) (k_threads s' u) = map_option (\<lambda>r. r\<lparr>sl_prev := None\<rparr>) (k_threads s u))"
proof -
  obtain r where r: "k_threads s t = Some r" "sl_thread r = Some t" "sl_next r = first ts None" and d: "t \<notin> set ts" "distinct ts"
    and l: "links s ts" using ch by (auto simp: chain_def link_of_def)
  define s1 where "s1 = s\<lparr>k_queues := (k_queues s)(q := first ts None)\<rparr>"
  have k1: "kinv s1 xss" unfolding s1_def by (rule kinv_queues [OF k])
  show ?thesis
  proof (cases ts)
    case Nil
    then have "unlink q (sl_next r) s = Done s1" using r by (simp add: unlink_def s1_def)
    with k1 r Nil show ?thesis
      by (intro exI [of _ s1] exI [of _ r]) (simp add: chain_def, simp add: s1_def)
  next
    case (Cons u us)
    then obtain ru where ru: "k_threads s u = Some ru" using l by (auto simp: link_of_def)
    define s2 where "s2 = s1\<lparr>k_threads := (k_threads s1)(u \<mapsto> ru\<lparr>sl_prev := None\<rparr>)\<rparr>"
    have ru1: "k_threads s1 u = Some ru" using ru by (simp add: s1_def)
    have "thread_ok s1 xss u (ru\<lparr>sl_prev := None\<rparr>)" using kinv_D(5) [OF k1 ru1] by (simp add: thread_ok_def sleeping_def)
    then have k2: "kinv s2 xss" unfolding s2_def by (rule kinv_change [OF k1 ru1])
    have "links s2 ts = links s ts" using ru by (intro links_cong) (auto simp: s2_def s1_def link_of_def)
    then have ch2: "chain s2 q ts" using d l by (simp add: chain_def) (simp add: s2_def s1_def)
    have un: "unlink q (sl_next r) s = Done s2" using r Cons ru by (simp add: unlink_def s2_def s1_def thread_steps)
    have "u \<noteq> t" using d Cons by auto
    then show ?thesis using k2 ch2 un r ru
      by (intro exI [of _ s2] exI [of _ r]) (simp add: s2_def s1_def)
  qed
qed

text \<open>The threads that wait in the queue sleep, and the switch has released their locks.\<close>

definition wakeable :: "kstate \<Rightarrow> nat \<Rightarrow> nat list \<Rightarrow> bool" where
  "wakeable s q xs \<longleftrightarrow> (\<forall>t \<in> set xs. \<forall>r. k_threads s t = Some r \<longrightarrow> sl_queue r = Some q \<longrightarrow> sleeping r \<and> \<not> sl_lock r)"

lemma prev_irrelevant:
  assumes "map_option (\<lambda>r. r\<lparr>sl_prev := None\<rparr>) (k_threads s' u) = map_option (\<lambda>r. r\<lparr>sl_prev := None\<rparr>) (k_threads s u)"
  shows "map_option (\<lambda>r. (sl_queue r, sleeping r, sl_lock r)) (k_threads s' u) = map_option (\<lambda>r. (sl_queue r, sleeping r, sl_lock r)) (k_threads s u)"
proof -
  let ?f = "\<lambda>r. (sl_queue r, sleeping r, sl_lock r)"
  have drop: "map_option ?f (map_option (\<lambda>r. r\<lparr>sl_prev := None\<rparr>) x) = map_option ?f x" for x
    by (cases x) (simp_all add: sleeping_def)
  show ?thesis using arg_cong [OF assms, of "map_option ?f"] unfolding drop .
qed

lemma wakeable_cong:
  assumes "\<And>u. u \<in> set xs \<Longrightarrow>
    map_option (\<lambda>r. (sl_queue r, sleeping r, sl_lock r)) (k_threads s' u) = map_option (\<lambda>r. (sl_queue r, sleeping r, sl_lock r)) (k_threads s u)"
  shows "wakeable s' q xs = wakeable s q xs" "t \<in> set xs \<Longrightarrow> waits s' q t = waits s q t"
proof -
  have *: "(\<forall>r. k_threads s t = Some r \<longrightarrow> sl_queue r = Some q \<longrightarrow> sleeping r \<and> \<not> sl_lock r) \<longleftrightarrow>
    (case map_option (\<lambda>r. (sl_queue r, sleeping r, sl_lock r)) (k_threads s t) of None \<Rightarrow> True | Some (x, y, z) \<Rightarrow> x = Some q \<longrightarrow> y \<and> \<not> z)"
    "waits s q t \<longleftrightarrow> (case map_option (\<lambda>r. (sl_queue r, sleeping r, sl_lock r)) (k_threads s t) of None \<Rightarrow> False | Some (x, y, z) \<Rightarrow> x = Some q)"
    for s t by (auto simp: waits_def split: option.splits)
  show "wakeable s' q xs = wakeable s q xs" unfolding wakeable_def * using assms by simp
  show "waits s' q t = waits s q t" if "t \<in> set xs" unfolding * using assms [OF that] by simp
qed

lemma first_waiting_cong: "(\<And>t. t \<in> set xs \<Longrightarrow> w t = w' t) \<Longrightarrow> first_waiting w n xs = first_waiting w' n xs"
  by (induction xs arbitrary: n) (auto split: prod.splits)

lemma wakeup_loop_effect:
  assumes "kinv s xss" "c < length (k_cpus s)" "chain s q xs" "wakeable s q xs" "0 \<le> awoken"
    "amounts = 0 \<and> length xs \<le> n \<or> amounts \<noteq> 0 \<and> awoken \<le> amounts \<and> n = nat (amounts - awoken)"
    "first_waiting (waits s q) n xs = (ws, rest)"
  shows "\<exists>s'. wakeup_loop c q amounts awoken s = Some (Done (awoken + int (length ws), s')) \<and> chain s' q rest \<and>
    kinv s' (xss[c := xss ! c @ ws]) \<and> (\<forall>t \<in> set ws. \<exists>r. k_threads s' t = Some r \<and> \<not> sleeping r)"
  using assms
proof (induction xs arbitrary: s xss awoken n ws)
  case Nil
  then have "k_queues s q = None" by (simp add: chain_def)
  then have "wakeup_loop c q amounts awoken s = Some (Done (awoken, s))" by (subst wakeup_loop.simps) simp
  with Nil show ?case by (auto simp: list_update_id)
next
  case (Cons t ts)
  have hd: "k_queues s q = Some t" using Cons.prems(3) by (simp add: chain_def)
  show ?case
  proof (cases "amounts \<noteq> 0 \<and> awoken \<ge> amounts")
    case True
    then have "wakeup_loop c q amounts awoken s = Some (Done (awoken, s))" using hd by (subst wakeup_loop.simps) simp
    moreover have "ws = []" "rest = t # ts" using True Cons.prems(6,7) by auto
    ultimately show ?thesis using Cons.prems by (auto simp: list_update_id)
  next
    case False
    then have n: "n \<noteq> 0" using Cons.prems(6) by auto
    obtain s1 r where r: "k_threads s t = Some r" "sl_thread r = Some t" and u: "unlink q (sl_next r) s = Done s1" and k1: "kinv s1 xss"
      and ch1: "chain s1 q ts" and r1: "k_threads s1 t = Some r" and cpus: "k_cpus s1 = k_cpus s"
      and pv: "\<And>u. map_option (\<lambda>r. r\<lparr>sl_prev := None\<rparr>) (k_threads s1 u) = map_option (\<lambda>r. r\<lparr>sl_prev := None\<rparr>) (k_threads s u)"
      using unlink_effect [OF Cons.prems(1,3)] by blast
    have w1: "wakeable s1 q ts" and same1: "\<And>u. u \<in> set ts \<Longrightarrow> waits s1 q u = waits s q u"
      using wakeable_cong [where xs = ts and s' = s1 and s = s and q = q] prev_irrelevant [OF pv] Cons.prems(4) by (auto simp: wakeable_def)
    have c1: "c < length (k_cpus s1)" using Cons.prems(2) cpus by simp
    have d: "t \<notin> set ts" using Cons.prems(3) by (simp add: chain_def)
    have wt: "waits s q t \<longleftrightarrow> sl_queue r = Some q" using r(1) by (simp add: waits_def)
    show ?thesis
    proof (cases "sl_queue r = Some q")
      case False
      then have "wakeup_loop c q amounts awoken s = wakeup_loop c q amounts awoken s1"
        using hd \<open>\<not> (amounts \<noteq> 0 \<and> awoken \<ge> amounts)\<close> r u r1 by (subst wakeup_loop.simps) (auto simp: thread_steps)
      moreover have "first_waiting (waits s1 q) n ts = (ws, rest)"
        using Cons.prems(7) False wt n first_waiting_cong [of ts "waits s1 q" "waits s q" n] same1 by simp
      ultimately show ?thesis
        using Cons.IH [OF k1 c1 ch1 w1 Cons.prems(5), of n ws] Cons.prems(6) by auto
    next
      case True
      then have sl: "sleeping r" "\<not> sl_lock r" using Cons.prems(4) r by (auto simp: wakeable_def)
      obtain s2 where s2: "sleep_wakeup c t s1 = Done (0, s2)" "kinv s2 (xss[c := xss ! c @ [t]])" "length (k_cpus s2) = length (k_cpus s1)"
        "k_threads s2 = (k_threads s1)(t \<mapsto> woken WAKEUP_ANOTHER_THREAD r)" "k_queues s2 = k_queues s1"
        using sleep_wakeup_wakes [OF k1 c1 r1 sl(2,1)] by blast
      have run: "wakeup_loop c q amounts awoken s = wakeup_loop c q amounts (awoken + 1) s2"
        using hd \<open>\<not> (amounts \<noteq> 0 \<and> awoken \<ge> amounts)\<close> r u r1 True s2(1) by (subst wakeup_loop.simps) (auto simp: thread_steps)
      have "links s2 ts = links s1 ts" using d by (intro links_cong) (auto simp: s2(4) link_of_def)
      then have ch2: "chain s2 q ts" using ch1 by (simp add: chain_def s2(5))
      have others: "k_threads s2 u = k_threads s1 u" if "u \<in> set ts" for u using d that by (auto simp: s2(4))
      have w2: "wakeable s2 q ts" using w1 others by (simp add: wakeable_def)
      have same2: "waits s2 q u = waits s1 q u" if "u \<in> set ts" for u using others [OF that] by (simp add: waits_def)
      obtain ws' where ws: "first_waiting (waits s q) (n - 1) ts = (ws', rest)" "ws = t # ws'"
        using Cons.prems(7) True wt n by (auto split: prod.splits)
      have "first_waiting (waits s2 q) (n - 1) ts = (ws', rest)"
        using ws(1) first_waiting_cong [of ts "waits s2 q" "waits s q" "n - 1"] same1 same2 by simp
      then obtain s' where s': "wakeup_loop c q amounts (awoken + 1) s2 = Some (Done (awoken + 1 + int (length ws'), s'))" "chain s' q rest"
        "kinv s' (xss[c := xss ! c @ [t], c := xss[c := xss ! c @ [t]] ! c @ ws'])" "\<forall>t \<in> set ws'. \<exists>r. k_threads s' t = Some r \<and> \<not> sleeping r"
        using Cons.IH [OF s2(2) _ ch2 w2, of "awoken + 1" "n - 1" ws'] c1 s2(3) Cons.prems(5,6) n by fastforce
      have "c < length xss" using Cons.prems(2) sched_length [OF kinv_D(1) [OF Cons.prems(1)]] by simp
      then have x: "xss[c := xss ! c @ [t], c := xss[c := xss ! c @ [t]] ! c @ ws'] = xss[c := xss ! c @ ws]" by (simp add: ws(2))
      have "t \<in> queued (xss[c := xss ! c @ ws])" using \<open>c < length xss\<close> by (simp add: queued_append ws(2))
      moreover have k': "kinv s' (xss[c := xss ! c @ ws])" using s'(3) x by simp
      then have "sched_ok s' (xss[c := xss ! c @ ws])" by (rule kinv_D(1))
      ultimately obtain r' where "k_threads s' t = Some r'" unfolding sched_ok_def using queued_iff \<open>sched_ok s' _\<close> by blast
      with kinv_D(5) [OF k' this] \<open>t \<in> queued _\<close> have "\<exists>r. k_threads s' t = Some r \<and> \<not> sleeping r" by (auto simp: thread_ok_def)
      with run s' x ws(2) show ?thesis by (auto simp: add.assoc)
    qed
  qed
qed

section \<open>A thread that is still in the chain\<close>

text \<open>The head of the chain points to itself and its thread does not wait.\<close>

definition head_loops :: "kstate \<Rightarrow> nat \<Rightarrow> bool" where
  "head_loops s q = (case k_queues s q of None \<Rightarrow> False | Some t \<Rightarrow>
     (case k_threads s t of None \<Rightarrow> False | Some r \<Rightarrow> sl_next r = Some t \<and> sl_queue r \<noteq> Some q))"

lemma wakeup_loop_returns_only:
  "wakeup_loop c q amounts awoken s = Some y \<Longrightarrow> \<not> (head_loops s q \<and> 0 \<le> amounts \<and> awoken = 0)"
proof (rule wakeup_loop.raw_induct [where P = "\<lambda>c q amounts awoken s y. \<not> (head_loops s q \<and> 0 \<le> amounts \<and> awoken = 0)"])
  fix f and c q :: nat and amounts awoken :: int and s y
  assume ih: "\<And>c q amounts awoken s y. f c q amounts awoken s = Some y \<Longrightarrow> \<not> (head_loops s q \<and> 0 \<le> amounts \<and> awoken = 0)"
    and body: "(case k_queues s q of None \<Rightarrow> Some (Done (awoken, s))
      | Some t \<Rightarrow>
          if amounts \<noteq> 0 \<and> awoken \<ge> amounts then Some (Done (awoken, s)) else
          (case thread_at s (Some t) of Fault \<Rightarrow> Some Fault | Panic \<Rightarrow> Some Panic | Done r \<Rightarrow>
          (case unlink q (sl_next r) s of Fault \<Rightarrow> Some Fault | Panic \<Rightarrow> Some Panic | Done s \<Rightarrow>
          (case thread_at s (Some t) of Fault \<Rightarrow> Some Fault | Panic \<Rightarrow> Some Panic | Done r \<Rightarrow>
           if sl_queue r = Some q
           then (case sl_thread r of None \<Rightarrow> Some Fault | Some u \<Rightarrow>
             (case sleep_wakeup c u s of Fault \<Rightarrow> Some Fault | Panic \<Rightarrow> Some Panic
              | Done (_, s) \<Rightarrow> f c q amounts (awoken + 1) s))
           else f c q amounts awoken s)))) = Some y"
  show "\<not> (head_loops s q \<and> 0 \<le> amounts \<and> awoken = 0)"
  proof
    assume a: "head_loops s q \<and> 0 \<le> amounts \<and> awoken = 0"
    then obtain t r where t: "k_queues s q = Some t" "k_threads s t = Some r" "sl_next r = Some t" "sl_queue r \<noteq> Some q"
      by (auto simp: head_loops_def split: option.splits)
    define s' where "s' = s\<lparr>k_queues := (k_queues s)(q := Some t), k_threads := (k_threads s)(t \<mapsto> r\<lparr>sl_prev := None\<rparr>)\<rparr>"
    have "unlink q (Some t) s = Done s'" using t by (simp add: unlink_def thread_steps s'_def)
    moreover have "\<not> (amounts \<noteq> 0 \<and> awoken \<ge> amounts)" using a by auto
    moreover have "thread_at s (Some t) = Done r" "thread_at s' (Some t) = Done (r\<lparr>sl_prev := None\<rparr>)"
      using t by (simp_all add: thread_at_def s'_def)
    ultimately have "f c q amounts awoken s' = Some y" using body t by (auto split: if_splits)
    moreover have "head_loops s' q" using t by (simp add: head_loops_def s'_def)
    ultimately show False using ih a by blast
  qed
qed

lemma wakeup_loop_stuck: "head_loops s q \<Longrightarrow> 0 \<le> amounts \<Longrightarrow> wakeup_loop c q amounts 0 s = None"
  using wakeup_loop_returns_only [of c q amounts 0 s] by (cases "wakeup_loop c q amounts 0 s") auto

section \<open>Properties\<close>

text \<open>
  C36. \<open>sleep_wakeupQueue\<close> on a well-formed chain returns, wakes the first threads that still wait, as many
  as asked for or all of them for 0, and skips those that something else has woken. The woken threads
  are appended to the run queue of the processor in the order in which they went to sleep, the rest of the
  chain stays, and the scheduler keeps its invariant.
\<close>

theorem sleep_queue_wakes_first:
  assumes "kinv s xss" "c < length (k_cpus s)" "chain s q xs" "wakeable s q xs" "0 \<le> amounts"
    "first_waiting (waits s q) (if amounts = 0 then length xs else nat amounts) xs = (ws, rest)"
  shows "\<exists>s'. sleep_wakeupQueue c q amounts s = Some (Done (int (length ws), s')) \<and> chain s' q rest \<and>
    kinv s' (xss[c := xss ! c @ ws])"
proof -
  have "\<exists>s'. wakeup_loop c q amounts 0 s = Some (Done (0 + int (length ws), s')) \<and> chain s' q rest \<and>
    kinv s' (xss[c := xss ! c @ ws]) \<and> (\<forall>t \<in> set ws. \<exists>r. k_threads s' t = Some r \<and> \<not> sleeping r)"
    by (rule wakeup_loop_effect [OF assms(1-4) _ _ assms(6)]) (use assms(5) in auto)
  then show ?thesis by (auto simp: sleep_wakeupQueue_def)
qed

definition asleep :: "nat \<Rightarrow> ptr \<Rightarrow> thread" where
  "asleep t nx = (zero_thread THREAD_STATUS_SLEEPING)\<lparr>sl_thread := Some t, sl_next := nx, sl_queue := Some 9\<rparr>"

text \<open>Thread 5 has left queue 9 for another reason, threads 6 and 7 sleep in it, thread 4 runs.\<close>

definition three_in_queue :: kstate where
  "three_in_queue =
     \<lparr>k_threads = [0 \<mapsto> zero_thread 0, 4 \<mapsto> zero_thread THREAD_STATUS_RUNNING,
        5 \<mapsto> (zero_thread THREAD_STATUS_RUNNING)\<lparr>sl_thread := Some 5, sl_next := Some 6\<rparr>, 6 \<mapsto> asleep 6 (Some 7), 7 \<mapsto> asleep 7 None],
      k_nodes = (\<lambda>t. if t < 10 then Some (zeroed t) else None),
      k_cpus = [\<lparr>cpu_state = SCHEDULER_STATE_ACTIVE, cpu_queue = list_create, cpu_current = Some 4, cpu_idle = 0\<rparr>],
      k_time = [], k_queues = (\<lambda>_. None)(9 := Some 5)\<rparr>"

lemma asleep_sel: "sleeping (asleep t nx)" "\<not> sl_lock (asleep t nx)" "sl_thread (asleep t nx) = Some t" "sl_next (asleep t nx) = nx"
  "sl_queue (asleep t nx) = Some 9" "\<not> sleeping (zero_thread 0)" "\<not> sleeping (zero_thread THREAD_STATUS_RUNNING)"
  "\<not> sleeping ((zero_thread THREAD_STATUS_RUNNING)\<lparr>sl_thread := x, sl_next := y\<rparr>)"
  by (simp_all add: asleep_def zero_thread_def sleeping_def THREAD_STATUS_SLEEPING_def THREAD_STATUS_RUNNING_def)

lemma three_in_queue_ok: "kinv three_in_queue [[]]" "chain three_in_queue 9 [5, 6, 7]" "wakeable three_in_queue 9 [5, 6, 7]"
proof -
  have "sched_ok three_in_queue [[]]"
    by (auto simp: sched_ok_def queues_ok_def three_in_queue_def list_ok_def list_create_def shape_def node_values_def zeroed_def
        split: if_splits)
  then show "kinv three_in_queue [[]]"
    by (auto simp: kinv_def three_in_queue_def active_def running_def is_idle_def current_def idle_of_def cpu_of_def thread_ok_def
        queued_def asleep_sel split: if_splits)
  show "chain three_in_queue 9 [5, 6, 7]" "wakeable three_in_queue 9 [5, 6, 7]"
    by (simp_all add: chain_def link_of_def three_in_queue_def asleep_sel wakeable_def zero_thread_def)
qed

theorem sleep_queue_wakes_first_witness:
  "\<exists>s'. sleep_wakeupQueue 0 9 1 three_in_queue = Some (Done (1, s')) \<and> chain s' 9 [7] \<and> kinv s' [[6]]"
proof -
  have w: "waits three_in_queue 9 5 = False" "waits three_in_queue 9 6 = True"
    by (simp_all add: waits_def three_in_queue_def asleep_sel zero_thread_def)
  have "first_waiting (waits three_in_queue 9) (if (1 :: int) = 0 then length [5 :: nat, 6, 7] else nat 1) [5, 6, 7] = ([6], [7])"
    by (simp add: w split: prod.splits)
  moreover have "0 < length (k_cpus three_in_queue)" by (simp add: three_in_queue_def)
  ultimately show ?thesis
    using sleep_queue_wakes_first [OF three_in_queue_ok(1) _ three_in_queue_ok(2,3), of 0 1 "[6]" "[7]"] by simp
qed



end
