(* ===== verification/Protocol.thy ===== *)
theory Protocol
  imports Main
begin

text \<open>
  The contract of a locking protocol as a transition system: an invariant that holds at the start and
  that every step keeps, and that allows at most one agent to be in the exclusive section. What a client
  gets from it holds in every state that any interleaving of steps reaches.
\<close>

inductive reaches :: "('s \<Rightarrow> 's \<Rightarrow> bool) \<Rightarrow> 's \<Rightarrow> 's \<Rightarrow> bool" for step :: "'s \<Rightarrow> 's \<Rightarrow> bool" and s :: 's where
  reaches_start: "reaches step s s"
| reaches_step: "reaches step s s' \<Longrightarrow> step s' s'' \<Longrightarrow> reaches step s s''"

locale exclusive_protocol =
  fixes step :: "'s \<Rightarrow> 's \<Rightarrow> bool"
    and inv :: "'s \<Rightarrow> bool"
    and exclusive :: "'s \<Rightarrow> 'a \<Rightarrow> bool"
    and shared :: "'s \<Rightarrow> 'a \<Rightarrow> bool"
  assumes step_inv: "inv s \<Longrightarrow> step s s' \<Longrightarrow> inv s'"
    and alone: "inv s \<Longrightarrow> exclusive s a \<Longrightarrow> exclusive s b \<Longrightarrow> a = b"
    and apart: "inv s \<Longrightarrow> exclusive s a \<Longrightarrow> \<not> shared s b"
begin

lemma reaches_inv: "reaches step s s' \<Longrightarrow> inv s \<Longrightarrow> inv s'"
  by (induction rule: reaches.induct) (auto intro: step_inv)

lemma reached_exclusive:
  "reaches step s s' \<Longrightarrow> inv s \<Longrightarrow> exclusive s' a \<Longrightarrow> (exclusive s' b \<longrightarrow> a = b) \<and> \<not> shared s' b"
  using reaches_inv alone apart by blast

end

end
