(* ===== verification/Mutex.thy ===== *)
theory Mutex
  imports Sleep_Queue Protocol
begin

text \<open>
  The mutex of \<^verbatim>\<open>hexahedron/misc/mutex.c\<close>: an atomic word with the thread that holds it and a sleep
  queue. The routines are programs whose atomic accesses and calls of the sleep routines are single
  steps, so that any number of threads and processors interleave between them; the kernel below, with
  its own events, is the model of the scheduler. An agent is a thread, or a processor that runs no
  thread yet and waits by spinning.
\<close>

section \<open>Programs\<close>

datatype agent = Thread nat | Boot nat

text \<open>
  \<open>Acquiring prepped\<close> is before the compare-and-exchange, \<open>Back\<close> behind the switch in \<open>sleep_enter\<close>, and
  \<open>Released\<close> between the store and the wakeup in \<open>mutex_release\<close>.
\<close>

datatype mutex_pc = Outside | Acquiring bool | Back | Holding | Released

record mutex_sys =
  mx_lock :: int
  mx_pc :: "agent \<Rightarrow> mutex_pc"
  mx_kernel :: kstate

definition FREE :: int where "FREE = -1"

definition mutex_create :: "kstate \<Rightarrow> mutex_sys" where
  "mutex_create k = \<lparr>mx_lock = FREE, mx_pc = (\<lambda>_. Outside), mx_kernel = k\<rparr>"

definition runs_on :: "agent \<Rightarrow> nat \<Rightarrow> kstate \<Rightarrow> bool" where
  "runs_on a c k \<longleftrightarrow> c < length (k_cpus k) \<and> (case a of Thread t \<Rightarrow> current c k = Some t | Boot d \<Rightarrow> d = c \<and> current c k = None)"

fun want :: "(nat \<Rightarrow> int) \<Rightarrow> agent \<Rightarrow> int" where
  "want tid (Thread t) = tid t"
| "want tid (Boot c) = 0"

definition goto :: "agent \<Rightarrow> mutex_pc \<Rightarrow> mutex_sys \<Rightarrow> mutex_sys" where
  "goto a p s = s\<lparr>mx_pc := (mx_pc s)(a := p)\<rparr>"

text \<open>
  \<open>mutex_acquire\<close>: the assertion, the exchange, and what follows when it fails; an agent without a thread
  goes around again after a pause. \<open>enter\<close> stands for the times that \<open>sleep_enter\<close> reads.
\<close>

definition acquire_begin :: "(nat \<Rightarrow> int) \<Rightarrow> agent \<Rightarrow> mutex_sys \<Rightarrow> mutex_sys outcome" where
  "acquire_begin tid a s = oassert (case a of Boot c \<Rightarrow> True | Thread t \<Rightarrow> want tid a \<noteq> mx_lock s) (Done (goto a (Acquiring False) s))"

definition acquire_exchange ::
  "(nat \<Rightarrow> int) \<Rightarrow> nat \<Rightarrow> bool \<Rightarrow> u64 \<times> u64 \<Rightarrow> u64 \<times> u64 \<Rightarrow> agent \<Rightarrow> nat \<Rightarrow> bool \<Rightarrow> mutex_sys \<Rightarrow> mutex_sys outcome option" where
  "acquire_exchange tid q lk now now' a c prepped s =
     (if mx_lock s = FREE then
        Some (obind (if prepped then sleep_exit c (mx_kernel s) else Done (mx_kernel s)) (\<lambda>k.
          Done (goto a Holding (s\<lparr>mx_lock := want tid a, mx_kernel := k\<rparr>))))
      else (case a of
        Boot d \<Rightarrow> Some (Done s)
      | Thread t \<Rightarrow>
          if \<not> prepped then map_option (\<lambda>m. obind m (\<lambda>k. Done (goto a (Acquiring True) (s\<lparr>mx_kernel := k\<rparr>)))) (sleep_inQueue c q (mx_kernel s))
          else Some (obind (sleep_enter c lk now now' (mx_kernel s)) (\<lambda>k. Done (goto a Back (s\<lparr>mx_kernel := k\<rparr>))))))"

definition acquire_back :: "nat \<Rightarrow> bool \<Rightarrow> u64 \<times> u64 \<Rightarrow> agent \<Rightarrow> nat \<Rightarrow> mutex_sys \<Rightarrow> mutex_sys outcome" where
  "acquire_back q lk now a c s =
     obind (sleep_enter_return c lk now (mx_kernel s)) (\<lambda>(reason, k).
     Done (goto a (if reason = None then Outside else Acquiring False) (s\<lparr>mx_kernel := k\<rparr>)))"

definition mutex_tryAcquire :: "(nat \<Rightarrow> int) \<Rightarrow> agent \<Rightarrow> mutex_sys \<Rightarrow> bool \<times> mutex_sys" where
  "mutex_tryAcquire tid a s =
     (if mx_lock s = FREE then (True, goto a Holding (s\<lparr>mx_lock := want tid a\<rparr>)) else (False, s))"

definition release_store :: "agent \<Rightarrow> mutex_sys \<Rightarrow> mutex_sys" where
  "release_store a s = goto a Released (s\<lparr>mx_lock := FREE\<rparr>)"

definition release_wake :: "nat \<Rightarrow> agent \<Rightarrow> nat \<Rightarrow> mutex_sys \<Rightarrow> mutex_sys outcome option" where
  "release_wake q a c s =
     map_option (\<lambda>m. obind m (\<lambda>(_, k). Done (goto a Outside (s\<lparr>mx_kernel := k\<rparr>)))) (sleep_wakeupQueue c q 1 (mx_kernel s))"

text \<open>The steps of all agents and of the kernel; a holder is the only one that releases.\<close>

inductive mutex_step :: "(nat \<Rightarrow> int) \<Rightarrow> nat \<Rightarrow> mutex_sys \<Rightarrow> mutex_sys \<Rightarrow> bool" for tid q where
  begin_step: "runs_on a c (mx_kernel s) \<Longrightarrow> mx_pc s a = Outside \<Longrightarrow> acquire_begin tid a s = Done s' \<Longrightarrow> mutex_step tid q s s'"
| exchange_step: "runs_on a c (mx_kernel s) \<Longrightarrow> mx_pc s a = Acquiring p \<Longrightarrow>
    acquire_exchange tid q lk now now' a c p s = Some (Done s') \<Longrightarrow> mutex_step tid q s s'"
| back_step: "runs_on a c (mx_kernel s) \<Longrightarrow> mx_pc s a = Back \<Longrightarrow> acquire_back q lk now a c s = Done s' \<Longrightarrow> mutex_step tid q s s'"
| try_step: "runs_on a c (mx_kernel s) \<Longrightarrow> mx_pc s a = Outside \<Longrightarrow> mutex_tryAcquire tid a s = (b, s') \<Longrightarrow> mutex_step tid q s s'"
| store_step: "runs_on a c (mx_kernel s) \<Longrightarrow> mx_pc s a = Holding \<Longrightarrow> release_store a s = s' \<Longrightarrow> mutex_step tid q s s'"
| wake_step: "runs_on a c (mx_kernel s) \<Longrightarrow> mx_pc s a = Released \<Longrightarrow> release_wake q a c s = Some (Done s') \<Longrightarrow> mutex_step tid q s s'"
| kernel_step: "enabled (mx_kernel s) ev \<Longrightarrow> kstep ev (mx_kernel s) = Done k \<Longrightarrow> mutex_step tid q s (s\<lparr>mx_kernel := k\<rparr>)"

section \<open>The invariant\<close>

definition mutex_inv :: "mutex_sys \<Rightarrow> bool" where
  "mutex_inv s \<longleftrightarrow>
     (\<forall>a b. mx_pc s a = Holding \<and> mx_pc s b = Holding \<longrightarrow> a = b) \<and>
     ((\<exists>a. mx_pc s a = Holding) \<longrightarrow> mx_lock s \<noteq> FREE)"

lemma goto_sel [simp]:
  "mx_pc (goto a p s) b = (if b = a then p else mx_pc s b)" "mx_lock (goto a p s) = mx_lock s"
  by (simp_all add: goto_def)

lemma mutex_inv_same_lock:
  "mutex_inv s \<Longrightarrow> p \<noteq> Holding \<Longrightarrow> mutex_inv (goto a p (s\<lparr>mx_kernel := k\<rparr>))"
  by (auto simp: mutex_inv_def split: if_splits)

lemma mutex_inv_take:
  "mutex_inv s \<Longrightarrow> mx_lock s = FREE \<Longrightarrow> l \<noteq> FREE \<Longrightarrow> mutex_inv (goto a Holding (s\<lparr>mx_lock := l, mx_kernel := k\<rparr>))"
  by (auto simp: mutex_inv_def split: if_splits)

lemma mutex_step_inv:
  assumes i: "mutex_inv s" and tid: "\<And>t. tid t \<noteq> FREE" and st: "mutex_step tid q s s'"
  shows "mutex_inv s'"
proof -
  have w: "want tid a \<noteq> FREE" for a using tid by (cases a) (simp_all add: FREE_def)
  from st show ?thesis
  proof cases
    case (begin_step a c)
    then have "s' = goto a (Acquiring False) s" by (simp add: acquire_begin_def)
    then show ?thesis using mutex_inv_same_lock [OF i, of "Acquiring False" a "mx_kernel s"] by simp
  next
    case (exchange_step a c p lk now now')
    from exchange_step(3) show ?thesis
    proof (cases "mx_lock s = FREE")
      case True
      then obtain k where "s' = goto a Holding (s\<lparr>mx_lock := want tid a, mx_kernel := k\<rparr>)"
        using exchange_step(3) by (auto simp: acquire_exchange_def)
      then show ?thesis using mutex_inv_take [OF i True w] by simp
    next
      case False
      then consider "s' = s" | k where "s' = goto a (Acquiring True) (s\<lparr>mx_kernel := k\<rparr>)" | k where "s' = goto a Back (s\<lparr>mx_kernel := k\<rparr>)"
        using exchange_step(3) by (auto simp: acquire_exchange_def split: agent.splits if_splits)
      then show ?thesis using i mutex_inv_same_lock [OF i] by cases auto
    qed
  next
    case (back_step a c lk now)
    then obtain k and r :: "wakeup_reason option" where "s' = goto a (if r = None then Outside else Acquiring False) (s\<lparr>mx_kernel := k\<rparr>)"
      by (auto simp: acquire_back_def)
    then show ?thesis using mutex_inv_same_lock [OF i] by simp
  next
    case (try_step a c b)
    then show ?thesis using i w [of a] by (auto simp: mutex_tryAcquire_def mutex_inv_def split: if_splits)
  next
    case (store_step a c)
    then show ?thesis using i by (auto simp: release_store_def mutex_inv_def split: if_splits)
  next
    case (wake_step a c)
    then obtain k where "s' = goto a Outside (s\<lparr>mx_kernel := k\<rparr>)" by (auto simp: release_wake_def)
    then show ?thesis using mutex_inv_same_lock [OF i] by simp
  next
    case (kernel_step ev k)
    then show ?thesis using i by (simp add: mutex_inv_def)
  qed
qed

interpretation mx: exclusive_protocol "mutex_step tid q" "\<lambda>s. mutex_inv s \<and> (\<forall>t. tid t \<noteq> FREE)"
  "\<lambda>s a. mx_pc s a = Holding" "\<lambda>s a. False" for tid q
proof unfold_locales
  show "mutex_inv s' \<and> (\<forall>t. tid t \<noteq> FREE)" if "mutex_inv s \<and> (\<forall>t. tid t \<noteq> FREE)" "mutex_step tid q s s'" for s s'
    using that mutex_step_inv by blast
qed (auto simp: mutex_inv_def)

section \<open>Properties\<close>

text \<open>
  C38. Mutual exclusion: from a new mutex, in every state that any interleaving of the atomic steps of
  acquiring, trying, releasing, sleeping and waking agents with the events of the scheduler reaches, at most
  one agent is between a successful acquisition and its release.
\<close>

theorem mutex_exclusion:
  assumes "\<forall>t. tid t \<noteq> FREE" "reaches (mutex_step tid q) (mutex_create k) s" "mx_pc s a = Holding"
  shows "\<forall>b. mx_pc s b = Holding \<longrightarrow> b = a"
proof (intro allI impI)
  fix b assume "mx_pc s b = Holding"
  moreover have "mutex_inv (mutex_create k)" by (simp add: mutex_inv_def mutex_create_def)
  ultimately show "b = a" using mx.reached_exclusive [OF assms(2) _ assms(3), of b] assms(1) by simp
qed

definition boot_holds :: mutex_sys where
  "boot_holds = goto (Boot 0) Holding (goto (Boot 0) (Acquiring False) (mutex_create (boot 1))\<lparr>mx_lock := 0\<rparr>)"

theorem mutex_exclusion_witness:
  "reaches (mutex_step int 0) (mutex_create (boot 1)) boot_holds \<and> mx_pc boot_holds (Boot 0) = Holding \<and>
   mx_pc boot_holds (Boot 1) \<noteq> Holding"
proof -
  define s1 where "s1 = goto (Boot 0) (Acquiring False) (mutex_create (boot 1))"
  have k: "mx_kernel s1 = boot 1" "mx_lock s1 = FREE" by (simp_all add: s1_def goto_def mutex_create_def)
  have on: "runs_on (Boot 0) 0 (boot 1)" by (simp add: runs_on_def boot_eq current_def cpu_of_def)
  have "mutex_step int 0 (mutex_create (boot 1)) s1"
    by (rule begin_step [where a = "Boot 0" and c = 0]) (simp_all add: on [unfolded One_nat_def] mutex_create_def acquire_begin_def s1_def)
  moreover have "mutex_step int 0 s1 boot_holds"
    by (rule exchange_step [where a = "Boot 0" and c = 0 and p = False])
      (simp_all add: on [unfolded One_nat_def] k acquire_exchange_def boot_holds_def, simp_all add: s1_def goto_def mutex_create_def)
  ultimately have r: "reaches (mutex_step int 0) (mutex_create (boot 1)) boot_holds"
    by (blast intro: reaches.intros)
  have h: "mx_pc boot_holds (Boot 0) = Holding" by (simp add: boot_holds_def)
  have t: "\<forall>t. int t \<noteq> FREE" by (simp add: FREE_def)
  show ?thesis using r h spec [OF mutex_exclusion [OF t r h], of "Boot 1"] by auto
qed

end
