(* ===== verification/Rwsem.thy ===== *)
theory Rwsem
  imports Sleep_Queue Protocol
begin

text \<open>
  The read/write semaphore of \<^verbatim>\<open>hexahedron/lock/rwsem.c\<close>: a word whose low 31 bits count the readers and
  whose top bit says that a writer is active, a count of waiting writers and two sleep queues. Every
  atomic access is a step of its own, so that the loads, tests and exchanges of any number of threads
  interleave.
\<close>

section \<open>Programs\<close>

record rwsem =
  rw_state :: u32
  rw_waiting :: u32

definition RWSEM_INITIALIZER :: rwsem where
  "RWSEM_INITIALIZER = \<lparr>rw_state = 0, rw_waiting = 0\<rparr>"

definition RWSEM_WRITER_ACTIVE :: "u32 \<Rightarrow> bool" where
  "RWSEM_WRITER_ACTIVE s \<longleftrightarrow> s AND 2 ^ 31 \<noteq> 0"

definition RWSEM_READERS_ACTIVE :: "u32 \<Rightarrow> u32" where
  "RWSEM_READERS_ACTIVE s = s AND NOT (2 ^ 31)"

text \<open>
  The places between the atomic accesses. The flag of a start is true in the routines that only try once;
  the argument of a test or exchange is the word that was loaded.
\<close>

datatype rw_pc =
    Away
  | ReadLoad bool | ReadTest bool u32 | ReadSleep | ReadBack | ReadCas bool u32 | Reading
  | UnreadLoad | UnreadCas u32 | UnreadTest | WakeWriter
  | WriteCount bool | WriteLoad bool | WriteTest bool u32 | WriteSleep | WriteBack | WriteCas bool u32 | WriteUncount | Writing
  | UnwriteTest | WakeReaders

text \<open>
  One step of a thread on the words of the semaphore; \<open>ok\<close> is false when the weak exchange fails
  although the word has the expected value. The signed comparison of \<^verbatim>\<open>writers_waiting\<close> with 0 is the one
  of \<^verbatim>\<open>int\<close>.
\<close>

fun rw_next :: "bool \<Rightarrow> rwsem \<Rightarrow> rw_pc \<Rightarrow> rwsem \<times> rw_pc" where
  "rw_next ok w (ReadLoad once) = (w, ReadTest once (rw_state w))"
| "rw_next ok w (ReadTest once old) =
     (w, if RWSEM_WRITER_ACTIVE old \<or> 0 < sint (rw_waiting w) then (if once then Away else ReadSleep) else ReadCas once old)"
| "rw_next ok w (ReadCas once old) =
     (if ok \<and> rw_state w = old then (w\<lparr>rw_state := old + 1\<rparr>, Reading) else (w, ReadLoad once))"
| "rw_next ok w UnreadLoad = (w, UnreadCas (rw_state w))"
| "rw_next ok w (UnreadCas old) =
     (if ok \<and> rw_state w = old then (w\<lparr>rw_state := old - 1\<rparr>, UnreadTest) else (w, UnreadLoad))"
| "rw_next ok w UnreadTest =
     (w, if RWSEM_READERS_ACTIVE (rw_state w) = 0 \<and> rw_waiting w \<noteq> 0 then WakeWriter else Away)"
| "rw_next ok w (WriteCount once) = (w\<lparr>rw_waiting := rw_waiting w + 1\<rparr>, WriteLoad once)"
| "rw_next ok w (WriteLoad once) = (w, WriteTest once (rw_state w))"
| "rw_next ok w (WriteTest once old) =
     (w, if RWSEM_WRITER_ACTIVE old \<or> RWSEM_READERS_ACTIVE old > 0 then (if once then Away else WriteSleep) else WriteCas once old)"
| "rw_next ok w (WriteCas once old) =
     (if ok \<and> rw_state w = old then (w\<lparr>rw_state := old OR 2 ^ 31\<rparr>, WriteUncount) else (w, WriteLoad once))"
| "rw_next ok w WriteUncount = (w\<lparr>rw_waiting := rw_waiting w - 1\<rparr>, Writing)"
| "rw_next ok w UnwriteTest = (w, if rw_waiting w \<noteq> 0 then WakeWriter else WakeReaders)"
| "rw_next ok w p = (w, p)"

text \<open>What a thread may call next: outside it starts, a holder finishes; \<open>rwsem_finishWrite\<close> clears the bit first.\<close>

fun rw_call :: "rwsem \<Rightarrow> rw_pc \<Rightarrow> (rwsem \<times> rw_pc) list" where
  "rw_call w Away = [(w, ReadLoad False), (w, ReadLoad True), (w, WriteCount False), (w, WriteCount True)]"
| "rw_call w Reading = [(w, UnreadLoad)]"
| "rw_call w Writing = [(w\<lparr>rw_state := rw_state w AND NOT (2 ^ 31)\<rparr>, UnwriteTest)]"
| "rw_call w p = []"

text \<open>The steps that call the sleep routines: sleeping in a queue, coming back, and waking.\<close>

definition rw_sleep :: "nat \<Rightarrow> nat \<Rightarrow> bool \<Rightarrow> u64 \<times> u64 \<Rightarrow> u64 \<times> u64 \<Rightarrow> kstate \<Rightarrow> kstate outcome option" where
  "rw_sleep q c lk now now' k = map_option (\<lambda>m. obind m (sleep_enter c lk now now')) (sleep_inQueue c q k)"

definition rw_wake :: "nat \<Rightarrow> int \<Rightarrow> nat \<Rightarrow> kstate \<Rightarrow> kstate outcome option" where
  "rw_wake q amount c k = map_option (\<lambda>m. obind m (\<lambda>(_, k). Done k)) (sleep_wakeupQueue c q amount k)"

record rw_sys =
  rws :: rwsem
  rw_pcs :: "nat \<Rightarrow> rw_pc"
  rw_kernel :: kstate

definition put :: "nat \<Rightarrow> rwsem \<times> rw_pc \<Rightarrow> kstate \<Rightarrow> rw_sys \<Rightarrow> rw_sys" where
  "put t wp k s = s\<lparr>rws := fst wp, rw_pcs := (rw_pcs s)(t := snd wp), rw_kernel := k\<rparr>"

text \<open>Threads \<open>0, \<dots>, n - 1\<close> use the semaphore; \<open>rq\<close> and \<open>wq\<close> are its sleep queues.\<close>

inductive rw_step :: "nat \<Rightarrow> nat \<Rightarrow> nat \<Rightarrow> rw_sys \<Rightarrow> rw_sys \<Rightarrow> bool" for n rq wq where
  word_step: "t < n \<Longrightarrow> current c (rw_kernel s) = Some t \<Longrightarrow>
    rw_step n rq wq s (put t (rw_next ok (rws s) (rw_pcs s t)) (rw_kernel s) s)"
| call_step: "t < n \<Longrightarrow> current c (rw_kernel s) = Some t \<Longrightarrow> wp \<in> set (rw_call (rws s) (rw_pcs s t)) \<Longrightarrow>
    rw_step n rq wq s (put t wp (rw_kernel s) s)"
| sleep_step: "t < n \<Longrightarrow> current c (rw_kernel s) = Some t \<Longrightarrow> (rw_pcs s t, q, p) \<in> {(ReadSleep, rq, ReadBack), (WriteSleep, wq, WriteBack)} \<Longrightarrow>
    rw_sleep q c lk now now' (rw_kernel s) = Some (Done k) \<Longrightarrow> rw_step n rq wq s (put t (rws s, p) k s)"
| back_step: "t < n \<Longrightarrow> current c (rw_kernel s) = Some t \<Longrightarrow> (rw_pcs s t, p) \<in> {(ReadBack, ReadLoad False), (WriteBack, WriteLoad False)} \<Longrightarrow>
    sleep_enter_return c lk now (rw_kernel s) = Done (Some reason, k) \<Longrightarrow> rw_step n rq wq s (put t (rws s, p) k s)"
| wake_step: "t < n \<Longrightarrow> current c (rw_kernel s) = Some t \<Longrightarrow> (rw_pcs s t, q, amount) \<in> {(WakeWriter, wq, 1), (WakeReaders, rq, -1)} \<Longrightarrow>
    rw_wake q amount c (rw_kernel s) = Some (Done k) \<Longrightarrow> rw_step n rq wq s (put t (rws s, Away) k s)"
| kernel_step: "enabled (rw_kernel s) ev \<Longrightarrow> kstep ev (rw_kernel s) = Done k \<Longrightarrow> rw_step n rq wq s (s\<lparr>rw_kernel := k\<rparr>)"

definition rw_start :: "kstate \<Rightarrow> rw_sys" where
  "rw_start k = \<lparr>rws = RWSEM_INITIALIZER, rw_pcs = (\<lambda>_. Away), rw_kernel = k\<rparr>"

section \<open>The invariant\<close>

fun reads :: "rw_pc \<Rightarrow> bool" where
  "reads Reading = True" | "reads UnreadLoad = True" | "reads (UnreadCas old) = True" | "reads p = False"

fun writes :: "rw_pc \<Rightarrow> bool" where
  "writes WriteUncount = True" | "writes Writing = True" | "writes p = False"

text \<open>An exchange is attempted only with a word that passed the test.\<close>

fun pc_ok :: "rw_pc \<Rightarrow> bool" where
  "pc_ok (ReadCas once old) = (\<not> RWSEM_WRITER_ACTIVE old)"
| "pc_ok (WriteCas once old) = (old = 0)"
| "pc_ok p = True"

definition readers :: "rw_sys \<Rightarrow> nat set" where
  "readers s = {t. reads (rw_pcs s t)}"

definition writers :: "rw_sys \<Rightarrow> nat set" where
  "writers s = {t. writes (rw_pcs s t)}"

definition rw_inv :: "nat \<Rightarrow> rw_sys \<Rightarrow> bool" where
  "rw_inv n s \<longleftrightarrow> n < 2 ^ 31 \<and> (\<forall>t \<ge> n. rw_pcs s t = Away) \<and> (\<forall>t. pc_ok (rw_pcs s t)) \<and>
     (if writers s = {} then rw_state (rws s) = word_of_nat (card (readers s))
      else rw_state (rws s) = 2 ^ 31 \<and> readers s = {} \<and> (\<exists>t. writers s = {t}))"

lemma word_31:
  assumes "m < 2 ^ 31"
  shows "\<not> RWSEM_WRITER_ACTIVE (word_of_nat m)" "RWSEM_WRITER_ACTIVE (2 ^ 31)"
    "word_of_nat m = (0 :: u32) \<longleftrightarrow> m = 0"
proof -
  have "\<not> bit m 31" using assms by (simp add: bit_iff_odd)
  then show "\<not> RWSEM_WRITER_ACTIVE (word_of_nat m)"
    unfolding RWSEM_WRITER_ACTIVE_def bit_mask_test by (simp add: bit_of_nat_iff)
  show "RWSEM_WRITER_ACTIVE (2 ^ 31)" unfolding RWSEM_WRITER_ACTIVE_def bit_mask_test by (simp add: bit_simps)
  show "word_of_nat m = (0 :: u32) \<longleftrightarrow> m = 0"
    using assms by (simp add: word_unat_eq_iff unsigned_of_nat take_bit_nat_eq_self)
qed

lemma idle_word: "\<not> RWSEM_WRITER_ACTIVE old \<Longrightarrow> \<not> RWSEM_READERS_ACTIVE old > 0 \<Longrightarrow> old = 0"
proof -
  assume w: "\<not> RWSEM_WRITER_ACTIVE old" and "\<not> RWSEM_READERS_ACTIVE old > 0"
  then have r: "old AND NOT (2 ^ 31) = 0" by (simp add: RWSEM_READERS_ACTIVE_def word_gt_0)
  have b: "\<not> bit old 31" using w unfolding RWSEM_WRITER_ACTIVE_def bit_mask_test .
  show ?thesis
  proof (rule bit_word_eqI)
    fix k assume k: "k < LENGTH(32)"
    have "bit (old AND NOT (2 ^ 31)) k = bit (0 :: u32) k" using r by simp
    then have "bit old k \<and> \<not> bit (2 ^ 31 :: u32) k \<longleftrightarrow> False" using k unfolding bit_and_iff bit_not_iff by simp
    with b show "bit old k = bit (0 :: u32) k" unfolding bit_exp_iff by (cases "k = 31") auto
  qed
qed

lemma put_sel [simp]:
  "rws (put t wp k s) = fst wp" "rw_pcs (put t wp k s) = (rw_pcs s)(t := snd wp)" "rw_kernel (put t wp k s) = k"
  by (simp_all add: put_def)

lemma readers_put: "readers (put t wp k s) = (if reads (snd wp) then insert t (readers s) else readers s - {t})"
  by (auto simp: readers_def split: if_splits)

lemma writers_put: "writers (put t wp k s) = (if writes (snd wp) then insert t (writers s) else writers s - {t})"
  by (auto simp: writers_def split: if_splits)

lemma rw_inv_readers: "rw_inv n s \<Longrightarrow> finite (readers s) \<and> card (readers s) < 2 ^ 31"
proof -
  assume i: "rw_inv n s"
  have "readers s \<subseteq> {..<n}"
  proof
    fix t assume "t \<in> readers s"
    with i show "t \<in> {..<n}" by (cases "t < n") (auto simp: rw_inv_def readers_def)
  qed
  with i card_mono [of "{..<n}" "readers s"] show ?thesis by (auto simp: rw_inv_def intro: finite_subset)
qed

text \<open>The four kinds of steps: nothing is taken or given back, a read or a write begins, or one ends.\<close>

lemma rw_inv_stay:
  assumes i: "rw_inv n s" and t: "t < n" and p: "pc_ok p" "reads p = reads (rw_pcs s t)" "writes p = writes (rw_pcs s t)"
    and w: "rw_state w = rw_state (rws s)"
  shows "rw_inv n (put t (w, p) k s)"
proof -
  have "readers (put t (w, p) k s) = readers s" "writers (put t (w, p) k s) = writers s"
    using p by (auto simp: readers_put writers_put readers_def writers_def)
  with i t p w show ?thesis by (auto simp: rw_inv_def)
qed

lemma rw_inv_read:
  assumes i: "rw_inv n s" and t: "t < n" "rw_pcs s t = ReadCas once old" "rw_state (rws s) = old"
  shows "rw_inv n (put t ((rws s)\<lparr>rw_state := old + 1\<rparr>, Reading) k s)"
proof -
  have "pc_ok (rw_pcs s t)" using i by (simp add: rw_inv_def)
  then have "writers s = {}" using i t word_31(2) [of 0] by (auto simp: rw_inv_def split: if_splits)
  moreover have "t \<notin> readers s" "t \<notin> writers s" using t by (simp_all add: readers_def writers_def)
  ultimately show ?thesis using i t rw_inv_readers [OF i]
    by (auto simp: rw_inv_def readers_put writers_put)
qed

lemma rw_inv_unread:
  assumes i: "rw_inv n s" and t: "t < n" "rw_pcs s t = UnreadCas old" "rw_state (rws s) = old"
  shows "rw_inv n (put t ((rws s)\<lparr>rw_state := old - 1\<rparr>, UnreadTest) k s)"
proof -
  have r: "t \<in> readers s" "t \<notin> writers s" using t by (simp_all add: readers_def writers_def)
  then have w: "writers s = {}" using i by (auto simp: rw_inv_def split: if_splits)
  obtain m where m: "card (readers s) = Suc m" using r rw_inv_readers [OF i] by (metis card_Suc_Diff1)
  with r have "card (readers s - {t}) = m" by simp
  with i t w m r show ?thesis by (auto simp: rw_inv_def readers_put writers_put)
qed

lemma rw_inv_write:
  assumes i: "rw_inv n s" and t: "t < n" "rw_pcs s t = WriteCas once old" "rw_state (rws s) = old"
  shows "rw_inv n (put t ((rws s)\<lparr>rw_state := old OR 2 ^ 31\<rparr>, WriteUncount) k s)"
proof -
  have "pc_ok (rw_pcs s t)" using i by (simp add: rw_inv_def)
  then have z: "rw_state (rws s) = 0" "old = 0" using t by simp_all
  then have w: "writers s = {}" using i by (auto simp: rw_inv_def split: if_splits)
  then have "word_of_nat (card (readers s)) = (0 :: u32)" using i z by (simp add: rw_inv_def)
  then have "readers s = {}" using rw_inv_readers [OF i] word_31(3) [of "card (readers s)"] by auto
  with i t w z show ?thesis by (auto simp: rw_inv_def readers_put writers_put)
qed

lemma rw_inv_unwrite:
  assumes i: "rw_inv n s" and t: "t < n" "rw_pcs s t = Writing"
  shows "rw_inv n (put t ((rws s)\<lparr>rw_state := rw_state (rws s) AND NOT (2 ^ 31)\<rparr>, UnwriteTest) k s)"
proof -
  have "t \<in> writers s" using t by (simp add: writers_def)
  then have w: "writers s = {t}" "readers s = {}" "rw_state (rws s) = 2 ^ 31" using i by (auto simp: rw_inv_def split: if_splits)
  with i t show ?thesis by (auto simp: rw_inv_def readers_put writers_put)
qed

lemma rw_next_inv:
  assumes i: "rw_inv n s" and t: "t < n"
  shows "rw_inv n (put t (rw_next ok (rws s) (rw_pcs s t)) k s)"
proof -
  note stay = rw_inv_stay [OF i t]
  show ?thesis
  proof (cases "rw_pcs s t")
    case (ReadCas once old)
    then show ?thesis using rw_inv_read [OF i t ReadCas] stay by simp
  next
    case (UnreadCas old)
    then show ?thesis using rw_inv_unread [OF i t UnreadCas] stay by simp
  next
    case (WriteCas once old)
    then show ?thesis using rw_inv_write [OF i t WriteCas] stay by simp
  next
    case (WriteTest once old)
    then show ?thesis using stay idle_word [of old] by auto
  qed (use stay in auto)
qed

lemma rw_step_inv:
  assumes i: "rw_inv n s" and st: "rw_step n rq wq s s'"
  shows "rw_inv n s'"
  using st
proof cases
  case (word_step t c ok)
  then show ?thesis using rw_next_inv [OF i] by simp
next
  case (call_step t c wp)
  then show ?thesis using rw_inv_stay [OF i call_step(2)] rw_inv_unwrite [OF i call_step(2)] by (cases "rw_pcs s t") auto
next
  case (sleep_step t c q p lk now now' k)
  then show ?thesis using rw_inv_stay [OF i, of t p] by auto
next
  case (back_step t c p lk now reason k)
  then show ?thesis using rw_inv_stay [OF i, of t p] by auto
next
  case (wake_step t c q amount k)
  then show ?thesis using rw_inv_stay [OF i, of t Away] by auto
next
  case (kernel_step ev k)
  have "readers (s\<lparr>rw_kernel := k\<rparr>) = readers s" "writers (s\<lparr>rw_kernel := k\<rparr>) = writers s"
    by (simp_all add: readers_def writers_def)
  with kernel_step(1) i show ?thesis by (simp add: rw_inv_def)
qed

interpretation rw: exclusive_protocol "rw_step n rq wq" "rw_inv n" "\<lambda>s t. writes (rw_pcs s t)" "\<lambda>s t. reads (rw_pcs s t)" for n rq wq
proof unfold_locales
  show "rw_inv n s'" if "rw_inv n s" "rw_step n rq wq s s'" for s s' using that by (rule rw_step_inv)
  have one: "writers s = {t} \<and> readers s = {}" if "rw_inv n s" "writes (rw_pcs s t)" for s t
  proof -
    have "t \<in> writers s" using that(2) by (simp add: writers_def)
    with that(1) show ?thesis by (auto simp: rw_inv_def split: if_splits)
  qed
  show "a = b" if "rw_inv n s" "writes (rw_pcs s a)" "writes (rw_pcs s b)" for s a b
    using one [OF that(1,2)] one [OF that(1,3)] by simp
  show "\<not> reads (rw_pcs s b)" if "rw_inv n s" "writes (rw_pcs s a)" for s a b
    using one [OF that] by (auto simp: readers_def)
qed

section \<open>Properties\<close>

text \<open>
  C39. In every state that any interleaving of the atomic steps of fewer than \<open>2 ^ 31\<close> threads reaches from
  a new semaphore, a thread that writes is alone: no other thread writes and no thread reads. The events of
  the scheduler, sleeping and waking may happen in between at any point.
\<close>

theorem rwsem_exclusion:
  assumes "n < 2 ^ 31" "reaches (rw_step n rq wq) (rw_start k) s" "writes (rw_pcs s t)"
  shows "\<forall>u. \<not> reads (rw_pcs s u) \<and> (writes (rw_pcs s u) \<longrightarrow> u = t)"
proof
  fix u
  have "rw_inv n (rw_start k)"
    using assms(1) by (simp add: rw_inv_def rw_start_def RWSEM_INITIALIZER_def readers_def writers_def)
  from rw.reached_exclusive [OF assms(2) this assms(3), of u]
  show "\<not> reads (rw_pcs s u) \<and> (writes (rw_pcs s u) \<longrightarrow> u = t)" by auto
qed

text \<open>Steps of thread 0 of a machine on which it runs.\<close>

fun alone_steps :: "nat \<Rightarrow> rw_sys \<Rightarrow> rw_sys" where
  "alone_steps 0 s = s"
| "alone_steps (Suc m) s = (let s = alone_steps m s in put 0 (rw_next True (rws s) (rw_pcs s 0)) (rw_kernel s) s)"

lemma alone_reaches:
  assumes "reaches (rw_step n rq wq) s0 s" "0 < n" "current 0 (rw_kernel s) = Some 0"
  shows "reaches (rw_step n rq wq) s0 (alone_steps m s) \<and> rw_kernel (alone_steps m s) = rw_kernel s"
proof (induction m)
  case 0
  then show ?case using assms by simp
next
  case (Suc m)
  define s1 where "s1 = alone_steps m s"
  have "rw_step n rq wq s1 (put 0 (rw_next True (rws s1) (rw_pcs s1 0)) (rw_kernel s1) s1)"
    using Suc assms(2,3) by (intro word_step [where c = 0]) (simp_all add: s1_def)
  with Suc show ?case by (auto simp: s1_def Let_def intro: reaches_step)
qed

definition write_called :: rw_sys where
  "write_called = put 0 (RWSEM_INITIALIZER, WriteCount False) two_waiting (rw_start two_waiting)"

theorem rwsem_exclusion_witness:
  "reaches (rw_step 2 7 8) (rw_start two_waiting) (alone_steps 4 write_called) \<and> writes (rw_pcs (alone_steps 4 write_called) 0) \<and>
   \<not> reads (rw_pcs (alone_steps 4 write_called) 1) \<and> \<not> writes (rw_pcs (alone_steps 4 write_called) 1)"
proof -
  have cur: "current 0 two_waiting = Some 0" by (simp add: two_waiting_def current_def cpu_of_def)
  have "rw_step 2 7 8 (rw_start two_waiting) write_called"
    unfolding write_called_def
    using call_step [of 0 2 0 "rw_start two_waiting" "(RWSEM_INITIALIZER, WriteCount False)" 7 8] cur by (simp add: rw_start_def)
  then have "reaches (rw_step 2 7 8) (rw_start two_waiting) write_called" by (blast intro: reaches.intros)
  then have r: "reaches (rw_step 2 7 8) (rw_start two_waiting) (alone_steps 4 write_called)"
    using alone_reaches [of 2 7 8 "rw_start two_waiting" write_called 4] cur by (simp add: write_called_def)
  have w: "writes (rw_pcs (alone_steps 4 write_called) 0)"
    by (simp add: numeral_eq_Suc Let_def write_called_def rw_start_def RWSEM_INITIALIZER_def RWSEM_WRITER_ACTIVE_def RWSEM_READERS_ACTIVE_def)
  show ?thesis using spec [OF rwsem_exclusion [OF _ r w], of 1] r w by simp
qed

text \<open>The steps that a thread takes on the words alone, without interference.\<close>

fun rw_run :: "nat \<Rightarrow> rwsem \<times> rw_pc \<Rightarrow> rwsem \<times> rw_pc" where
  "rw_run 0 wp = wp"
| "rw_run (Suc m) wp = rw_run m (rw_next True (fst wp) (snd wp))"


end
