(* ===== verification/Spec2Isabelle.thy ===== *)
theory Spec2Isabelle
  imports Bitmap Ringbuffer Fd Pmm_Init Mmu_Destroy Mmu_Hhdm Vmm_Checks Xarray Hashmap Checksums Mutex Rwsem
begin

text \<open>
  A verification development for Hexahedron, the kernel of the Ethereal operating system, and for the
  data structure library libkstructures that it is built on. File names are relative to \<^verbatim>\<open>src/\<close>.

  \<^bold>\<open>The program.\<close> The kernel consists of a physical page allocator, x86\_64 page tables, a virtual memory
  manager on top of both, a scheduler with one run queue per processor, sleeping and waking, locks
  built on sleeping, file descriptor tables, and file systems, drivers and system calls around
  them. libkstructures provides the containers: bitmaps, ring buffers, linked lists, hash maps; the
  kernel has a radix tree of its own.

  \<^bold>\<open>Conventions.\<close> A pure C function is a HOL function. A routine that can stop the machine or leave an array
  has the result type \<open>outcome\<close>: \<open>Done\<close> with the result, \<open>Panic\<close> for a failed assertion or a kernel
  panic, \<open>Fault\<close> for an access through a null or freed pointer, an access out of range or an undefined
  shift. State is passed explicitly, as a \<open>record\<close> with the members of the C structure. Integers whose
  wrap-around matters are words of their width; addresses and page numbers are natural numbers where the
  code cannot wrap. Code between taking and giving back a lock is one step; where the code itself
  relies on the order of single accesses (mutex, semaphore) every access is a step. A loop that may not end
  is a \<open>partial_function (option)\<close> with \<open>None\<close> for not returning; all others are total, with a termination
  proof where the recursion is not structural. There is no fuel.

  \<^bold>\<open>Containers.\<close>
  \<^item> \<open>Bitmap\<close>: \<^verbatim>\<open>libkstructures/bitmap/bitmap.c\<close>; range clearing is exact and the searches find the least
    clear bit.
  \<^item> \<open>Byte_Fifo\<close>, \<open>Ringbuffer\<close>: the contract of a bounded byte queue and \<^verbatim>\<open>libkstructures/ringbuffer/ringbuffer.c\<close>,
    which fulfils it across the wrap-around of its 32-bit counters when the size divides \<open>2 ^ 32\<close>, and an
    example of lost data when it does not.
  \<^item> \<open>Linked_List\<close>: \<^verbatim>\<open>libkstructures/list/list.c\<close> on a store of nodes with both pointers; all operations refine
    those of a sequence. Its locale \<open>node_queue\<close> is the contract the scheduler uses.
  \<^item> \<open>Key_Value\<close>, \<open>Xarray\<close>, \<open>Hashmap\<close>: the contract of a table and its two providers,
    \<^verbatim>\<open>hexahedron/misc/xarray.c\<close> and \<^verbatim>\<open>libkstructures/hashmap/hashmap.c\<close>.
  \<^item> \<open>Checksums\<close>: CRC-32 in two table-driven forms, Adler-32 with its deferred reduction and the FNV hashes of
    \<^verbatim>\<open>hexahedron/misc/hash.c\<close> and \<^verbatim>\<open>libkstructures/gzip/\<close>, against their definitions.

  \<^bold>\<open>Memory.\<close>
  \<^item> \<open>Frame_Allocator\<close>, \<open>Pmm\<close>, \<open>Pmm_Init\<close>: the contract of a reference-counted frame allocator; \<^verbatim>\<open>hexahedron/mm/pmm.c\<close> with
    its sections, bitmaps and page descriptors, which fulfils it; and the initialisation from the memory map,
    which establishes the invariant.
  \<^item> \<open>Mmu\<close>, \<open>Mmu_Destroy\<close>, \<open>Mmu_Hhdm\<close>: \<^verbatim>\<open>hexahedron/arch/x86_64/mmu.c\<close> on a model of physical memory as arrays
    of entries. Mapping and unmapping change the translation of exactly one page; the life of a
    directory from creation to destruction gives back exactly the frames it took; the direct map is correct.
  \<^item> \<open>Vmm_Range\<close>, \<open>Vmm\<close>, \<open>Vmm_Free\<close>, \<open>Vmm_Fault\<close>, \<open>Vmm_Checks\<close>: \<^verbatim>\<open>hexahedron/mm/vmm.c\<close>, \<^verbatim>\<open>vmmrange.c\<close>, \<^verbatim>\<open>vmmfault.c\<close> and
    \<^verbatim>\<open>vmmclone.c\<close>. The search for holes, the insertion and the freeing of ranges are exact; a fault
    on anonymous memory is resolved with a fresh frame; the validation of user pointers is exact for aligned
    requests, with examples of what it misses otherwise.

  \<^bold>\<open>Threads and locks.\<close>
  \<^item> \<open>Scheduler\<close>, \<open>Sleep\<close>, \<open>Dispatch\<close>: \<^verbatim>\<open>hexahedron/task/scheduler.c\<close>, \<^verbatim>\<open>sleep.c\<close> and the switching part of \<^verbatim>\<open>process.c\<close> and
    \<^verbatim>\<open>thread.c\<close>. From the start of the machine on, in every sequence of events, a thread is in at most one run
    queue and at most once, and no sleeping or running thread is in one; a waiting thread runs after as many
    switches of its processor as there are threads before it, plus one.
  \<^item> \<open>Sleep_Queue\<close>: the sleep queues of \<^verbatim>\<open>sleep.c\<close>, linked through the threads: waking takes the first sleepers
    in order; a stale record in a queue breaks it.
  \<^item> \<open>Protocol\<close>, \<open>Mutex\<close>, \<open>Rwsem\<close>: the contract of a locking protocol, and \<^verbatim>\<open>hexahedron/misc/mutex.c\<close> and
    \<^verbatim>\<open>hexahedron/lock/rwsem.c\<close> as transition systems with a program counter for every thread; mutual exclusion
    holds in every interleaving.
  \<^item> \<open>Descriptor_Table\<close>, \<open>Fd\<close>: the contract of a descriptor table and \<^verbatim>\<open>hexahedron/task/fd.c\<close>, which fulfils it,
    including growth, duplication and close-on-exec.

  \<^bold>\<open>Bounds.\<close> Reference counts and list lengths are unbounded where the source has machine integers that
  would need more objects than memory can hold to wrap. The read/write semaphore is correct for fewer
  than \<open>2 ^ 31\<close> threads, which is a hypothesis. The radix tree needs the first index in an empty array
  to be at most 63, as a hypothesis, since the code is wrong otherwise.

  \<^bold>\<open>Not modelled.\<close> Memory obtained from the kernel heap is a fresh address; the slab allocator behind it
  works on untyped memory and is left out. File systems, sockets, terminals and system calls are
  reached through tables of function pointers and user memory; modelling them needs the virtual file
  system first. Device drivers, interrupt controllers, timers and the start of processors are defined
  by the hardware. Assembly (register save and restore) is represented by its effect on which thread
  runs. Invalidations of the translation cache have no effect in a model whose walks always read
  memory. The memory model of the atomics is sequential consistency, which is what the sources request. The
  ELF loader, the JSON, inflate and font code and all of user space are outside.
\<close>

end
